(* ===== verification/Prelude.thy ===== *)
theory Prelude
  imports Main "HOL-Library.Word" "HOL-Library.Char_ord"
begin

text \<open>
  Shared vocabulary of the development: the machine integers of the C++ sources as words,
  C++ byte strings as \<^typ>\<open>string\<close>, decimal formatting and parsing of unsigned integers
  (\<open>fmt::format\<close> with a bare placeholder, \<open>std::stoul\<close>), and the collections of
  simplification rules the component theories add to.
\<close>

named_theorems pb_field "one step of the generated parse loop over one serialised field"
named_theorems pb_size "length of what a field writer emits"

type_synonym uint8 = "8 word"
type_synonym uint32 = "32 word"
type_synonym uint64 = "64 word"
type_synonym int32 = "32 word"
type_synonym int64 = "64 word"
type_synonym uid = uint64

section \<open>Lists and options\<close>

lemma drop_length_append [simp]: "drop (length xs) (xs @ ys) = ys"
  by simp

lemma drop_length_add [simp]: "drop (length xs + n) (xs @ ys) = drop n ys"
  by simp

lemma Suc_length_pred: "xs \<noteq> [] \<Longrightarrow> Suc (length xs - Suc 0) = length xs"
  by (cases xs) auto

section \<open>Sums in which one term changes\<close>

lemma sum_worker:
  fixes f g :: "nat \<Rightarrow> 'b :: cancel_comm_monoid_add"
  assumes "i < n" and "\<And>j. j < n \<Longrightarrow> j \<noteq> i \<Longrightarrow> g j = f j"
  shows "sum g {..<n} + f i = sum f {..<n} + g i"
proof -
  have "sum g ({..<n} - {i}) = sum f ({..<n} - {i})" using assms(2) by (intro sum.cong) auto
  then show ?thesis using assms(1) by (simp add: sum.remove [of _ i] ac_simps)
qed

lemma exchange:
  fixes A B P Q :: "'b :: cancel_comm_monoid_add"
  assumes "A + b = B + a" and "P' + a + Q' = P + b + Q"
  shows "P' + (Q' + A) = P + (Q + B)"
proof -
  have "P' + (Q' + A) + (a + b) = (P' + a + Q') + (A + b)" by (simp add: ac_simps)
  also have "\<dots> = (P + b + Q) + (B + a)" by (simp only: assms)
  also have "\<dots> = P + (Q + B) + (a + b)" by (simp add: ac_simps)
  finally show ?thesis by simp
qed

lemma exchange_log:
  fixes E F H :: "'b :: cancel_comm_monoid_add"
  assumes "E = H + F" and "E' + H + a = E + H' + b" and "G + a = F + b"
  shows "E' = H' + G"
proof -
  have "E' + (H + a) = H + F + H' + b" using assms(1,2) by (simp add: ac_simps)
  also have "\<dots> = H + H' + (G + a)" by (simp add: assms(3) ac_simps)
  also have "\<dots> = (H' + G) + (H + a)" by (simp add: ac_simps)
  finally show ?thesis by simp
qed

section \<open>Words\<close>

lemma unat_bound: "unat (w :: 'a :: len word) < 2 ^ LENGTH('a)"
  by (rule unsigned_less)

lemma unat_of_nat_small: "n < 2 ^ LENGTH('a) \<Longrightarrow> unat (of_nat n :: 'a :: len word) = n"
  by (simp add: unat_of_nat take_bit_nat_eq_self)

lemma unat_ucast_up32: "unat (ucast (w :: uint32) :: uint64) = unat w"
  by (simp add: unsigned_ucast_eq take_bit_nat_eq_self unat_bound [THEN less_le_trans])

lemma ucast_up_down32: "ucast (ucast (w :: uint32) :: uint64) = w"
  by (rule bit_word_eqI) (simp add: bit_simps)

section \<open>Decimal notation of unsigned integers\<close>

fun dec :: "nat \<Rightarrow> string" where
  "dec n = (if n < 10 then [char_of (48 + n)] else dec (n div 10) @ [char_of (48 + n mod 10)])"

declare dec.simps [simp del]

definition is_digit :: "char \<Rightarrow> bool" where
  "is_digit c \<longleftrightarrow> 48 \<le> (of_char c :: nat) \<and> (of_char c :: nat) \<le> 57"

definition digit_val :: "char \<Rightarrow> nat" where
  "digit_val c = of_char c - 48"

definition read_dec :: "string \<Rightarrow> nat" where
  "read_dec s = foldl (\<lambda>n c. n * 10 + digit_val c) 0 s"

lemma of_char_digit: "d < 10 \<Longrightarrow> of_char (char_of (48 + d) :: char) = 48 + (d :: nat)"
  by simp

lemma is_digit_char_of: "(d :: nat) < 10 \<Longrightarrow> is_digit (char_of (48 + d))"
  by (simp add: is_digit_def)

lemma digit_val_char_of: "(d :: nat) < 10 \<Longrightarrow> digit_val (char_of (48 + d)) = d"
  by (simp add: digit_val_def)

lemma read_dec_snoc: "read_dec (s @ [c]) = read_dec s * 10 + digit_val c"
  by (simp add: read_dec_def)

lemma dec_digits: "\<forall>c \<in> set (dec n). is_digit c"
proof (induction n rule: dec.induct)
  case (1 n)
  show ?case
  proof (cases "n < 10")
    case True
    then show ?thesis by (simp add: dec.simps [of n] is_digit_char_of)
  next
    case False
    with 1 show ?thesis by (simp add: dec.simps [of n] is_digit_char_of)
  qed
qed

lemma dec_nonempty [simp]: "dec n \<noteq> []"
  by (subst dec.simps) simp

lemma read_dec_dec [simp]: "read_dec (dec n) = n"
proof (induction n rule: dec.induct)
  case (1 n)
  show ?case
  proof (cases "n < 10")
    case True
    then show ?thesis by (simp add: dec.simps [of n] read_dec_def digit_val_char_of)
  next
    case False
    with 1 show ?thesis by (simp add: dec.simps [of n] read_dec_snoc digit_val_char_of)
  qed
qed

lemma dec_inject [simp]: "dec m = dec n \<longleftrightarrow> m = n"
  by (metis read_dec_dec)

lemma length_dec_le: "n < 10 ^ Suc k \<Longrightarrow> length (dec n) \<le> Suc k"
proof (induction k arbitrary: n)
  case 0
  then show ?case by (subst dec.simps) simp
next
  case (Suc k)
  then have "n div 10 < 10 ^ Suc k" by (simp add: less_mult_imp_div_less)
  from Suc.IH [OF this] show ?case by (subst dec.simps) simp
qed

text \<open>\<open>fmt::format("{}", n)\<close> of an unsigned 64-bit value.\<close>

definition fmt_u64 :: "uint64 \<Rightarrow> string" where
  "fmt_u64 n = dec (unat n)"

lemma fmt_u64_inject [simp]: "fmt_u64 a = fmt_u64 b \<longleftrightarrow> a = b"
  by (simp add: fmt_u64_def word_unat_eq_iff)

section \<open>ASCII strings\<close>

definition ascii :: "string \<Rightarrow> bool" where
  "ascii s \<longleftrightarrow> list_all (\<lambda>c. (of_char c :: nat) < 128) s"

lemma ascii_append [simp]: "ascii (s @ t) \<longleftrightarrow> ascii s \<and> ascii t"
  by (simp add: ascii_def)

lemma ascii_dec [simp]: "ascii (dec n)"
  using dec_digits [of n] by (auto simp: ascii_def list_all_iff is_digit_def)

lemma sint_Suc:
  assumes "sint (b :: 64 word) + 1 < 2 ^ 63"
  shows "sint (b + 1) = sint b + 1"
proof -
  have "- (2 ^ 63) \<le> sint b" using sint_greater_eq [of b] by simp
  then show ?thesis using assms by (simp add: sint_word_ariths signed_take_bit_int_eq_self)
qed

end
