(* ===== verification/PbWire.thy ===== *)
theory PbWire
  imports Prelude
begin

unbundle bit_operations_syntax

text \<open>
  The Protocol Buffers runtime as the generated code of \<open>server/proto\<close> uses it. The runtime
  itself (\<open>google/protobuf\<close>) is not part of the repository: its entry points are the fields of
  the record \<open>pb_rt\<close>, a parameter of every definition that parses or prints a message, and what
  the generated code relies on (the documented wire format) is the locale \<open>pb_runtime\<close>.
  \<open>wire_rt\<close> is a full implementation of that format, on which the locale is interpreted.
  The \<open>while\<close> loop that all generated \<open>_InternalParse\<close> functions share is \<open>pb_loop\<close>.
\<close>

section \<open>The documented wire format\<close>

text \<open>Base 128 varints: seven bits per byte, least significant group first.\<close>

fun varint :: "nat \<Rightarrow> string" where
  "varint n = (if n < 128 then [char_of n] else char_of (128 + n mod 128) # varint (n div 128))"

declare varint.simps [simp del]

definition sext :: "int32 \<Rightarrow> uint64" where
  "sext v = signed v"

text \<open>The size limit of the runtime (\<open>INT_MAX\<close> minus its 16 slop bytes).\<close>

definition pb_max :: nat where
  "pb_max = 2147483631"

type_synonym unknown_fields = "(uint32 \<times> string) list"

text \<open>
  An unknown field is kept as its tag and its encoded value; which pairs the runtime holds is
  \<open>rt_field_ok\<close> below.
\<close>

fun unknown_bytes :: "unknown_fields \<Rightarrow> string" where
  "unknown_bytes [] = []"
| "unknown_bytes ((t, p) # u) = varint (unat t) @ p @ unknown_bytes u"

section \<open>The runtime interface\<close>

text \<open>
  Readers get the bytes up to the current limit and return the value with the number of bytes
  the pointer moves; \<open>None\<close> is a null pointer. A tag occupies at least one byte, so
  \<open>rt_ReadTag\<close> returns how many bytes follow the first one. Writers return the bytes they emit.
  \<open>rt_InternalWriteMessage f p n\<close> writes field \<open>f\<close> with the cached size \<open>n\<close> before the payload.
  \<open>rt_field_ok\<close> says which tag and value pairs an \<open>UnknownFieldSet\<close> can hold: the runtime keeps an
  unknown field it could parse and writes it back so that it parses again.
\<close>

record pb_rt =
  rt_ReadTag :: "string \<Rightarrow> (uint32 \<times> nat) option"
  rt_ReadVarint32 :: "string \<Rightarrow> (uint32 \<times> nat) option"
  rt_ReadVarint64 :: "string \<Rightarrow> (uint64 \<times> nat) option"
  rt_ReadDelimited :: "string \<Rightarrow> (string \<times> nat) option"
  rt_VerifyUTF8 :: "string \<Rightarrow> bool"
  rt_field_ok :: "uint32 \<times> string \<Rightarrow> bool"
  rt_UnknownFieldParse :: "uint32 \<Rightarrow> unknown_fields \<Rightarrow> string \<Rightarrow> (unknown_fields \<times> nat) option"
  rt_WriteInt32ToArray :: "nat \<Rightarrow> int32 \<Rightarrow> string"
  rt_WriteUInt32ToArray :: "nat \<Rightarrow> uint32 \<Rightarrow> string"
  rt_WriteInt64ToArray :: "nat \<Rightarrow> int64 \<Rightarrow> string"
  rt_WriteUInt64ToArray :: "nat \<Rightarrow> uint64 \<Rightarrow> string"
  rt_WriteEnumToArray :: "nat \<Rightarrow> int32 \<Rightarrow> string"
  rt_WriteBytesMaybeAliased :: "nat \<Rightarrow> string \<Rightarrow> string"
  rt_WriteStringMaybeAliased :: "nat \<Rightarrow> string \<Rightarrow> string"
  rt_InternalWriteMessage :: "nat \<Rightarrow> string \<Rightarrow> nat \<Rightarrow> string"
  rt_SerializeUnknownFields :: "unknown_fields \<Rightarrow> string"
  rt_Int32SizePlusOne :: "int32 \<Rightarrow> nat"
  rt_UInt32SizePlusOne :: "uint32 \<Rightarrow> nat"
  rt_Int64SizePlusOne :: "int64 \<Rightarrow> nat"
  rt_UInt64SizePlusOne :: "uint64 \<Rightarrow> nat"
  rt_EnumSize :: "int32 \<Rightarrow> nat"
  rt_BytesSize :: "string \<Rightarrow> nat"
  rt_StringSize :: "string \<Rightarrow> nat"
  rt_MessageSize :: "nat \<Rightarrow> nat"
  rt_UnknownFieldsSize :: "unknown_fields \<Rightarrow> nat"

locale pb_runtime =
  fixes rt :: pb_rt
  assumes ReadTag: "rt_ReadTag rt (varint (unat t) @ r) = Some (t, length (varint (unat t)) - 1)"
    and ReadVarint32: "rt_ReadVarint32 rt (varint (unat (v :: uint64)) @ r) =
      Some (ucast v, length (varint (unat v)))"
    and ReadVarint64: "rt_ReadVarint64 rt (varint (unat v) @ r) = Some (v, length (varint (unat v)))"
    and ReadDelimited: "length p < pb_max \<Longrightarrow>
      rt_ReadDelimited rt (varint (length p) @ p @ r) = Some (p, length (varint (length p)) + length p)"
    and VerifyUTF8: "ascii s \<Longrightarrow> rt_VerifyUTF8 rt s"
    and field_ok_tag: "rt_field_ok rt (t, p) \<Longrightarrow> t \<noteq> 0 \<and> t AND 7 \<noteq> 4"
    and UnknownFieldParse: "rt_field_ok rt (t, p) \<Longrightarrow>
      rt_UnknownFieldParse rt t u (p @ r) = Some (u @ [(t, p)], length p)"
    and UnknownFieldParse_ok: "rt_UnknownFieldParse rt t u s = Some (u', n) \<Longrightarrow>
      \<exists>p. u' = u @ [(t, p)] \<and> rt_field_ok rt (t, p)"
    and WriteInt32: "rt_WriteInt32ToArray rt f i = varint (f * 8) @ varint (unat (sext i))"
    and WriteUInt32: "rt_WriteUInt32ToArray rt f w = varint (f * 8) @ varint (unat w)"
    and WriteInt64: "rt_WriteInt64ToArray rt f v = varint (f * 8) @ varint (unat v)"
    and WriteUInt64: "rt_WriteUInt64ToArray rt f v = varint (f * 8) @ varint (unat v)"
    and WriteEnum: "rt_WriteEnumToArray rt f i = varint (f * 8) @ varint (unat (sext i))"
    and WriteBytes: "rt_WriteBytesMaybeAliased rt f p = varint (f * 8 + 2) @ varint (length p) @ p"
    and WriteString: "rt_WriteStringMaybeAliased rt f p = varint (f * 8 + 2) @ varint (length p) @ p"
    and WriteMessage: "rt_InternalWriteMessage rt f p n = varint (f * 8 + 2) @ varint n @ p"
    and SerializeUnknown: "rt_SerializeUnknownFields rt u = unknown_bytes u"
    and Int32Size: "rt_Int32SizePlusOne rt i = Suc (length (varint (unat (sext i))))"
    and UInt32Size: "rt_UInt32SizePlusOne rt w = Suc (length (varint (unat w)))"
    and Int64Size: "rt_Int64SizePlusOne rt v = Suc (length (varint (unat v)))"
    and UInt64Size: "rt_UInt64SizePlusOne rt v = Suc (length (varint (unat v)))"
    and EnumSize: "rt_EnumSize rt i = length (varint (unat (sext i)))"
    and BytesSize: "rt_BytesSize rt p = length (varint (length p)) + length p"
    and StringSize: "rt_StringSize rt p = length (varint (length p)) + length p"
    and MessageSize: "rt_MessageSize rt n = length (varint n) + n"
    and UnknownSize: "rt_UnknownFieldsSize rt u = length (unknown_bytes u)"

section \<open>The generated parse loop\<close>

text \<open>
  What one arm of the \<open>switch (tag >> 3)\<close> does: jump to \<open>handle_unusual\<close>, jump to \<open>failure\<close>, or
  continue with the updated message after moving the pointer. \<open>_InternalParse\<close> ends at the limit,
  at a tag stored with \<open>SetLastTag\<close>, or with a null pointer.
\<close>

datatype 'm fres = Unusual | Failure | Continue 'm nat

datatype 'm pres = AtLimit 'm | LastTag uint32 'm | ParseFail

function pb_loop :: "pb_rt \<Rightarrow> (uint32 \<Rightarrow> 'm \<Rightarrow> string \<Rightarrow> 'm fres) \<Rightarrow> ('m \<Rightarrow> unknown_fields) \<Rightarrow>
    (unknown_fields \<Rightarrow> 'm \<Rightarrow> 'm) \<Rightarrow> 'm \<Rightarrow> string \<Rightarrow> 'm pres" where
  "pb_loop rt fld get put m s =
     (if s = [] then AtLimit m
      else case rt_ReadTag rt s of
        None \<Rightarrow> ParseFail
      | Some (tag, n) \<Rightarrow>
          (case fld tag m (drop (Suc n) s) of
             Failure \<Rightarrow> ParseFail
           | Continue m' k \<Rightarrow> pb_loop rt fld get put m' (drop k (drop (Suc n) s))
           | Unusual \<Rightarrow>
               if tag = 0 \<or> tag AND 7 = 4 then LastTag tag m
               else case rt_UnknownFieldParse rt tag (get m) (drop (Suc n) s) of
                 None \<Rightarrow> ParseFail
               | Some (u, k) \<Rightarrow> pb_loop rt fld get put (put u m) (drop k (drop (Suc n) s))))"
  by pat_completeness auto
termination
  by (relation "measure (\<lambda>(rt, fld, get, put, m, s). length s)") auto

declare pb_loop.simps [simp del]

lemma pb_loop_Nil [simp]: "pb_loop rt fld get put m [] = AtLimit m"
  by (simp add: pb_loop.simps)

text \<open>
  \<open>ctx->ParseMessage(sub, ptr)\<close>: parse the delimited region into \<open>sub\<close>; it must end at the
  limit. \<open>ParseFromArray\<close> clears the message and parses the whole array in the same way.
\<close>

definition ParseMessage :: "pb_rt \<Rightarrow> ('m \<Rightarrow> string \<Rightarrow> 'm pres) \<Rightarrow> 'm \<Rightarrow> string \<Rightarrow> ('m \<times> nat) option" where
  "ParseMessage rt parse m s =
     (case rt_ReadDelimited rt s of
        None \<Rightarrow> None
      | Some (p, n) \<Rightarrow> (case parse m p of AtLimit m' \<Rightarrow> Some (m', n) | _ \<Rightarrow> None))"

definition at_limit :: "'m pres \<Rightarrow> 'm option" where
  "at_limit r = (case r of AtLimit m \<Rightarrow> Some m | _ \<Rightarrow> None)"

lemma at_limit_simps [simp]:
  "at_limit (AtLimit m) = Some m" "at_limit (LastTag t m) = None" "at_limit ParseFail = None"
  by (simp_all add: at_limit_def)

text \<open>The outcome of reading one scalar field: \<open>CHK_(ptr)\<close>, then store the value.\<close>

definition read_field :: "('v \<times> nat) option \<Rightarrow> ('v \<Rightarrow> 'm) \<Rightarrow> 'm fres" where
  "read_field r store = (case r of None \<Rightarrow> Failure | Some (v, n) \<Rightarrow> Continue (store v) n)"

lemma read_field_simps [simp]:
  "read_field None store = Failure"
  "read_field (Some (v, n)) store = Continue (store v) n"
  by (simp_all add: read_field_def)

text \<open>A \<open>string\<close> field must also be valid UTF-8.\<close>

definition read_utf8 :: "pb_rt \<Rightarrow> (string \<times> nat) option \<Rightarrow> (string \<Rightarrow> 'm) \<Rightarrow> 'm fres" where
  "read_utf8 rt r store =
     (case r of
        None \<Rightarrow> Failure
      | Some (v, n) \<Rightarrow> if rt_VerifyUTF8 rt v then Continue (store v) n else Failure)"

lemma read_utf8_simps [simp]:
  "read_utf8 rt None store = Failure"
  "read_utf8 rt (Some (v, n)) store = (if rt_VerifyUTF8 rt v then Continue (store v) n else Failure)"
  by (simp_all add: read_utf8_def)

text \<open>The test of an arm, \<open>static_cast<uint8_t>(tag) == b\<close>.\<close>

definition expect :: "uint32 \<Rightarrow> uint8 \<Rightarrow> 'm fres \<Rightarrow> 'm fres" where
  "expect tag b arm = (if (ucast tag :: uint8) = b then arm else Unusual)"

lemma read_field_eq_Continue [simp]:
  "read_field r store = Continue m' k \<longleftrightarrow> (\<exists>v. r = Some (v, k) \<and> m' = store v)"
  by (auto simp: read_field_def split: option.splits)

lemma read_utf8_eq_Continue [simp]:
  "read_utf8 rt r store = Continue m' k \<longleftrightarrow> (\<exists>v. r = Some (v, k) \<and> rt_VerifyUTF8 rt v \<and> m' = store v)"
  by (auto simp: read_utf8_def split: option.splits if_splits)

lemma read_neq_Unusual [simp]: "read_field r store \<noteq> Unusual" "read_utf8 rt q put \<noteq> Unusual"
  by (auto simp: read_field_def read_utf8_def split: option.splits)

lemma expect_eq_Continue [simp]: "expect tag b arm = Continue m' k \<longleftrightarrow> (ucast tag :: uint8) = b \<and> arm = Continue m' k"
  by (auto simp: expect_def)

lemma expect_same [simp]: "(ucast tag :: uint8) = b \<Longrightarrow> expect tag b arm = arm"
  by (simp add: expect_def)

lemma ParseMessage_Some: "ParseMessage rt parse m s = Some (m', n) \<Longrightarrow> \<exists>p. parse m p = AtLimit m'"
  by (auto simp: ParseMessage_def split: option.splits pres.splits)

section \<open>Consequences of the wire format\<close>

lemma varint_nonempty [simp]: "varint n \<noteq> []"
  by (subst varint.simps) simp

lemma unat_sext_bound: "unat (sext i) < 2 ^ 64"
  using unat_bound [of "sext i"] by simp

lemma ucast_sext [simp]: "ucast (sext i) = i"
  by (rule bit_word_eqI) (simp add: sext_def bit_simps)

lemma varint_small: "n < 128 \<Longrightarrow> varint n = [char_of n]"
  by (simp add: varint.simps)

lemma length_varint_small: "n < 128 \<Longrightarrow> length (varint n) = 1"
  by (simp add: varint_small)

lemma length_varint_le: "n < 128 ^ Suc k \<Longrightarrow> length (varint n) \<le> Suc k"
proof (induction k arbitrary: n)
  case 0
  then show ?case by (subst varint.simps) simp
next
  case (Suc k)
  then have "n div 128 < 128 ^ Suc k" by (simp add: less_mult_imp_div_less)
  from Suc.IH [OF this] show ?case by (subst varint.simps) simp
qed

lemma length_varint_word: "length (varint (unat (w :: uint64))) \<le> 10"
  by (rule length_varint_le [of _ 9, simplified], rule less_trans [OF unat_bound]) simp

context pb_runtime
begin

lemma ReadTag_nat: "n < 2 ^ 32 \<Longrightarrow> rt_ReadTag rt (varint n @ r) = Some (of_nat n, length (varint n) - 1)"
  using ReadTag [of "of_nat n" r] by (simp add: unat_of_nat_small)

lemma ReadVarint32_u32 [simp]: "rt_ReadVarint32 rt (varint (unat (w :: uint32)) @ r) =
    Some (w, length (varint (unat w)))"
proof -
  have "unat (ucast w :: uint64) = unat w" by (rule unat_ucast_up32)
  then show ?thesis using ReadVarint32 [of "ucast w" r] by (simp add: ucast_up_down32)
qed

lemma loop_tag:
  assumes "n < 2 ^ 32"
  shows "pb_loop rt fld get put m (varint n @ s) =
    (case fld (of_nat n) m s of
       Failure \<Rightarrow> ParseFail
     | Continue m' k \<Rightarrow> pb_loop rt fld get put m' (drop k s)
     | Unusual \<Rightarrow>
         if (of_nat n :: uint32) = 0 \<or> (of_nat n :: uint32) AND 7 = 4 then LastTag (of_nat n) m
         else case rt_UnknownFieldParse rt (of_nat n) (get m) s of
           None \<Rightarrow> ParseFail
         | Some (u, k) \<Rightarrow> pb_loop rt fld get put (put u m) (drop k s))"
  using assms
  by (subst pb_loop.simps) (simp add: ReadTag_nat Suc_length_pred split: fres.split option.split)

lemma loop_field:
  assumes "n < 2 ^ 32" and "fld (of_nat n) m s = Continue m' k"
  shows "pb_loop rt fld get put m (varint n @ s) = pb_loop rt fld get put m' (drop k s)"
  using assms by (simp add: loop_tag)

text \<open>Unknown fields written back after the known ones are read again, in order.\<close>

lemma loop_unknown:
  assumes "\<forall>(t, p) \<in> set u. rt_field_ok rt (t, p) \<and> (\<forall>m s. fld t m s = Unusual)"
    and "\<And>m u. get (put u m) = u" and "\<And>m u u'. put u (put u' m) = put u m"
    and "\<And>m. put (get m) m = m"
  shows "pb_loop rt fld get put m (unknown_bytes u @ r) = pb_loop rt fld get put (put (get m @ u) m) r"
  using assms(1)
proof (induction u arbitrary: m)
  case Nil
  then show ?case by (simp add: assms(4))
next
  case (Cons f u)
  obtain t p where f: "f = (t, p)" by (cases f)
  have ok: "rt_field_ok rt (t, p)" and un: "\<And>m s. fld t m s = Unusual"
    using Cons.prems f by auto
  have t0: "t \<noteq> 0" and t4: "t AND 7 \<noteq> 4" using field_ok_tag [OF ok] by auto
  have "pb_loop rt fld get put m (varint (unat t) @ p @ unknown_bytes u @ r) =
      pb_loop rt fld get put (put (get m @ [(t, p)]) m) (unknown_bytes u @ r)"
    using loop_tag [of "unat t" fld get put m "p @ unknown_bytes u @ r"] un t0 t4
      UnknownFieldParse [OF ok, of "get m" "unknown_bytes u @ r"] unat_bound [of t]
    by simp
  then show ?case using Cons.IH Cons.prems f by (simp add: assms(2,3))
qed

end

section \<open>Optional fields\<close>

text \<open>
  Proto3 writes a scalar only when it differs from its default. Reading such a (possibly absent)
  field gives the message with the written value, or leaves it alone: as merging does.
\<close>

lemma unat_drop3: "unat (drop_bit 3 (t :: uint32)) = unat t div 8"
  unfolding unat_drop_bit_eq by (simp add: drop_bit_eq_div)

lemma unat_low8: "unat (ucast (t :: uint32) :: uint8) = unat t mod 256"
  by (simp add: unsigned_ucast_eq take_bit_eq_mod)

text \<open>\<open>tag >> 3\<close> and \<open>static_cast<uint8_t>(tag)\<close> together determine the whole tag.\<close>

lemma tag_match:
  assumes "drop_bit 3 (t :: uint32) = f" and "(ucast t :: uint8) = b"
    and "unat f = unat g div 8" and "unat b = unat g mod 256"
  shows "t = g"
proof -
  have "unat t div 8 = unat g div 8" using assms(1,3) unat_drop3 [of t] by simp
  moreover have "unat t mod 256 = unat g mod 256" using assms(2,4) unat_low8 [of t] by simp
  then have "unat t mod 256 mod 8 = unat g mod 256 mod 8" by simp
  then have "unat t mod 8 = unat g mod 8" by (simp add: mod_mod_cancel)
  ultimately have "unat t = unat g" by (metis div_mult_mod_eq)
  then show ?thesis by (simp add: word_unat_eq_iff)
qed

definition unknowns_ok :: "pb_rt \<Rightarrow> uint32 list \<Rightarrow> unknown_fields \<Rightarrow> bool" where
  "unknowns_ok rt known u \<longleftrightarrow> list_all (\<lambda>(t, p). t \<notin> set known \<and> rt_field_ok rt (t, p)) u"

lemma unknowns_ok_Nil [simp]: "unknowns_ok rt known []"
  by (simp add: unknowns_ok_def)

context pb_runtime
begin

lemma opt_int32:
  assumes "f < 536870912" and "\<And>s. fld (of_nat (f * 8)) m s = read_field (rt_ReadVarint32 rt s) (\<lambda>v. st v m)"
    and "x = (if v \<noteq> 0 then st v m else m)"
  shows "pb_loop rt fld get put m ((if v \<noteq> 0 then rt_WriteInt32ToArray rt f v else []) @ r) =
    pb_loop rt fld get put x r"
  using assms by (auto simp: WriteInt32 ReadVarint32 loop_field)

lemma opt_uint32:
  assumes "f < 536870912" and "\<And>s. fld (of_nat (f * 8)) m s = read_field (rt_ReadVarint32 rt s) (\<lambda>v. st v m)"
    and "x = (if v \<noteq> 0 then st v m else m)"
  shows "pb_loop rt fld get put m ((if v \<noteq> 0 then rt_WriteUInt32ToArray rt f v else []) @ r) =
    pb_loop rt fld get put x r"
  using assms by (auto simp: WriteUInt32 loop_field)

lemma opt_uint64:
  assumes "f < 536870912" and "\<And>s. fld (of_nat (f * 8)) m s = read_field (rt_ReadVarint64 rt s) (\<lambda>v. st v m)"
    and "x = (if v \<noteq> 0 then st v m else m)"
  shows "pb_loop rt fld get put m ((if v \<noteq> 0 then rt_WriteUInt64ToArray rt f v else []) @ r) =
    pb_loop rt fld get put x r"
  using assms by (auto simp: WriteUInt64 ReadVarint64 loop_field)

lemma opt_int64:
  assumes "f < 536870912" and "\<And>s. fld (of_nat (f * 8)) m s = read_field (rt_ReadVarint64 rt s) (\<lambda>v. st v m)"
    and "x = (if v \<noteq> 0 then st v m else m)"
  shows "pb_loop rt fld get put m ((if v \<noteq> 0 then rt_WriteInt64ToArray rt f v else []) @ r) =
    pb_loop rt fld get put x r"
  using assms by (auto simp: WriteInt64 ReadVarint64 loop_field)

lemma opt_enum:
  assumes "f < 536870912"
    and "\<And>s. fld (of_nat (f * 8)) m s = read_field (rt_ReadVarint64 rt s) (\<lambda>v. st (ucast v) m)"
    and "x = (if v \<noteq> 0 then st v m else m)"
  shows "pb_loop rt fld get put m ((if v \<noteq> 0 then rt_WriteEnumToArray rt f v else []) @ r) =
    pb_loop rt fld get put x r"
  using assms by (auto simp: WriteEnum ReadVarint64 loop_field)

lemma opt_bytes:
  assumes "f < 536870911"
    and "\<And>s. fld (of_nat (f * 8 + 2)) m s = read_field (rt_ReadDelimited rt s) (\<lambda>v. st v m)"
    and "x = (if v \<noteq> [] then st v m else m)" and "length v < pb_max"
  shows "pb_loop rt fld get put m ((if v \<noteq> [] then rt_WriteBytesMaybeAliased rt f v else []) @ r) =
    pb_loop rt fld get put x r"
  using assms by (auto simp: WriteBytes ReadDelimited loop_field)

lemma opt_string:
  assumes "f < 536870911"
    and "\<And>s. fld (of_nat (f * 8 + 2)) m s = read_utf8 rt (rt_ReadDelimited rt s) (\<lambda>v. st v m)"
    and "x = (if v \<noteq> [] then st v m else m)" and "length v < pb_max" and "rt_VerifyUTF8 rt v"
  shows "pb_loop rt fld get put m ((if v \<noteq> [] then rt_WriteStringMaybeAliased rt f v else []) @ r) =
    pb_loop rt fld get put x r"
  using assms by (auto simp: WriteString ReadDelimited loop_field)

text \<open>Members of a oneof are written whenever they are set, whatever their value.\<close>

lemma set_int64:
  assumes "f < 536870912" and "\<And>s. fld (of_nat (f * 8)) m s = read_field (rt_ReadVarint64 rt s) (\<lambda>v. st v m)"
  shows "pb_loop rt fld get put m (rt_WriteInt64ToArray rt f v @ r) = pb_loop rt fld get put (st v m) r"
  using assms by (auto simp: WriteInt64 ReadVarint64 loop_field)

lemma set_int32:
  assumes "f < 536870912" and "\<And>s. fld (of_nat (f * 8)) m s = read_field (rt_ReadVarint32 rt s) (\<lambda>v. st v m)"
  shows "pb_loop rt fld get put m (rt_WriteInt32ToArray rt f v @ r) = pb_loop rt fld get put (st v m) r"
  using assms by (auto simp: WriteInt32 ReadVarint32 loop_field)

lemma set_string:
  assumes "f < 536870911"
    and "\<And>s. fld (of_nat (f * 8 + 2)) m s = read_utf8 rt (rt_ReadDelimited rt s) (\<lambda>v. st v m)"
    and "length v < pb_max" and "rt_VerifyUTF8 rt v"
  shows "pb_loop rt fld get put m (rt_WriteStringMaybeAliased rt f v @ r) = pb_loop rt fld get put (st v m) r"
  using assms by (auto simp: WriteString ReadDelimited loop_field)

text \<open>
  A submessage: the cached size is written first, so reading it back needs that size to be the
  length of the payload.
\<close>

lemma set_message:
  assumes "f < 536870911"
    and "\<And>s. fld (of_nat (f * 8 + 2)) m s = read_field (ParseMessage rt parse x0 s) (\<lambda>x. st x m)"
    and "parse x0 p = AtLimit x" and "n = length p" and "length p < pb_max"
  shows "pb_loop rt fld get put m (rt_InternalWriteMessage rt f p n @ r) = pb_loop rt fld get put (st x m) r"
  using assms by (auto simp: WriteMessage ReadDelimited ParseMessage_def loop_field)

text \<open>
  An invariant of the message that every arm and every appended unknown field keeps holds of
  whatever the loop returns.
\<close>

lemma loop_invariant:
  assumes "\<And>tag m s m' k. P m \<Longrightarrow> fld tag m s = Continue m' k \<Longrightarrow> P m'"
    and "\<And>tag m s p. P m \<Longrightarrow> fld tag m s = Unusual \<Longrightarrow> rt_field_ok rt (tag, p) \<Longrightarrow> P (put (get m @ [(tag, p)]) m)"
  shows "P m \<Longrightarrow> pb_loop rt fld get put m s = AtLimit m' \<Longrightarrow> P m'"
proof (induction "length s" arbitrary: m s rule: less_induct)
  case less
  show ?case
  proof (cases "s = []")
    case True
    with less.prems show ?thesis by simp
  next
    case False
    then obtain tag n where tag: "rt_ReadTag rt s = Some (tag, n)"
      using less.prems(2) by (cases "rt_ReadTag rt s") (auto simp: pb_loop.simps [of rt fld get put m s])
    let ?s = "drop (Suc n) s"
    have shorter: "length (drop k ?s) < length s" for k using False by simp
    show ?thesis
    proof (cases "fld tag m ?s")
      case Failure
      with less.prems(2) False tag show ?thesis by (simp add: pb_loop.simps [of rt fld get put m s])
    next
      case (Continue m1 k)
      with less.prems(2) False tag have "pb_loop rt fld get put m1 (drop k ?s) = AtLimit m'"
        by (simp add: pb_loop.simps [of rt fld get put m s])
      with less.hyps [OF shorter assms(1) [OF less.prems(1) Continue]] show ?thesis .
    next
      case Unusual
      with less.prems(2) False tag obtain u k where
        u: "rt_UnknownFieldParse rt tag (get m) ?s = Some (u, k)" and
        rest: "pb_loop rt fld get put (put u m) (drop k ?s) = AtLimit m'"
        by (auto simp: pb_loop.simps [of rt fld get put m s] split: if_splits option.splits)
      from UnknownFieldParse_ok [OF u] obtain p where
        p: "u = get m @ [(tag, p)]" "rt_field_ok rt (tag, p)" by blast
      from assms(2) [OF less.prems(1) Unusual p(2)] have "P (put u m)" by (simp add: p(1))
      from less.hyps [OF shorter this rest] show ?thesis .
    qed
  qed
qed

text \<open>
  The invariant of a generated message: its unknown fields are fields the message does not have,
  and some property \<open>Q\<close> of the known ones.
\<close>

lemma loop_wf:
  assumes start: "unknowns_ok rt known (get m) \<and> Q m"
    and arm: "\<And>tag m s m' k. fld tag m s = Continue m' k \<Longrightarrow> Q m \<Longrightarrow> Q m' \<and> get m' = get m"
    and known: "\<And>tag m s. fld tag m s = Unusual \<Longrightarrow> tag \<notin> set known"
    and put: "\<And>u m. get (put u m) = u" "\<And>u m. Q (put u m) = Q m"
    and ret: "pb_loop rt fld get put m s = AtLimit m'"
  shows "unknowns_ok rt known (get m') \<and> Q m'"
proof (rule loop_invariant [where P = "\<lambda>m. unknowns_ok rt known (get m) \<and> Q m", OF _ _ start ret])
  fix tag m s m' k
  assume "unknowns_ok rt known (get m) \<and> Q m" "fld tag m s = Continue m' k"
  then show "unknowns_ok rt known (get m') \<and> Q m'" using arm by metis
next
  fix tag m s p
  assume "unknowns_ok rt known (get m) \<and> Q m" "fld tag m s = Unusual" "rt_field_ok rt (tag, p)"
  then show "unknowns_ok rt known (get (put (get m @ [(tag, p)]) m)) \<and> Q (put (get m @ [(tag, p)]) m)"
    using known by (auto simp: put unknowns_ok_def)
qed

lemma loop_unknowns_ok:
  assumes "unknowns_ok rt known u" and "\<And>t m s. t \<notin> set known \<Longrightarrow> fld t m s = Unusual"
    and "\<And>m u. get (put u m) = u" and "\<And>m u u'. put u (put u' m) = put u m"
    and "\<And>m. put (get m) m = m"
  shows "pb_loop rt fld get put m ((if u \<noteq> [] then rt_SerializeUnknownFields rt u else []) @ r) =
    pb_loop rt fld get put (put (get m @ u) m) r"
proof (cases "u = []")
  case True
  then show ?thesis by (simp add: assms(5))
next
  case False
  have "\<forall>(t, p) \<in> set u. rt_field_ok rt (t, p) \<and> (\<forall>m s. fld t m s = Unusual)"
    using assms(1,2) by (auto simp: unknowns_ok_def list_all_iff)
  from loop_unknown [OF this assms(3-5)] False show ?thesis by (simp add: SerializeUnknown)
qed

lemmas write_laws = WriteInt32 WriteUInt32 WriteInt64 WriteUInt64 WriteEnum WriteBytes WriteString
  WriteMessage SerializeUnknown
lemmas size_laws = Int32Size UInt32Size Int64Size UInt64Size EnumSize BytesSize StringSize
  MessageSize UnknownSize

end

end
