(* ===== verification/PbLeaf.thy ===== *)
theory PbLeaf
  imports PbWire
begin

text \<open>
  The eight leaf messages of \<open>proto/msg.pb.cc\<close>: the payloads of the \<open>data\<close> oneof of
  \<open>ProtoReq\<close>. For every message: its fields with the unknown fields of its metadata (\<open>M\<close>), the
  constructor (\<open>M_default\<close>), \<open>Clear\<close>, the arms of the parse \<open>switch\<close> (\<open>M_field\<close>),
  \<open>_InternalParse\<close>, \<open>_InternalSerialize\<close>, \<open>ByteSizeLong\<close>, \<open>MergeImpl\<close> and \<open>CopyFrom\<close>, in the order
  of the generated code. \<open>M_wf\<close> is what the parser guarantees of a message it returns.
  The lemmas in the context \<open>pb_runtime\<close> show that the announced size is the number of bytes
  written and that parsing what was written gives the message back.
\<close>

section \<open>FriendCtrl\<close>

record FriendCtrl =
  FriendCtrl_type :: int32
  FriendCtrl_content :: string
  FriendCtrl_unknown :: unknown_fields

definition FriendCtrl_default :: FriendCtrl where
  "FriendCtrl_default = \<lparr>FriendCtrl_type = 0, FriendCtrl_content = [], FriendCtrl_unknown = []\<rparr>"

definition FriendCtrl_Clear :: "FriendCtrl \<Rightarrow> FriendCtrl" where
  "FriendCtrl_Clear m = m\<lparr>FriendCtrl_type := 0, FriendCtrl_content := [], FriendCtrl_unknown := []\<rparr>"

definition FriendCtrl_field :: "pb_rt \<Rightarrow> uint32 \<Rightarrow> FriendCtrl \<Rightarrow> string \<Rightarrow> FriendCtrl fres" where
  "FriendCtrl_field rt tag m s =
     (if drop_bit 3 tag = 1 then
        expect tag 8 (read_field (rt_ReadVarint32 rt s) (\<lambda>v. m\<lparr>FriendCtrl_type := v\<rparr>))
      else if drop_bit 3 tag = 2 then
        expect tag 18 (read_field (rt_ReadDelimited rt s) (\<lambda>v. m\<lparr>FriendCtrl_content := v\<rparr>))
      else Unusual)"

definition FriendCtrl_InternalParse :: "pb_rt \<Rightarrow> FriendCtrl \<Rightarrow> string \<Rightarrow> FriendCtrl pres" where
  "FriendCtrl_InternalParse rt = pb_loop rt (FriendCtrl_field rt) FriendCtrl_unknown (\<lambda>u. FriendCtrl_unknown_update (\<lambda>_. u))"

definition FriendCtrl_InternalSerialize :: "pb_rt \<Rightarrow> FriendCtrl \<Rightarrow> string" where
  "FriendCtrl_InternalSerialize rt m =
     (if FriendCtrl_type m \<noteq> 0 then rt_WriteInt32ToArray rt 1 (FriendCtrl_type m) else []) @
     (if FriendCtrl_content m \<noteq> [] then rt_WriteBytesMaybeAliased rt 2 (FriendCtrl_content m) else []) @
     (if FriendCtrl_unknown m \<noteq> [] then rt_SerializeUnknownFields rt (FriendCtrl_unknown m) else [])"

definition FriendCtrl_ByteSizeLong :: "pb_rt \<Rightarrow> FriendCtrl \<Rightarrow> nat" where
  "FriendCtrl_ByteSizeLong rt m =
     (if FriendCtrl_content m \<noteq> [] then 1 + rt_BytesSize rt (FriendCtrl_content m) else 0) +
     (if FriendCtrl_type m \<noteq> 0 then rt_Int32SizePlusOne rt (FriendCtrl_type m) else 0) +
     (if FriendCtrl_unknown m \<noteq> [] then rt_UnknownFieldsSize rt (FriendCtrl_unknown m) else 0)"

definition FriendCtrl_MergeImpl :: "FriendCtrl \<Rightarrow> FriendCtrl \<Rightarrow> FriendCtrl" where
  "FriendCtrl_MergeImpl to from = \<lparr>
     FriendCtrl_type = (if FriendCtrl_type from \<noteq> 0 then FriendCtrl_type from else FriendCtrl_type to),
     FriendCtrl_content = (if FriendCtrl_content from \<noteq> [] then FriendCtrl_content from else FriendCtrl_content to),
     FriendCtrl_unknown = FriendCtrl_unknown to @ FriendCtrl_unknown from\<rparr>"

definition FriendCtrl_CopyFrom :: "FriendCtrl \<Rightarrow> FriendCtrl \<Rightarrow> FriendCtrl" where
  "FriendCtrl_CopyFrom to from = FriendCtrl_MergeImpl (FriendCtrl_Clear to) from"

definition FriendCtrl_wf :: "pb_rt \<Rightarrow> FriendCtrl \<Rightarrow> bool" where
  "FriendCtrl_wf rt m \<longleftrightarrow> unknowns_ok rt [8, 18] (FriendCtrl_unknown m)"

section \<open>FriendState\<close>

record FriendState =
  FriendState_type :: int32
  FriendState_states :: int32
  FriendState_unknown :: unknown_fields

definition FriendState_default :: FriendState where
  "FriendState_default = \<lparr>FriendState_type = 0, FriendState_states = 0, FriendState_unknown = []\<rparr>"

definition FriendState_Clear :: "FriendState \<Rightarrow> FriendState" where
  "FriendState_Clear m = m\<lparr>FriendState_type := 0, FriendState_states := 0, FriendState_unknown := []\<rparr>"

definition FriendState_field :: "pb_rt \<Rightarrow> uint32 \<Rightarrow> FriendState \<Rightarrow> string \<Rightarrow> FriendState fres" where
  "FriendState_field rt tag m s =
     (if drop_bit 3 tag = 1 then
        expect tag 8 (read_field (rt_ReadVarint32 rt s) (\<lambda>v. m\<lparr>FriendState_type := v\<rparr>))
      else if drop_bit 3 tag = 2 then
        expect tag 16 (read_field (rt_ReadVarint32 rt s) (\<lambda>v. m\<lparr>FriendState_states := v\<rparr>))
      else Unusual)"

definition FriendState_InternalParse :: "pb_rt \<Rightarrow> FriendState \<Rightarrow> string \<Rightarrow> FriendState pres" where
  "FriendState_InternalParse rt = pb_loop rt (FriendState_field rt) FriendState_unknown (\<lambda>u. FriendState_unknown_update (\<lambda>_. u))"

definition FriendState_InternalSerialize :: "pb_rt \<Rightarrow> FriendState \<Rightarrow> string" where
  "FriendState_InternalSerialize rt m =
     (if FriendState_type m \<noteq> 0 then rt_WriteInt32ToArray rt 1 (FriendState_type m) else []) @
     (if FriendState_states m \<noteq> 0 then rt_WriteInt32ToArray rt 2 (FriendState_states m) else []) @
     (if FriendState_unknown m \<noteq> [] then rt_SerializeUnknownFields rt (FriendState_unknown m) else [])"

definition FriendState_ByteSizeLong :: "pb_rt \<Rightarrow> FriendState \<Rightarrow> nat" where
  "FriendState_ByteSizeLong rt m =
     (if FriendState_type m \<noteq> 0 then rt_Int32SizePlusOne rt (FriendState_type m) else 0) +
     (if FriendState_states m \<noteq> 0 then rt_Int32SizePlusOne rt (FriendState_states m) else 0) +
     (if FriendState_unknown m \<noteq> [] then rt_UnknownFieldsSize rt (FriendState_unknown m) else 0)"

definition FriendState_MergeImpl :: "FriendState \<Rightarrow> FriendState \<Rightarrow> FriendState" where
  "FriendState_MergeImpl to from = \<lparr>
     FriendState_type = (if FriendState_type from \<noteq> 0 then FriendState_type from else FriendState_type to),
     FriendState_states = (if FriendState_states from \<noteq> 0 then FriendState_states from else FriendState_states to),
     FriendState_unknown = FriendState_unknown to @ FriendState_unknown from\<rparr>"

definition FriendState_CopyFrom :: "FriendState \<Rightarrow> FriendState \<Rightarrow> FriendState" where
  "FriendState_CopyFrom to from = FriendState_MergeImpl (FriendState_Clear to) from"

definition FriendState_wf :: "pb_rt \<Rightarrow> FriendState \<Rightarrow> bool" where
  "FriendState_wf rt m \<longleftrightarrow> unknowns_ok rt [8, 16] (FriendState_unknown m)"

section \<open>FriendMsg\<close>

record FriendMsg =
  FriendMsg_type :: int32
  FriendMsg_content :: string
  FriendMsg_unknown :: unknown_fields

definition FriendMsg_default :: FriendMsg where
  "FriendMsg_default = \<lparr>FriendMsg_type = 0, FriendMsg_content = [], FriendMsg_unknown = []\<rparr>"

definition FriendMsg_Clear :: "FriendMsg \<Rightarrow> FriendMsg" where
  "FriendMsg_Clear m = m\<lparr>FriendMsg_type := 0, FriendMsg_content := [], FriendMsg_unknown := []\<rparr>"

definition FriendMsg_field :: "pb_rt \<Rightarrow> uint32 \<Rightarrow> FriendMsg \<Rightarrow> string \<Rightarrow> FriendMsg fres" where
  "FriendMsg_field rt tag m s =
     (if drop_bit 3 tag = 1 then
        expect tag 8 (read_field (rt_ReadVarint32 rt s) (\<lambda>v. m\<lparr>FriendMsg_type := v\<rparr>))
      else if drop_bit 3 tag = 2 then
        expect tag 18 (read_field (rt_ReadDelimited rt s) (\<lambda>v. m\<lparr>FriendMsg_content := v\<rparr>))
      else Unusual)"

definition FriendMsg_InternalParse :: "pb_rt \<Rightarrow> FriendMsg \<Rightarrow> string \<Rightarrow> FriendMsg pres" where
  "FriendMsg_InternalParse rt = pb_loop rt (FriendMsg_field rt) FriendMsg_unknown (\<lambda>u. FriendMsg_unknown_update (\<lambda>_. u))"

definition FriendMsg_InternalSerialize :: "pb_rt \<Rightarrow> FriendMsg \<Rightarrow> string" where
  "FriendMsg_InternalSerialize rt m =
     (if FriendMsg_type m \<noteq> 0 then rt_WriteInt32ToArray rt 1 (FriendMsg_type m) else []) @
     (if FriendMsg_content m \<noteq> [] then rt_WriteBytesMaybeAliased rt 2 (FriendMsg_content m) else []) @
     (if FriendMsg_unknown m \<noteq> [] then rt_SerializeUnknownFields rt (FriendMsg_unknown m) else [])"

definition FriendMsg_ByteSizeLong :: "pb_rt \<Rightarrow> FriendMsg \<Rightarrow> nat" where
  "FriendMsg_ByteSizeLong rt m =
     (if FriendMsg_content m \<noteq> [] then 1 + rt_BytesSize rt (FriendMsg_content m) else 0) +
     (if FriendMsg_type m \<noteq> 0 then rt_Int32SizePlusOne rt (FriendMsg_type m) else 0) +
     (if FriendMsg_unknown m \<noteq> [] then rt_UnknownFieldsSize rt (FriendMsg_unknown m) else 0)"

definition FriendMsg_MergeImpl :: "FriendMsg \<Rightarrow> FriendMsg \<Rightarrow> FriendMsg" where
  "FriendMsg_MergeImpl to from = \<lparr>
     FriendMsg_type = (if FriendMsg_type from \<noteq> 0 then FriendMsg_type from else FriendMsg_type to),
     FriendMsg_content = (if FriendMsg_content from \<noteq> [] then FriendMsg_content from else FriendMsg_content to),
     FriendMsg_unknown = FriendMsg_unknown to @ FriendMsg_unknown from\<rparr>"

definition FriendMsg_CopyFrom :: "FriendMsg \<Rightarrow> FriendMsg \<Rightarrow> FriendMsg" where
  "FriendMsg_CopyFrom to from = FriendMsg_MergeImpl (FriendMsg_Clear to) from"

definition FriendMsg_wf :: "pb_rt \<Rightarrow> FriendMsg \<Rightarrow> bool" where
  "FriendMsg_wf rt m \<longleftrightarrow> unknowns_ok rt [8, 18] (FriendMsg_unknown m)"

section \<open>SystemNotify\<close>

record SystemNotify =
  SystemNotify_content :: string
  SystemNotify_unknown :: unknown_fields

definition SystemNotify_default :: SystemNotify where
  "SystemNotify_default = \<lparr>SystemNotify_content = [], SystemNotify_unknown = []\<rparr>"

definition SystemNotify_Clear :: "SystemNotify \<Rightarrow> SystemNotify" where
  "SystemNotify_Clear m = m\<lparr>SystemNotify_content := [], SystemNotify_unknown := []\<rparr>"

definition SystemNotify_field :: "pb_rt \<Rightarrow> uint32 \<Rightarrow> SystemNotify \<Rightarrow> string \<Rightarrow> SystemNotify fres" where
  "SystemNotify_field rt tag m s =
     (if drop_bit 3 tag = 3 then
        expect tag 26 (read_field (rt_ReadDelimited rt s) (\<lambda>v. m\<lparr>SystemNotify_content := v\<rparr>))
      else Unusual)"

definition SystemNotify_InternalParse :: "pb_rt \<Rightarrow> SystemNotify \<Rightarrow> string \<Rightarrow> SystemNotify pres" where
  "SystemNotify_InternalParse rt = pb_loop rt (SystemNotify_field rt) SystemNotify_unknown (\<lambda>u. SystemNotify_unknown_update (\<lambda>_. u))"

definition SystemNotify_InternalSerialize :: "pb_rt \<Rightarrow> SystemNotify \<Rightarrow> string" where
  "SystemNotify_InternalSerialize rt m =
     (if SystemNotify_content m \<noteq> [] then rt_WriteBytesMaybeAliased rt 3 (SystemNotify_content m) else []) @
     (if SystemNotify_unknown m \<noteq> [] then rt_SerializeUnknownFields rt (SystemNotify_unknown m) else [])"

definition SystemNotify_ByteSizeLong :: "pb_rt \<Rightarrow> SystemNotify \<Rightarrow> nat" where
  "SystemNotify_ByteSizeLong rt m =
     (if SystemNotify_content m \<noteq> [] then 1 + rt_BytesSize rt (SystemNotify_content m) else 0) +
     (if SystemNotify_unknown m \<noteq> [] then rt_UnknownFieldsSize rt (SystemNotify_unknown m) else 0)"

definition SystemNotify_MergeImpl :: "SystemNotify \<Rightarrow> SystemNotify \<Rightarrow> SystemNotify" where
  "SystemNotify_MergeImpl to from = \<lparr>
     SystemNotify_content = (if SystemNotify_content from \<noteq> [] then SystemNotify_content from else SystemNotify_content to),
     SystemNotify_unknown = SystemNotify_unknown to @ SystemNotify_unknown from\<rparr>"

definition SystemNotify_CopyFrom :: "SystemNotify \<Rightarrow> SystemNotify \<Rightarrow> SystemNotify" where
  "SystemNotify_CopyFrom to from = SystemNotify_MergeImpl (SystemNotify_Clear to) from"

definition SystemNotify_wf :: "pb_rt \<Rightarrow> SystemNotify \<Rightarrow> bool" where
  "SystemNotify_wf rt m \<longleftrightarrow> unknowns_ok rt [26] (SystemNotify_unknown m)"

section \<open>GroupCtrl\<close>

record GroupCtrl =
  GroupCtrl_type :: int32
  GroupCtrl_content :: string
  GroupCtrl_unknown :: unknown_fields

definition GroupCtrl_default :: GroupCtrl where
  "GroupCtrl_default = \<lparr>GroupCtrl_type = 0, GroupCtrl_content = [], GroupCtrl_unknown = []\<rparr>"

definition GroupCtrl_Clear :: "GroupCtrl \<Rightarrow> GroupCtrl" where
  "GroupCtrl_Clear m = m\<lparr>GroupCtrl_type := 0, GroupCtrl_content := [], GroupCtrl_unknown := []\<rparr>"

definition GroupCtrl_field :: "pb_rt \<Rightarrow> uint32 \<Rightarrow> GroupCtrl \<Rightarrow> string \<Rightarrow> GroupCtrl fres" where
  "GroupCtrl_field rt tag m s =
     (if drop_bit 3 tag = 2 then
        expect tag 16 (read_field (rt_ReadVarint32 rt s) (\<lambda>v. m\<lparr>GroupCtrl_type := v\<rparr>))
      else if drop_bit 3 tag = 3 then
        expect tag 26 (read_field (rt_ReadDelimited rt s) (\<lambda>v. m\<lparr>GroupCtrl_content := v\<rparr>))
      else Unusual)"

definition GroupCtrl_InternalParse :: "pb_rt \<Rightarrow> GroupCtrl \<Rightarrow> string \<Rightarrow> GroupCtrl pres" where
  "GroupCtrl_InternalParse rt = pb_loop rt (GroupCtrl_field rt) GroupCtrl_unknown (\<lambda>u. GroupCtrl_unknown_update (\<lambda>_. u))"

definition GroupCtrl_InternalSerialize :: "pb_rt \<Rightarrow> GroupCtrl \<Rightarrow> string" where
  "GroupCtrl_InternalSerialize rt m =
     (if GroupCtrl_type m \<noteq> 0 then rt_WriteInt32ToArray rt 2 (GroupCtrl_type m) else []) @
     (if GroupCtrl_content m \<noteq> [] then rt_WriteBytesMaybeAliased rt 3 (GroupCtrl_content m) else []) @
     (if GroupCtrl_unknown m \<noteq> [] then rt_SerializeUnknownFields rt (GroupCtrl_unknown m) else [])"

definition GroupCtrl_ByteSizeLong :: "pb_rt \<Rightarrow> GroupCtrl \<Rightarrow> nat" where
  "GroupCtrl_ByteSizeLong rt m =
     (if GroupCtrl_content m \<noteq> [] then 1 + rt_BytesSize rt (GroupCtrl_content m) else 0) +
     (if GroupCtrl_type m \<noteq> 0 then rt_Int32SizePlusOne rt (GroupCtrl_type m) else 0) +
     (if GroupCtrl_unknown m \<noteq> [] then rt_UnknownFieldsSize rt (GroupCtrl_unknown m) else 0)"

definition GroupCtrl_MergeImpl :: "GroupCtrl \<Rightarrow> GroupCtrl \<Rightarrow> GroupCtrl" where
  "GroupCtrl_MergeImpl to from = \<lparr>
     GroupCtrl_type = (if GroupCtrl_type from \<noteq> 0 then GroupCtrl_type from else GroupCtrl_type to),
     GroupCtrl_content = (if GroupCtrl_content from \<noteq> [] then GroupCtrl_content from else GroupCtrl_content to),
     GroupCtrl_unknown = GroupCtrl_unknown to @ GroupCtrl_unknown from\<rparr>"

definition GroupCtrl_CopyFrom :: "GroupCtrl \<Rightarrow> GroupCtrl \<Rightarrow> GroupCtrl" where
  "GroupCtrl_CopyFrom to from = GroupCtrl_MergeImpl (GroupCtrl_Clear to) from"

definition GroupCtrl_wf :: "pb_rt \<Rightarrow> GroupCtrl \<Rightarrow> bool" where
  "GroupCtrl_wf rt m \<longleftrightarrow> unknowns_ok rt [16, 26] (GroupCtrl_unknown m)"

section \<open>GroupMsg\<close>

record GroupMsg =
  GroupMsg_type :: int32
  GroupMsg_content :: string
  GroupMsg_unknown :: unknown_fields

definition GroupMsg_default :: GroupMsg where
  "GroupMsg_default = \<lparr>GroupMsg_type = 0, GroupMsg_content = [], GroupMsg_unknown = []\<rparr>"

definition GroupMsg_Clear :: "GroupMsg \<Rightarrow> GroupMsg" where
  "GroupMsg_Clear m = m\<lparr>GroupMsg_type := 0, GroupMsg_content := [], GroupMsg_unknown := []\<rparr>"

definition GroupMsg_field :: "pb_rt \<Rightarrow> uint32 \<Rightarrow> GroupMsg \<Rightarrow> string \<Rightarrow> GroupMsg fres" where
  "GroupMsg_field rt tag m s =
     (if drop_bit 3 tag = 2 then
        expect tag 16 (read_field (rt_ReadVarint32 rt s) (\<lambda>v. m\<lparr>GroupMsg_type := v\<rparr>))
      else if drop_bit 3 tag = 3 then
        expect tag 26 (read_field (rt_ReadDelimited rt s) (\<lambda>v. m\<lparr>GroupMsg_content := v\<rparr>))
      else Unusual)"

definition GroupMsg_InternalParse :: "pb_rt \<Rightarrow> GroupMsg \<Rightarrow> string \<Rightarrow> GroupMsg pres" where
  "GroupMsg_InternalParse rt = pb_loop rt (GroupMsg_field rt) GroupMsg_unknown (\<lambda>u. GroupMsg_unknown_update (\<lambda>_. u))"

definition GroupMsg_InternalSerialize :: "pb_rt \<Rightarrow> GroupMsg \<Rightarrow> string" where
  "GroupMsg_InternalSerialize rt m =
     (if GroupMsg_type m \<noteq> 0 then rt_WriteInt32ToArray rt 2 (GroupMsg_type m) else []) @
     (if GroupMsg_content m \<noteq> [] then rt_WriteBytesMaybeAliased rt 3 (GroupMsg_content m) else []) @
     (if GroupMsg_unknown m \<noteq> [] then rt_SerializeUnknownFields rt (GroupMsg_unknown m) else [])"

definition GroupMsg_ByteSizeLong :: "pb_rt \<Rightarrow> GroupMsg \<Rightarrow> nat" where
  "GroupMsg_ByteSizeLong rt m =
     (if GroupMsg_content m \<noteq> [] then 1 + rt_BytesSize rt (GroupMsg_content m) else 0) +
     (if GroupMsg_type m \<noteq> 0 then rt_Int32SizePlusOne rt (GroupMsg_type m) else 0) +
     (if GroupMsg_unknown m \<noteq> [] then rt_UnknownFieldsSize rt (GroupMsg_unknown m) else 0)"

definition GroupMsg_MergeImpl :: "GroupMsg \<Rightarrow> GroupMsg \<Rightarrow> GroupMsg" where
  "GroupMsg_MergeImpl to from = \<lparr>
     GroupMsg_type = (if GroupMsg_type from \<noteq> 0 then GroupMsg_type from else GroupMsg_type to),
     GroupMsg_content = (if GroupMsg_content from \<noteq> [] then GroupMsg_content from else GroupMsg_content to),
     GroupMsg_unknown = GroupMsg_unknown to @ GroupMsg_unknown from\<rparr>"

definition GroupMsg_CopyFrom :: "GroupMsg \<Rightarrow> GroupMsg \<Rightarrow> GroupMsg" where
  "GroupMsg_CopyFrom to from = GroupMsg_MergeImpl (GroupMsg_Clear to) from"

definition GroupMsg_wf :: "pb_rt \<Rightarrow> GroupMsg \<Rightarrow> bool" where
  "GroupMsg_wf rt m \<longleftrightarrow> unknowns_ok rt [16, 26] (GroupMsg_unknown m)"

section \<open>Pull\<close>

record Pull =
  Pull_local_seq :: uint64
  Pull_sync_time :: int64
  Pull_type :: int32
  Pull_limit :: uint32
  Pull_unknown :: unknown_fields

definition Pull_default :: Pull where
  "Pull_default = \<lparr>Pull_local_seq = 0, Pull_sync_time = 0, Pull_type = 0, Pull_limit = 0, Pull_unknown = []\<rparr>"

definition Pull_Clear :: "Pull \<Rightarrow> Pull" where
  "Pull_Clear m = m\<lparr>Pull_local_seq := 0, Pull_sync_time := 0, Pull_type := 0, Pull_limit := 0, Pull_unknown := []\<rparr>"

definition Pull_field :: "pb_rt \<Rightarrow> uint32 \<Rightarrow> Pull \<Rightarrow> string \<Rightarrow> Pull fres" where
  "Pull_field rt tag m s =
     (if drop_bit 3 tag = 1 then
        expect tag 8 (read_field (rt_ReadVarint64 rt s) (\<lambda>v. m\<lparr>Pull_local_seq := v\<rparr>))
      else if drop_bit 3 tag = 2 then
        expect tag 16 (read_field (rt_ReadVarint64 rt s) (\<lambda>v. m\<lparr>Pull_sync_time := v\<rparr>))
      else if drop_bit 3 tag = 3 then
        expect tag 24 (read_field (rt_ReadVarint32 rt s) (\<lambda>v. m\<lparr>Pull_type := v\<rparr>))
      else if drop_bit 3 tag = 4 then
        expect tag 32 (read_field (rt_ReadVarint32 rt s) (\<lambda>v. m\<lparr>Pull_limit := v\<rparr>))
      else Unusual)"

definition Pull_InternalParse :: "pb_rt \<Rightarrow> Pull \<Rightarrow> string \<Rightarrow> Pull pres" where
  "Pull_InternalParse rt = pb_loop rt (Pull_field rt) Pull_unknown (\<lambda>u. Pull_unknown_update (\<lambda>_. u))"

definition Pull_InternalSerialize :: "pb_rt \<Rightarrow> Pull \<Rightarrow> string" where
  "Pull_InternalSerialize rt m =
     (if Pull_local_seq m \<noteq> 0 then rt_WriteUInt64ToArray rt 1 (Pull_local_seq m) else []) @
     (if Pull_sync_time m \<noteq> 0 then rt_WriteInt64ToArray rt 2 (Pull_sync_time m) else []) @
     (if Pull_type m \<noteq> 0 then rt_WriteInt32ToArray rt 3 (Pull_type m) else []) @
     (if Pull_limit m \<noteq> 0 then rt_WriteUInt32ToArray rt 4 (Pull_limit m) else []) @
     (if Pull_unknown m \<noteq> [] then rt_SerializeUnknownFields rt (Pull_unknown m) else [])"

definition Pull_ByteSizeLong :: "pb_rt \<Rightarrow> Pull \<Rightarrow> nat" where
  "Pull_ByteSizeLong rt m =
     (if Pull_local_seq m \<noteq> 0 then rt_UInt64SizePlusOne rt (Pull_local_seq m) else 0) +
     (if Pull_sync_time m \<noteq> 0 then rt_Int64SizePlusOne rt (Pull_sync_time m) else 0) +
     (if Pull_type m \<noteq> 0 then rt_Int32SizePlusOne rt (Pull_type m) else 0) +
     (if Pull_limit m \<noteq> 0 then rt_UInt32SizePlusOne rt (Pull_limit m) else 0) +
     (if Pull_unknown m \<noteq> [] then rt_UnknownFieldsSize rt (Pull_unknown m) else 0)"

definition Pull_MergeImpl :: "Pull \<Rightarrow> Pull \<Rightarrow> Pull" where
  "Pull_MergeImpl to from = \<lparr>
     Pull_local_seq = (if Pull_local_seq from \<noteq> 0 then Pull_local_seq from else Pull_local_seq to),
     Pull_sync_time = (if Pull_sync_time from \<noteq> 0 then Pull_sync_time from else Pull_sync_time to),
     Pull_type = (if Pull_type from \<noteq> 0 then Pull_type from else Pull_type to),
     Pull_limit = (if Pull_limit from \<noteq> 0 then Pull_limit from else Pull_limit to),
     Pull_unknown = Pull_unknown to @ Pull_unknown from\<rparr>"

definition Pull_CopyFrom :: "Pull \<Rightarrow> Pull \<Rightarrow> Pull" where
  "Pull_CopyFrom to from = Pull_MergeImpl (Pull_Clear to) from"

definition Pull_wf :: "pb_rt \<Rightarrow> Pull \<Rightarrow> bool" where
  "Pull_wf rt m \<longleftrightarrow> unknowns_ok rt [8, 16, 24, 32] (Pull_unknown m)"

section \<open>Log\<close>

record Log =
  Log_type :: int32
  Log_token :: string
  Log_content :: string
  Log_unknown :: unknown_fields

definition Log_default :: Log where
  "Log_default = \<lparr>Log_type = 0, Log_token = [], Log_content = [], Log_unknown = []\<rparr>"

definition Log_Clear :: "Log \<Rightarrow> Log" where
  "Log_Clear m = m\<lparr>Log_type := 0, Log_token := [], Log_content := [], Log_unknown := []\<rparr>"

definition Log_field :: "pb_rt \<Rightarrow> uint32 \<Rightarrow> Log \<Rightarrow> string \<Rightarrow> Log fres" where
  "Log_field rt tag m s =
     (if drop_bit 3 tag = 1 then
        expect tag 8 (read_field (rt_ReadVarint32 rt s) (\<lambda>v. m\<lparr>Log_type := v\<rparr>))
      else if drop_bit 3 tag = 2 then
        expect tag 18 (read_utf8 rt (rt_ReadDelimited rt s) (\<lambda>v. m\<lparr>Log_token := v\<rparr>))
      else if drop_bit 3 tag = 3 then
        expect tag 26 (read_field (rt_ReadDelimited rt s) (\<lambda>v. m\<lparr>Log_content := v\<rparr>))
      else Unusual)"

definition Log_InternalParse :: "pb_rt \<Rightarrow> Log \<Rightarrow> string \<Rightarrow> Log pres" where
  "Log_InternalParse rt = pb_loop rt (Log_field rt) Log_unknown (\<lambda>u. Log_unknown_update (\<lambda>_. u))"

definition Log_InternalSerialize :: "pb_rt \<Rightarrow> Log \<Rightarrow> string" where
  "Log_InternalSerialize rt m =
     (if Log_type m \<noteq> 0 then rt_WriteInt32ToArray rt 1 (Log_type m) else []) @
     (if Log_token m \<noteq> [] then rt_WriteStringMaybeAliased rt 2 (Log_token m) else []) @
     (if Log_content m \<noteq> [] then rt_WriteBytesMaybeAliased rt 3 (Log_content m) else []) @
     (if Log_unknown m \<noteq> [] then rt_SerializeUnknownFields rt (Log_unknown m) else [])"

definition Log_ByteSizeLong :: "pb_rt \<Rightarrow> Log \<Rightarrow> nat" where
  "Log_ByteSizeLong rt m =
     (if Log_token m \<noteq> [] then 1 + rt_StringSize rt (Log_token m) else 0) +
     (if Log_content m \<noteq> [] then 1 + rt_BytesSize rt (Log_content m) else 0) +
     (if Log_type m \<noteq> 0 then rt_Int32SizePlusOne rt (Log_type m) else 0) +
     (if Log_unknown m \<noteq> [] then rt_UnknownFieldsSize rt (Log_unknown m) else 0)"

definition Log_MergeImpl :: "Log \<Rightarrow> Log \<Rightarrow> Log" where
  "Log_MergeImpl to from = \<lparr>
     Log_type = (if Log_type from \<noteq> 0 then Log_type from else Log_type to),
     Log_token = (if Log_token from \<noteq> [] then Log_token from else Log_token to),
     Log_content = (if Log_content from \<noteq> [] then Log_content from else Log_content to),
     Log_unknown = Log_unknown to @ Log_unknown from\<rparr>"

definition Log_CopyFrom :: "Log \<Rightarrow> Log \<Rightarrow> Log" where
  "Log_CopyFrom to from = Log_MergeImpl (Log_Clear to) from"

definition Log_wf :: "pb_rt \<Rightarrow> Log \<Rightarrow> bool" where
  "Log_wf rt m \<longleftrightarrow> unknowns_ok rt [8, 18, 26] (Log_unknown m) \<and> rt_VerifyUTF8 rt (Log_token m)"

section \<open>FriendCtrl: what is written is read back\<close>

lemma FriendCtrl_field_unusual: "t \<notin> set [8, 18] \<Longrightarrow> FriendCtrl_field rt t m s = Unusual"
  by (auto simp: FriendCtrl_field_def expect_def
      dest: tag_match [where t = t and f = 1 and b = 8 and g = 8, simplified]
      dest: tag_match [where t = t and f = 2 and b = 18 and g = 18, simplified])

lemma FriendCtrl_CopyFrom_eq: "FriendCtrl_CopyFrom to from = from"
  by (simp add: FriendCtrl_CopyFrom_def FriendCtrl_MergeImpl_def FriendCtrl_Clear_def)

lemma FriendCtrl_parse_Nil [simp]: "FriendCtrl_InternalParse rt m [] = AtLimit m"
  by (simp add: FriendCtrl_InternalParse_def)

lemma FriendCtrl_MergeImpl_default [simp]: "FriendCtrl_MergeImpl FriendCtrl_default from = from"
  by (simp add: FriendCtrl_MergeImpl_def FriendCtrl_default_def)

context pb_runtime
begin

lemma FriendCtrl_parse_type [pb_field]:
   "FriendCtrl_InternalParse rt m ((if v \<noteq> 0 then rt_WriteInt32ToArray rt 1 v else []) @ r) =
    FriendCtrl_InternalParse rt (m\<lparr>FriendCtrl_type := if v \<noteq> 0 then v else FriendCtrl_type m\<rparr>) r"
  unfolding FriendCtrl_InternalParse_def
  by (rule opt_int32 [where st = "\<lambda>v. FriendCtrl_type_update (\<lambda>_. v)"]) (simp_all add: FriendCtrl_field_def expect_def)

lemma FriendCtrl_parse_content [pb_field]: "length v < pb_max \<Longrightarrow>
    FriendCtrl_InternalParse rt m ((if v \<noteq> [] then rt_WriteBytesMaybeAliased rt 2 v else []) @ r) =
    FriendCtrl_InternalParse rt (m\<lparr>FriendCtrl_content := if v \<noteq> [] then v else FriendCtrl_content m\<rparr>) r"
  unfolding FriendCtrl_InternalParse_def
  by (rule opt_bytes [where st = "\<lambda>v. FriendCtrl_content_update (\<lambda>_. v)"]) (simp_all add: FriendCtrl_field_def expect_def)

lemma FriendCtrl_parse_unknown [pb_field]: "unknowns_ok rt [8, 18] u \<Longrightarrow>
    FriendCtrl_InternalParse rt m ((if u \<noteq> [] then rt_SerializeUnknownFields rt u else []) @ r) =
    FriendCtrl_InternalParse rt (m\<lparr>FriendCtrl_unknown := FriendCtrl_unknown m @ u\<rparr>) r"
  unfolding FriendCtrl_InternalParse_def
  using loop_unknowns_ok [where known = "[8, 18]" and fld = "FriendCtrl_field rt" and get = FriendCtrl_unknown and
      put = "\<lambda>u. FriendCtrl_unknown_update (\<lambda>_. u)" and u = u and m = m and r = r]
  by (simp add: FriendCtrl_field_unusual)

lemma FriendCtrl_size [pb_size]: "length (FriendCtrl_InternalSerialize rt m) = FriendCtrl_ByteSizeLong rt m"
  by (simp add: FriendCtrl_InternalSerialize_def FriendCtrl_ByteSizeLong_def write_laws size_laws length_varint_small)

lemma FriendCtrl_parse_merge:
  assumes "FriendCtrl_wf rt m" and "FriendCtrl_ByteSizeLong rt m < pb_max"
  shows "FriendCtrl_InternalParse rt x (FriendCtrl_InternalSerialize rt m @ r) = FriendCtrl_InternalParse rt (FriendCtrl_MergeImpl x m) r"
proof -
  have "length (FriendCtrl_content m) < pb_max"
    using assms(2) by (cases "FriendCtrl_content m = []") (auto simp: FriendCtrl_ByteSizeLong_def size_laws pb_max_def)
  then show ?thesis using assms(1)
    by (cases x) (simp add: FriendCtrl_InternalSerialize_def FriendCtrl_MergeImpl_def FriendCtrl_wf_def pb_field)
qed

lemma FriendCtrl_roundtrip:
  "FriendCtrl_wf rt m \<Longrightarrow> FriendCtrl_ByteSizeLong rt m < pb_max \<Longrightarrow>
   FriendCtrl_InternalParse rt FriendCtrl_default (FriendCtrl_InternalSerialize rt m) = AtLimit m"
  using FriendCtrl_parse_merge [of m FriendCtrl_default "[]"] by simp

end

section \<open>FriendState: what is written is read back\<close>

lemma FriendState_field_unusual: "t \<notin> set [8, 16] \<Longrightarrow> FriendState_field rt t m s = Unusual"
  by (auto simp: FriendState_field_def expect_def
      dest: tag_match [where t = t and f = 1 and b = 8 and g = 8, simplified]
      dest: tag_match [where t = t and f = 2 and b = 16 and g = 16, simplified])

lemma FriendState_CopyFrom_eq: "FriendState_CopyFrom to from = from"
  by (simp add: FriendState_CopyFrom_def FriendState_MergeImpl_def FriendState_Clear_def)

lemma FriendState_parse_Nil [simp]: "FriendState_InternalParse rt m [] = AtLimit m"
  by (simp add: FriendState_InternalParse_def)

lemma FriendState_MergeImpl_default [simp]: "FriendState_MergeImpl FriendState_default from = from"
  by (simp add: FriendState_MergeImpl_def FriendState_default_def)

context pb_runtime
begin

lemma FriendState_parse_type [pb_field]:
   "FriendState_InternalParse rt m ((if v \<noteq> 0 then rt_WriteInt32ToArray rt 1 v else []) @ r) =
    FriendState_InternalParse rt (m\<lparr>FriendState_type := if v \<noteq> 0 then v else FriendState_type m\<rparr>) r"
  unfolding FriendState_InternalParse_def
  by (rule opt_int32 [where st = "\<lambda>v. FriendState_type_update (\<lambda>_. v)"]) (simp_all add: FriendState_field_def expect_def)

lemma FriendState_parse_states [pb_field]:
   "FriendState_InternalParse rt m ((if v \<noteq> 0 then rt_WriteInt32ToArray rt 2 v else []) @ r) =
    FriendState_InternalParse rt (m\<lparr>FriendState_states := if v \<noteq> 0 then v else FriendState_states m\<rparr>) r"
  unfolding FriendState_InternalParse_def
  by (rule opt_int32 [where st = "\<lambda>v. FriendState_states_update (\<lambda>_. v)"]) (simp_all add: FriendState_field_def expect_def)

lemma FriendState_parse_unknown [pb_field]: "unknowns_ok rt [8, 16] u \<Longrightarrow>
    FriendState_InternalParse rt m ((if u \<noteq> [] then rt_SerializeUnknownFields rt u else []) @ r) =
    FriendState_InternalParse rt (m\<lparr>FriendState_unknown := FriendState_unknown m @ u\<rparr>) r"
  unfolding FriendState_InternalParse_def
  using loop_unknowns_ok [where known = "[8, 16]" and fld = "FriendState_field rt" and get = FriendState_unknown and
      put = "\<lambda>u. FriendState_unknown_update (\<lambda>_. u)" and u = u and m = m and r = r]
  by (simp add: FriendState_field_unusual)

lemma FriendState_size [pb_size]: "length (FriendState_InternalSerialize rt m) = FriendState_ByteSizeLong rt m"
  by (simp add: FriendState_InternalSerialize_def FriendState_ByteSizeLong_def write_laws size_laws length_varint_small)

lemma FriendState_parse_merge:
  assumes "FriendState_wf rt m" and "FriendState_ByteSizeLong rt m < pb_max"
  shows "FriendState_InternalParse rt x (FriendState_InternalSerialize rt m @ r) = FriendState_InternalParse rt (FriendState_MergeImpl x m) r"
proof -
  show ?thesis using assms(1)
    by (cases x) (simp add: FriendState_InternalSerialize_def FriendState_MergeImpl_def FriendState_wf_def pb_field)
qed

lemma FriendState_roundtrip:
  "FriendState_wf rt m \<Longrightarrow> FriendState_ByteSizeLong rt m < pb_max \<Longrightarrow>
   FriendState_InternalParse rt FriendState_default (FriendState_InternalSerialize rt m) = AtLimit m"
  using FriendState_parse_merge [of m FriendState_default "[]"] by simp

end

section \<open>FriendMsg: what is written is read back\<close>

lemma FriendMsg_field_unusual: "t \<notin> set [8, 18] \<Longrightarrow> FriendMsg_field rt t m s = Unusual"
  by (auto simp: FriendMsg_field_def expect_def
      dest: tag_match [where t = t and f = 1 and b = 8 and g = 8, simplified]
      dest: tag_match [where t = t and f = 2 and b = 18 and g = 18, simplified])

lemma FriendMsg_CopyFrom_eq: "FriendMsg_CopyFrom to from = from"
  by (simp add: FriendMsg_CopyFrom_def FriendMsg_MergeImpl_def FriendMsg_Clear_def)

lemma FriendMsg_parse_Nil [simp]: "FriendMsg_InternalParse rt m [] = AtLimit m"
  by (simp add: FriendMsg_InternalParse_def)

lemma FriendMsg_MergeImpl_default [simp]: "FriendMsg_MergeImpl FriendMsg_default from = from"
  by (simp add: FriendMsg_MergeImpl_def FriendMsg_default_def)

context pb_runtime
begin

lemma FriendMsg_parse_type [pb_field]:
   "FriendMsg_InternalParse rt m ((if v \<noteq> 0 then rt_WriteInt32ToArray rt 1 v else []) @ r) =
    FriendMsg_InternalParse rt (m\<lparr>FriendMsg_type := if v \<noteq> 0 then v else FriendMsg_type m\<rparr>) r"
  unfolding FriendMsg_InternalParse_def
  by (rule opt_int32 [where st = "\<lambda>v. FriendMsg_type_update (\<lambda>_. v)"]) (simp_all add: FriendMsg_field_def expect_def)

lemma FriendMsg_parse_content [pb_field]: "length v < pb_max \<Longrightarrow>
    FriendMsg_InternalParse rt m ((if v \<noteq> [] then rt_WriteBytesMaybeAliased rt 2 v else []) @ r) =
    FriendMsg_InternalParse rt (m\<lparr>FriendMsg_content := if v \<noteq> [] then v else FriendMsg_content m\<rparr>) r"
  unfolding FriendMsg_InternalParse_def
  by (rule opt_bytes [where st = "\<lambda>v. FriendMsg_content_update (\<lambda>_. v)"]) (simp_all add: FriendMsg_field_def expect_def)

lemma FriendMsg_parse_unknown [pb_field]: "unknowns_ok rt [8, 18] u \<Longrightarrow>
    FriendMsg_InternalParse rt m ((if u \<noteq> [] then rt_SerializeUnknownFields rt u else []) @ r) =
    FriendMsg_InternalParse rt (m\<lparr>FriendMsg_unknown := FriendMsg_unknown m @ u\<rparr>) r"
  unfolding FriendMsg_InternalParse_def
  using loop_unknowns_ok [where known = "[8, 18]" and fld = "FriendMsg_field rt" and get = FriendMsg_unknown and
      put = "\<lambda>u. FriendMsg_unknown_update (\<lambda>_. u)" and u = u and m = m and r = r]
  by (simp add: FriendMsg_field_unusual)

lemma FriendMsg_size [pb_size]: "length (FriendMsg_InternalSerialize rt m) = FriendMsg_ByteSizeLong rt m"
  by (simp add: FriendMsg_InternalSerialize_def FriendMsg_ByteSizeLong_def write_laws size_laws length_varint_small)

lemma FriendMsg_parse_merge:
  assumes "FriendMsg_wf rt m" and "FriendMsg_ByteSizeLong rt m < pb_max"
  shows "FriendMsg_InternalParse rt x (FriendMsg_InternalSerialize rt m @ r) = FriendMsg_InternalParse rt (FriendMsg_MergeImpl x m) r"
proof -
  have "length (FriendMsg_content m) < pb_max"
    using assms(2) by (cases "FriendMsg_content m = []") (auto simp: FriendMsg_ByteSizeLong_def size_laws pb_max_def)
  then show ?thesis using assms(1)
    by (cases x) (simp add: FriendMsg_InternalSerialize_def FriendMsg_MergeImpl_def FriendMsg_wf_def pb_field)
qed

lemma FriendMsg_roundtrip:
  "FriendMsg_wf rt m \<Longrightarrow> FriendMsg_ByteSizeLong rt m < pb_max \<Longrightarrow>
   FriendMsg_InternalParse rt FriendMsg_default (FriendMsg_InternalSerialize rt m) = AtLimit m"
  using FriendMsg_parse_merge [of m FriendMsg_default "[]"] by simp

end

section \<open>SystemNotify: what is written is read back\<close>

lemma SystemNotify_field_unusual: "t \<notin> set [26] \<Longrightarrow> SystemNotify_field rt t m s = Unusual"
  by (auto simp: SystemNotify_field_def expect_def
      dest: tag_match [where t = t and f = 3 and b = 26 and g = 26, simplified])

lemma SystemNotify_CopyFrom_eq: "SystemNotify_CopyFrom to from = from"
  by (simp add: SystemNotify_CopyFrom_def SystemNotify_MergeImpl_def SystemNotify_Clear_def)

lemma SystemNotify_parse_Nil [simp]: "SystemNotify_InternalParse rt m [] = AtLimit m"
  by (simp add: SystemNotify_InternalParse_def)

lemma SystemNotify_MergeImpl_default [simp]: "SystemNotify_MergeImpl SystemNotify_default from = from"
  by (simp add: SystemNotify_MergeImpl_def SystemNotify_default_def)

context pb_runtime
begin

lemma SystemNotify_parse_content [pb_field]: "length v < pb_max \<Longrightarrow>
    SystemNotify_InternalParse rt m ((if v \<noteq> [] then rt_WriteBytesMaybeAliased rt 3 v else []) @ r) =
    SystemNotify_InternalParse rt (m\<lparr>SystemNotify_content := if v \<noteq> [] then v else SystemNotify_content m\<rparr>) r"
  unfolding SystemNotify_InternalParse_def
  by (rule opt_bytes [where st = "\<lambda>v. SystemNotify_content_update (\<lambda>_. v)"]) (simp_all add: SystemNotify_field_def expect_def)

lemma SystemNotify_parse_unknown [pb_field]: "unknowns_ok rt [26] u \<Longrightarrow>
    SystemNotify_InternalParse rt m ((if u \<noteq> [] then rt_SerializeUnknownFields rt u else []) @ r) =
    SystemNotify_InternalParse rt (m\<lparr>SystemNotify_unknown := SystemNotify_unknown m @ u\<rparr>) r"
  unfolding SystemNotify_InternalParse_def
  using loop_unknowns_ok [where known = "[26]" and fld = "SystemNotify_field rt" and get = SystemNotify_unknown and
      put = "\<lambda>u. SystemNotify_unknown_update (\<lambda>_. u)" and u = u and m = m and r = r]
  by (simp add: SystemNotify_field_unusual)

lemma SystemNotify_size [pb_size]: "length (SystemNotify_InternalSerialize rt m) = SystemNotify_ByteSizeLong rt m"
  by (simp add: SystemNotify_InternalSerialize_def SystemNotify_ByteSizeLong_def write_laws size_laws length_varint_small)

lemma SystemNotify_parse_merge:
  assumes "SystemNotify_wf rt m" and "SystemNotify_ByteSizeLong rt m < pb_max"
  shows "SystemNotify_InternalParse rt x (SystemNotify_InternalSerialize rt m @ r) = SystemNotify_InternalParse rt (SystemNotify_MergeImpl x m) r"
proof -
  have "length (SystemNotify_content m) < pb_max"
    using assms(2) by (cases "SystemNotify_content m = []") (auto simp: SystemNotify_ByteSizeLong_def size_laws pb_max_def)
  then show ?thesis using assms(1)
    by (cases x) (simp add: SystemNotify_InternalSerialize_def SystemNotify_MergeImpl_def SystemNotify_wf_def pb_field)
qed

lemma SystemNotify_roundtrip:
  "SystemNotify_wf rt m \<Longrightarrow> SystemNotify_ByteSizeLong rt m < pb_max \<Longrightarrow>
   SystemNotify_InternalParse rt SystemNotify_default (SystemNotify_InternalSerialize rt m) = AtLimit m"
  using SystemNotify_parse_merge [of m SystemNotify_default "[]"] by simp

end

section \<open>GroupCtrl: what is written is read back\<close>

lemma GroupCtrl_field_unusual: "t \<notin> set [16, 26] \<Longrightarrow> GroupCtrl_field rt t m s = Unusual"
  by (auto simp: GroupCtrl_field_def expect_def
      dest: tag_match [where t = t and f = 2 and b = 16 and g = 16, simplified]
      dest: tag_match [where t = t and f = 3 and b = 26 and g = 26, simplified])

lemma GroupCtrl_CopyFrom_eq: "GroupCtrl_CopyFrom to from = from"
  by (simp add: GroupCtrl_CopyFrom_def GroupCtrl_MergeImpl_def GroupCtrl_Clear_def)

lemma GroupCtrl_parse_Nil [simp]: "GroupCtrl_InternalParse rt m [] = AtLimit m"
  by (simp add: GroupCtrl_InternalParse_def)

lemma GroupCtrl_MergeImpl_default [simp]: "GroupCtrl_MergeImpl GroupCtrl_default from = from"
  by (simp add: GroupCtrl_MergeImpl_def GroupCtrl_default_def)

context pb_runtime
begin

lemma GroupCtrl_parse_type [pb_field]:
   "GroupCtrl_InternalParse rt m ((if v \<noteq> 0 then rt_WriteInt32ToArray rt 2 v else []) @ r) =
    GroupCtrl_InternalParse rt (m\<lparr>GroupCtrl_type := if v \<noteq> 0 then v else GroupCtrl_type m\<rparr>) r"
  unfolding GroupCtrl_InternalParse_def
  by (rule opt_int32 [where st = "\<lambda>v. GroupCtrl_type_update (\<lambda>_. v)"]) (simp_all add: GroupCtrl_field_def expect_def)

lemma GroupCtrl_parse_content [pb_field]: "length v < pb_max \<Longrightarrow>
    GroupCtrl_InternalParse rt m ((if v \<noteq> [] then rt_WriteBytesMaybeAliased rt 3 v else []) @ r) =
    GroupCtrl_InternalParse rt (m\<lparr>GroupCtrl_content := if v \<noteq> [] then v else GroupCtrl_content m\<rparr>) r"
  unfolding GroupCtrl_InternalParse_def
  by (rule opt_bytes [where st = "\<lambda>v. GroupCtrl_content_update (\<lambda>_. v)"]) (simp_all add: GroupCtrl_field_def expect_def)

lemma GroupCtrl_parse_unknown [pb_field]: "unknowns_ok rt [16, 26] u \<Longrightarrow>
    GroupCtrl_InternalParse rt m ((if u \<noteq> [] then rt_SerializeUnknownFields rt u else []) @ r) =
    GroupCtrl_InternalParse rt (m\<lparr>GroupCtrl_unknown := GroupCtrl_unknown m @ u\<rparr>) r"
  unfolding GroupCtrl_InternalParse_def
  using loop_unknowns_ok [where known = "[16, 26]" and fld = "GroupCtrl_field rt" and get = GroupCtrl_unknown and
      put = "\<lambda>u. GroupCtrl_unknown_update (\<lambda>_. u)" and u = u and m = m and r = r]
  by (simp add: GroupCtrl_field_unusual)

lemma GroupCtrl_size [pb_size]: "length (GroupCtrl_InternalSerialize rt m) = GroupCtrl_ByteSizeLong rt m"
  by (simp add: GroupCtrl_InternalSerialize_def GroupCtrl_ByteSizeLong_def write_laws size_laws length_varint_small)

lemma GroupCtrl_parse_merge:
  assumes "GroupCtrl_wf rt m" and "GroupCtrl_ByteSizeLong rt m < pb_max"
  shows "GroupCtrl_InternalParse rt x (GroupCtrl_InternalSerialize rt m @ r) = GroupCtrl_InternalParse rt (GroupCtrl_MergeImpl x m) r"
proof -
  have "length (GroupCtrl_content m) < pb_max"
    using assms(2) by (cases "GroupCtrl_content m = []") (auto simp: GroupCtrl_ByteSizeLong_def size_laws pb_max_def)
  then show ?thesis using assms(1)
    by (cases x) (simp add: GroupCtrl_InternalSerialize_def GroupCtrl_MergeImpl_def GroupCtrl_wf_def pb_field)
qed

lemma GroupCtrl_roundtrip:
  "GroupCtrl_wf rt m \<Longrightarrow> GroupCtrl_ByteSizeLong rt m < pb_max \<Longrightarrow>
   GroupCtrl_InternalParse rt GroupCtrl_default (GroupCtrl_InternalSerialize rt m) = AtLimit m"
  using GroupCtrl_parse_merge [of m GroupCtrl_default "[]"] by simp

end

section \<open>GroupMsg: what is written is read back\<close>

lemma GroupMsg_field_unusual: "t \<notin> set [16, 26] \<Longrightarrow> GroupMsg_field rt t m s = Unusual"
  by (auto simp: GroupMsg_field_def expect_def
      dest: tag_match [where t = t and f = 2 and b = 16 and g = 16, simplified]
      dest: tag_match [where t = t and f = 3 and b = 26 and g = 26, simplified])

lemma GroupMsg_CopyFrom_eq: "GroupMsg_CopyFrom to from = from"
  by (simp add: GroupMsg_CopyFrom_def GroupMsg_MergeImpl_def GroupMsg_Clear_def)

lemma GroupMsg_parse_Nil [simp]: "GroupMsg_InternalParse rt m [] = AtLimit m"
  by (simp add: GroupMsg_InternalParse_def)

lemma GroupMsg_MergeImpl_default [simp]: "GroupMsg_MergeImpl GroupMsg_default from = from"
  by (simp add: GroupMsg_MergeImpl_def GroupMsg_default_def)

context pb_runtime
begin

lemma GroupMsg_parse_type [pb_field]:
   "GroupMsg_InternalParse rt m ((if v \<noteq> 0 then rt_WriteInt32ToArray rt 2 v else []) @ r) =
    GroupMsg_InternalParse rt (m\<lparr>GroupMsg_type := if v \<noteq> 0 then v else GroupMsg_type m\<rparr>) r"
  unfolding GroupMsg_InternalParse_def
  by (rule opt_int32 [where st = "\<lambda>v. GroupMsg_type_update (\<lambda>_. v)"]) (simp_all add: GroupMsg_field_def expect_def)

lemma GroupMsg_parse_content [pb_field]: "length v < pb_max \<Longrightarrow>
    GroupMsg_InternalParse rt m ((if v \<noteq> [] then rt_WriteBytesMaybeAliased rt 3 v else []) @ r) =
    GroupMsg_InternalParse rt (m\<lparr>GroupMsg_content := if v \<noteq> [] then v else GroupMsg_content m\<rparr>) r"
  unfolding GroupMsg_InternalParse_def
  by (rule opt_bytes [where st = "\<lambda>v. GroupMsg_content_update (\<lambda>_. v)"]) (simp_all add: GroupMsg_field_def expect_def)

lemma GroupMsg_parse_unknown [pb_field]: "unknowns_ok rt [16, 26] u \<Longrightarrow>
    GroupMsg_InternalParse rt m ((if u \<noteq> [] then rt_SerializeUnknownFields rt u else []) @ r) =
    GroupMsg_InternalParse rt (m\<lparr>GroupMsg_unknown := GroupMsg_unknown m @ u\<rparr>) r"
  unfolding GroupMsg_InternalParse_def
  using loop_unknowns_ok [where known = "[16, 26]" and fld = "GroupMsg_field rt" and get = GroupMsg_unknown and
      put = "\<lambda>u. GroupMsg_unknown_update (\<lambda>_. u)" and u = u and m = m and r = r]
  by (simp add: GroupMsg_field_unusual)

lemma GroupMsg_size [pb_size]: "length (GroupMsg_InternalSerialize rt m) = GroupMsg_ByteSizeLong rt m"
  by (simp add: GroupMsg_InternalSerialize_def GroupMsg_ByteSizeLong_def write_laws size_laws length_varint_small)

lemma GroupMsg_parse_merge:
  assumes "GroupMsg_wf rt m" and "GroupMsg_ByteSizeLong rt m < pb_max"
  shows "GroupMsg_InternalParse rt x (GroupMsg_InternalSerialize rt m @ r) = GroupMsg_InternalParse rt (GroupMsg_MergeImpl x m) r"
proof -
  have "length (GroupMsg_content m) < pb_max"
    using assms(2) by (cases "GroupMsg_content m = []") (auto simp: GroupMsg_ByteSizeLong_def size_laws pb_max_def)
  then show ?thesis using assms(1)
    by (cases x) (simp add: GroupMsg_InternalSerialize_def GroupMsg_MergeImpl_def GroupMsg_wf_def pb_field)
qed

lemma GroupMsg_roundtrip:
  "GroupMsg_wf rt m \<Longrightarrow> GroupMsg_ByteSizeLong rt m < pb_max \<Longrightarrow>
   GroupMsg_InternalParse rt GroupMsg_default (GroupMsg_InternalSerialize rt m) = AtLimit m"
  using GroupMsg_parse_merge [of m GroupMsg_default "[]"] by simp

end

section \<open>Pull: what is written is read back\<close>

lemma Pull_field_unusual: "t \<notin> set [8, 16, 24, 32] \<Longrightarrow> Pull_field rt t m s = Unusual"
  by (auto simp: Pull_field_def expect_def
      dest: tag_match [where t = t and f = 1 and b = 8 and g = 8, simplified]
      dest: tag_match [where t = t and f = 2 and b = 16 and g = 16, simplified]
      dest: tag_match [where t = t and f = 3 and b = 24 and g = 24, simplified]
      dest: tag_match [where t = t and f = 4 and b = 32 and g = 32, simplified])

lemma Pull_CopyFrom_eq: "Pull_CopyFrom to from = from"
  by (simp add: Pull_CopyFrom_def Pull_MergeImpl_def Pull_Clear_def)

lemma Pull_parse_Nil [simp]: "Pull_InternalParse rt m [] = AtLimit m"
  by (simp add: Pull_InternalParse_def)

lemma Pull_MergeImpl_default [simp]: "Pull_MergeImpl Pull_default from = from"
  by (simp add: Pull_MergeImpl_def Pull_default_def)

context pb_runtime
begin

lemma Pull_parse_local_seq [pb_field]:
   "Pull_InternalParse rt m ((if v \<noteq> 0 then rt_WriteUInt64ToArray rt 1 v else []) @ r) =
    Pull_InternalParse rt (m\<lparr>Pull_local_seq := if v \<noteq> 0 then v else Pull_local_seq m\<rparr>) r"
  unfolding Pull_InternalParse_def
  by (rule opt_uint64 [where st = "\<lambda>v. Pull_local_seq_update (\<lambda>_. v)"]) (simp_all add: Pull_field_def expect_def)

lemma Pull_parse_sync_time [pb_field]:
   "Pull_InternalParse rt m ((if v \<noteq> 0 then rt_WriteInt64ToArray rt 2 v else []) @ r) =
    Pull_InternalParse rt (m\<lparr>Pull_sync_time := if v \<noteq> 0 then v else Pull_sync_time m\<rparr>) r"
  unfolding Pull_InternalParse_def
  by (rule opt_int64 [where st = "\<lambda>v. Pull_sync_time_update (\<lambda>_. v)"]) (simp_all add: Pull_field_def expect_def)

lemma Pull_parse_type [pb_field]:
   "Pull_InternalParse rt m ((if v \<noteq> 0 then rt_WriteInt32ToArray rt 3 v else []) @ r) =
    Pull_InternalParse rt (m\<lparr>Pull_type := if v \<noteq> 0 then v else Pull_type m\<rparr>) r"
  unfolding Pull_InternalParse_def
  by (rule opt_int32 [where st = "\<lambda>v. Pull_type_update (\<lambda>_. v)"]) (simp_all add: Pull_field_def expect_def)

lemma Pull_parse_limit [pb_field]:
   "Pull_InternalParse rt m ((if v \<noteq> 0 then rt_WriteUInt32ToArray rt 4 v else []) @ r) =
    Pull_InternalParse rt (m\<lparr>Pull_limit := if v \<noteq> 0 then v else Pull_limit m\<rparr>) r"
  unfolding Pull_InternalParse_def
  by (rule opt_uint32 [where st = "\<lambda>v. Pull_limit_update (\<lambda>_. v)"]) (simp_all add: Pull_field_def expect_def)

lemma Pull_parse_unknown [pb_field]: "unknowns_ok rt [8, 16, 24, 32] u \<Longrightarrow>
    Pull_InternalParse rt m ((if u \<noteq> [] then rt_SerializeUnknownFields rt u else []) @ r) =
    Pull_InternalParse rt (m\<lparr>Pull_unknown := Pull_unknown m @ u\<rparr>) r"
  unfolding Pull_InternalParse_def
  using loop_unknowns_ok [where known = "[8, 16, 24, 32]" and fld = "Pull_field rt" and get = Pull_unknown and
      put = "\<lambda>u. Pull_unknown_update (\<lambda>_. u)" and u = u and m = m and r = r]
  by (simp add: Pull_field_unusual)

lemma Pull_size [pb_size]: "length (Pull_InternalSerialize rt m) = Pull_ByteSizeLong rt m"
  by (simp add: Pull_InternalSerialize_def Pull_ByteSizeLong_def write_laws size_laws length_varint_small)

lemma Pull_parse_merge:
  assumes "Pull_wf rt m" and "Pull_ByteSizeLong rt m < pb_max"
  shows "Pull_InternalParse rt x (Pull_InternalSerialize rt m @ r) = Pull_InternalParse rt (Pull_MergeImpl x m) r"
proof -
  show ?thesis using assms(1)
    by (cases x) (simp add: Pull_InternalSerialize_def Pull_MergeImpl_def Pull_wf_def pb_field)
qed

lemma Pull_roundtrip:
  "Pull_wf rt m \<Longrightarrow> Pull_ByteSizeLong rt m < pb_max \<Longrightarrow>
   Pull_InternalParse rt Pull_default (Pull_InternalSerialize rt m) = AtLimit m"
  using Pull_parse_merge [of m Pull_default "[]"] by simp

end

section \<open>Log: what is written is read back\<close>

lemma Log_field_unusual: "t \<notin> set [8, 18, 26] \<Longrightarrow> Log_field rt t m s = Unusual"
  by (auto simp: Log_field_def expect_def
      dest: tag_match [where t = t and f = 1 and b = 8 and g = 8, simplified]
      dest: tag_match [where t = t and f = 2 and b = 18 and g = 18, simplified]
      dest: tag_match [where t = t and f = 3 and b = 26 and g = 26, simplified])

lemma Log_CopyFrom_eq: "Log_CopyFrom to from = from"
  by (simp add: Log_CopyFrom_def Log_MergeImpl_def Log_Clear_def)

lemma Log_parse_Nil [simp]: "Log_InternalParse rt m [] = AtLimit m"
  by (simp add: Log_InternalParse_def)

lemma Log_MergeImpl_default [simp]: "Log_MergeImpl Log_default from = from"
  by (simp add: Log_MergeImpl_def Log_default_def)

context pb_runtime
begin

lemma Log_parse_type [pb_field]:
   "Log_InternalParse rt m ((if v \<noteq> 0 then rt_WriteInt32ToArray rt 1 v else []) @ r) =
    Log_InternalParse rt (m\<lparr>Log_type := if v \<noteq> 0 then v else Log_type m\<rparr>) r"
  unfolding Log_InternalParse_def
  by (rule opt_int32 [where st = "\<lambda>v. Log_type_update (\<lambda>_. v)"]) (simp_all add: Log_field_def expect_def)

lemma Log_parse_token [pb_field]: "length v < pb_max \<Longrightarrow> rt_VerifyUTF8 rt v \<Longrightarrow>
    Log_InternalParse rt m ((if v \<noteq> [] then rt_WriteStringMaybeAliased rt 2 v else []) @ r) =
    Log_InternalParse rt (m\<lparr>Log_token := if v \<noteq> [] then v else Log_token m\<rparr>) r"
  unfolding Log_InternalParse_def
  by (rule opt_string [where st = "\<lambda>v. Log_token_update (\<lambda>_. v)"]) (simp_all add: Log_field_def expect_def)

lemma Log_parse_content [pb_field]: "length v < pb_max \<Longrightarrow>
    Log_InternalParse rt m ((if v \<noteq> [] then rt_WriteBytesMaybeAliased rt 3 v else []) @ r) =
    Log_InternalParse rt (m\<lparr>Log_content := if v \<noteq> [] then v else Log_content m\<rparr>) r"
  unfolding Log_InternalParse_def
  by (rule opt_bytes [where st = "\<lambda>v. Log_content_update (\<lambda>_. v)"]) (simp_all add: Log_field_def expect_def)

lemma Log_parse_unknown [pb_field]: "unknowns_ok rt [8, 18, 26] u \<Longrightarrow>
    Log_InternalParse rt m ((if u \<noteq> [] then rt_SerializeUnknownFields rt u else []) @ r) =
    Log_InternalParse rt (m\<lparr>Log_unknown := Log_unknown m @ u\<rparr>) r"
  unfolding Log_InternalParse_def
  using loop_unknowns_ok [where known = "[8, 18, 26]" and fld = "Log_field rt" and get = Log_unknown and
      put = "\<lambda>u. Log_unknown_update (\<lambda>_. u)" and u = u and m = m and r = r]
  by (simp add: Log_field_unusual)

lemma Log_size [pb_size]: "length (Log_InternalSerialize rt m) = Log_ByteSizeLong rt m"
  by (simp add: Log_InternalSerialize_def Log_ByteSizeLong_def write_laws size_laws length_varint_small)

lemma Log_parse_merge:
  assumes "Log_wf rt m" and "Log_ByteSizeLong rt m < pb_max"
  shows "Log_InternalParse rt x (Log_InternalSerialize rt m @ r) = Log_InternalParse rt (Log_MergeImpl x m) r"
proof -
  have "length (Log_token m) < pb_max"
    using assms(2) by (cases "Log_token m = []") (auto simp: Log_ByteSizeLong_def size_laws pb_max_def)
  moreover
  have "length (Log_content m) < pb_max"
    using assms(2) by (cases "Log_content m = []") (auto simp: Log_ByteSizeLong_def size_laws pb_max_def)
  ultimately show ?thesis using assms(1)
    by (cases x) (simp add: Log_InternalSerialize_def Log_MergeImpl_def Log_wf_def pb_field)
qed

lemma Log_roundtrip:
  "Log_wf rt m \<Longrightarrow> Log_ByteSizeLong rt m < pb_max \<Longrightarrow>
   Log_InternalParse rt Log_default (Log_InternalSerialize rt m) = AtLimit m"
  using Log_parse_merge [of m Log_default "[]"] by simp

end

section \<open>What the parser returns is well-formed\<close>

lemma FriendCtrl_field_arm: "FriendCtrl_field rt tag m s = Continue m' k \<Longrightarrow> FriendCtrl_unknown m' = FriendCtrl_unknown m"
  by (auto simp: FriendCtrl_field_def split: if_splits)

lemma FriendCtrl_field_known: "FriendCtrl_field rt tag m s = Unusual \<Longrightarrow> tag \<notin> set [8, 18]"
  by (auto simp: FriendCtrl_field_def)

lemma FriendState_field_arm: "FriendState_field rt tag m s = Continue m' k \<Longrightarrow> FriendState_unknown m' = FriendState_unknown m"
  by (auto simp: FriendState_field_def split: if_splits)

lemma FriendState_field_known: "FriendState_field rt tag m s = Unusual \<Longrightarrow> tag \<notin> set [8, 16]"
  by (auto simp: FriendState_field_def)

lemma FriendMsg_field_arm: "FriendMsg_field rt tag m s = Continue m' k \<Longrightarrow> FriendMsg_unknown m' = FriendMsg_unknown m"
  by (auto simp: FriendMsg_field_def split: if_splits)

lemma FriendMsg_field_known: "FriendMsg_field rt tag m s = Unusual \<Longrightarrow> tag \<notin> set [8, 18]"
  by (auto simp: FriendMsg_field_def)

lemma SystemNotify_field_arm: "SystemNotify_field rt tag m s = Continue m' k \<Longrightarrow> SystemNotify_unknown m' = SystemNotify_unknown m"
  by (auto simp: SystemNotify_field_def split: if_splits)

lemma SystemNotify_field_known: "SystemNotify_field rt tag m s = Unusual \<Longrightarrow> tag \<notin> set [26]"
  by (auto simp: SystemNotify_field_def)

lemma GroupCtrl_field_arm: "GroupCtrl_field rt tag m s = Continue m' k \<Longrightarrow> GroupCtrl_unknown m' = GroupCtrl_unknown m"
  by (auto simp: GroupCtrl_field_def split: if_splits)

lemma GroupCtrl_field_known: "GroupCtrl_field rt tag m s = Unusual \<Longrightarrow> tag \<notin> set [16, 26]"
  by (auto simp: GroupCtrl_field_def)

lemma GroupMsg_field_arm: "GroupMsg_field rt tag m s = Continue m' k \<Longrightarrow> GroupMsg_unknown m' = GroupMsg_unknown m"
  by (auto simp: GroupMsg_field_def split: if_splits)

lemma GroupMsg_field_known: "GroupMsg_field rt tag m s = Unusual \<Longrightarrow> tag \<notin> set [16, 26]"
  by (auto simp: GroupMsg_field_def)

lemma Pull_field_arm: "Pull_field rt tag m s = Continue m' k \<Longrightarrow> Pull_unknown m' = Pull_unknown m"
  by (auto simp: Pull_field_def split: if_splits)

lemma Pull_field_known: "Pull_field rt tag m s = Unusual \<Longrightarrow> tag \<notin> set [8, 16, 24, 32]"
  by (auto simp: Pull_field_def)

lemma Log_field_arm: "Log_field rt tag m s = Continue m' k \<Longrightarrow> Log_unknown m' = Log_unknown m \<and> (rt_VerifyUTF8 rt (Log_token m) \<longrightarrow> rt_VerifyUTF8 rt (Log_token m'))"
  by (auto simp: Log_field_def split: if_splits)

lemma Log_field_known: "Log_field rt tag m s = Unusual \<Longrightarrow> tag \<notin> set [8, 18, 26]"
  by (auto simp: Log_field_def)

context pb_runtime
begin

lemma FriendCtrl_parse_wf:
  assumes "FriendCtrl_wf rt m" and "FriendCtrl_InternalParse rt m s = AtLimit m'"
  shows "FriendCtrl_wf rt m'"
  using loop_wf [where Q = "\<lambda>m. True" and known = "[8, 18]" and m = m, OF _ _ _ _ _ assms(2) [unfolded FriendCtrl_InternalParse_def]]
    assms(1) FriendCtrl_field_arm FriendCtrl_field_known
  by (auto simp: FriendCtrl_wf_def)

lemma FriendCtrl_default_wf [simp]: "FriendCtrl_wf rt FriendCtrl_default"
  by (simp add: FriendCtrl_wf_def FriendCtrl_default_def)

lemma FriendState_parse_wf:
  assumes "FriendState_wf rt m" and "FriendState_InternalParse rt m s = AtLimit m'"
  shows "FriendState_wf rt m'"
  using loop_wf [where Q = "\<lambda>m. True" and known = "[8, 16]" and m = m, OF _ _ _ _ _ assms(2) [unfolded FriendState_InternalParse_def]]
    assms(1) FriendState_field_arm FriendState_field_known
  by (auto simp: FriendState_wf_def)

lemma FriendState_default_wf [simp]: "FriendState_wf rt FriendState_default"
  by (simp add: FriendState_wf_def FriendState_default_def)

lemma FriendMsg_parse_wf:
  assumes "FriendMsg_wf rt m" and "FriendMsg_InternalParse rt m s = AtLimit m'"
  shows "FriendMsg_wf rt m'"
  using loop_wf [where Q = "\<lambda>m. True" and known = "[8, 18]" and m = m, OF _ _ _ _ _ assms(2) [unfolded FriendMsg_InternalParse_def]]
    assms(1) FriendMsg_field_arm FriendMsg_field_known
  by (auto simp: FriendMsg_wf_def)

lemma FriendMsg_default_wf [simp]: "FriendMsg_wf rt FriendMsg_default"
  by (simp add: FriendMsg_wf_def FriendMsg_default_def)

lemma SystemNotify_parse_wf:
  assumes "SystemNotify_wf rt m" and "SystemNotify_InternalParse rt m s = AtLimit m'"
  shows "SystemNotify_wf rt m'"
  using loop_wf [where Q = "\<lambda>m. True" and known = "[26]" and m = m, OF _ _ _ _ _ assms(2) [unfolded SystemNotify_InternalParse_def]]
    assms(1) SystemNotify_field_arm SystemNotify_field_known
  by (auto simp: SystemNotify_wf_def)

lemma SystemNotify_default_wf [simp]: "SystemNotify_wf rt SystemNotify_default"
  by (simp add: SystemNotify_wf_def SystemNotify_default_def)

lemma GroupCtrl_parse_wf:
  assumes "GroupCtrl_wf rt m" and "GroupCtrl_InternalParse rt m s = AtLimit m'"
  shows "GroupCtrl_wf rt m'"
  using loop_wf [where Q = "\<lambda>m. True" and known = "[16, 26]" and m = m, OF _ _ _ _ _ assms(2) [unfolded GroupCtrl_InternalParse_def]]
    assms(1) GroupCtrl_field_arm GroupCtrl_field_known
  by (auto simp: GroupCtrl_wf_def)

lemma GroupCtrl_default_wf [simp]: "GroupCtrl_wf rt GroupCtrl_default"
  by (simp add: GroupCtrl_wf_def GroupCtrl_default_def)

lemma GroupMsg_parse_wf:
  assumes "GroupMsg_wf rt m" and "GroupMsg_InternalParse rt m s = AtLimit m'"
  shows "GroupMsg_wf rt m'"
  using loop_wf [where Q = "\<lambda>m. True" and known = "[16, 26]" and m = m, OF _ _ _ _ _ assms(2) [unfolded GroupMsg_InternalParse_def]]
    assms(1) GroupMsg_field_arm GroupMsg_field_known
  by (auto simp: GroupMsg_wf_def)

lemma GroupMsg_default_wf [simp]: "GroupMsg_wf rt GroupMsg_default"
  by (simp add: GroupMsg_wf_def GroupMsg_default_def)

lemma Pull_parse_wf:
  assumes "Pull_wf rt m" and "Pull_InternalParse rt m s = AtLimit m'"
  shows "Pull_wf rt m'"
  using loop_wf [where Q = "\<lambda>m. True" and known = "[8, 16, 24, 32]" and m = m, OF _ _ _ _ _ assms(2) [unfolded Pull_InternalParse_def]]
    assms(1) Pull_field_arm Pull_field_known
  by (auto simp: Pull_wf_def)

lemma Pull_default_wf [simp]: "Pull_wf rt Pull_default"
  by (simp add: Pull_wf_def Pull_default_def)

lemma Log_parse_wf:
  assumes "Log_wf rt m" and "Log_InternalParse rt m s = AtLimit m'"
  shows "Log_wf rt m'"
  using loop_wf [where Q = "\<lambda>m. rt_VerifyUTF8 rt (Log_token m)" and known = "[8, 18, 26]" and m = m, OF _ _ _ _ _ assms(2) [unfolded Log_InternalParse_def]]
    assms(1) Log_field_arm Log_field_known
  by (auto simp: Log_wf_def)

lemma Log_default_wf [simp]: "Log_wf rt Log_default"
  by (simp add: Log_wf_def Log_default_def VerifyUTF8 ascii_def)

end

end
