(* ===== verification/PbReq.thy ===== *)
theory PbReq
  imports PbLeaf
begin

text \<open>
  The messages that travel between the servers: the client request \<open>ProtoReq\<close> with its \<open>data\<close>
  oneof, the answer \<open>ProtoResp\<close> with its two oneofs, \<open>MqMessage\<close> (what the logic server writes to
  Kafka) and \<open>PushReq\<close> (what the transfer server pushes), from \<open>proto/msg.pb.cc\<close> and the inline
  accessors of \<open>proto/msg.pb.h\<close>. The layout of each section is that of \<open>PbLeaf\<close>.
\<close>

section \<open>Enumerators of \<open>msg.proto\<close>\<close>

abbreviation (input) TypeEmpty :: int32 where "TypeEmpty \<equiv> 0"
abbreviation (input) TypeFriendCtrl :: int32 where "TypeFriendCtrl \<equiv> 1"
abbreviation (input) TypeFriendState :: int32 where "TypeFriendState \<equiv> 2"
abbreviation (input) TypeFriendMsg :: int32 where "TypeFriendMsg \<equiv> 3"
abbreviation (input) TypeSystemNotify :: int32 where "TypeSystemNotify \<equiv> 4"
abbreviation (input) TypeGroupCtrl :: int32 where "TypeGroupCtrl \<equiv> 5"
abbreviation (input) TypeGroupMsg :: int32 where "TypeGroupMsg \<equiv> 6"
abbreviation (input) TypePull :: int32 where "TypePull \<equiv> 7"
abbreviation (input) TypeLog :: int32 where "TypeLog \<equiv> 8"

abbreviation (input) FRIEND_REQ :: int32 where "FRIEND_REQ \<equiv> 0"
abbreviation (input) FRIEND_DEL :: int32 where "FRIEND_DEL \<equiv> 1"
abbreviation (input) FRIEND_AUTH_OK :: int32 where "FRIEND_AUTH_OK \<equiv> 2"
abbreviation (input) INPUTING :: int32 where "INPUTING \<equiv> 0"
abbreviation (input) PULL_OFFLINE :: int32 where "PULL_OFFLINE \<equiv> 0"
abbreviation (input) LOGIN :: int32 where "LOGIN \<equiv> 0"
abbreviation (input) LOGOUT :: int32 where "LOGOUT \<equiv> 1"
abbreviation (input) KICKOUT :: int32 where "KICKOUT \<equiv> 2"

section \<open>ProtoReq\<close>

datatype ProtoReq_oneof =
    DATA_NOT_SET
  | kFctrl FriendCtrl
  | kFstate FriendState
  | kFmsg FriendMsg
  | kNotify SystemNotify
  | kGctrl GroupCtrl
  | kGmsg GroupMsg
  | kPull Pull
  | kLog Log

record ProtoReq =
  ProtoReq_type :: int32
  ProtoReq_version :: uint32
  ProtoReq_from_uid :: uint64
  ProtoReq_to_id :: uint64
  ProtoReq_data :: ProtoReq_oneof
  ProtoReq_unknown :: unknown_fields

definition ProtoReq_default :: ProtoReq where
  "ProtoReq_default = \<lparr>ProtoReq_type = 0, ProtoReq_version = 0, ProtoReq_from_uid = 0, ProtoReq_to_id = 0,
     ProtoReq_data = DATA_NOT_SET, ProtoReq_unknown = []\<rparr>"

text \<open>
  The getter of a oneof member returns the member, or the default instance; \<open>mutable\<close> starts from
  the same value, after dropping another member.
\<close>

definition ProtoReq_fctrl :: "ProtoReq \<Rightarrow> FriendCtrl" where
  "ProtoReq_fctrl m = (case ProtoReq_data m of kFctrl x \<Rightarrow> x | _ \<Rightarrow> FriendCtrl_default)"

definition ProtoReq_fstate :: "ProtoReq \<Rightarrow> FriendState" where
  "ProtoReq_fstate m = (case ProtoReq_data m of kFstate x \<Rightarrow> x | _ \<Rightarrow> FriendState_default)"

definition ProtoReq_fmsg :: "ProtoReq \<Rightarrow> FriendMsg" where
  "ProtoReq_fmsg m = (case ProtoReq_data m of kFmsg x \<Rightarrow> x | _ \<Rightarrow> FriendMsg_default)"

definition ProtoReq_notify :: "ProtoReq \<Rightarrow> SystemNotify" where
  "ProtoReq_notify m = (case ProtoReq_data m of kNotify x \<Rightarrow> x | _ \<Rightarrow> SystemNotify_default)"

definition ProtoReq_gctrl :: "ProtoReq \<Rightarrow> GroupCtrl" where
  "ProtoReq_gctrl m = (case ProtoReq_data m of kGctrl x \<Rightarrow> x | _ \<Rightarrow> GroupCtrl_default)"

definition ProtoReq_gmsg :: "ProtoReq \<Rightarrow> GroupMsg" where
  "ProtoReq_gmsg m = (case ProtoReq_data m of kGmsg x \<Rightarrow> x | _ \<Rightarrow> GroupMsg_default)"

definition ProtoReq_pull :: "ProtoReq \<Rightarrow> Pull" where
  "ProtoReq_pull m = (case ProtoReq_data m of kPull x \<Rightarrow> x | _ \<Rightarrow> Pull_default)"

definition ProtoReq_log :: "ProtoReq \<Rightarrow> Log" where
  "ProtoReq_log m = (case ProtoReq_data m of kLog x \<Rightarrow> x | _ \<Rightarrow> Log_default)"

definition ProtoReq_clear_data :: "ProtoReq \<Rightarrow> ProtoReq" where
  "ProtoReq_clear_data m = m\<lparr>ProtoReq_data := DATA_NOT_SET\<rparr>"

definition ProtoReq_Clear :: "ProtoReq \<Rightarrow> ProtoReq" where
  "ProtoReq_Clear m =
     (ProtoReq_clear_data (m\<lparr>ProtoReq_type := 0, ProtoReq_version := 0, ProtoReq_from_uid := 0, ProtoReq_to_id := 0\<rparr>))
       \<lparr>ProtoReq_unknown := []\<rparr>"

definition ProtoReq_field :: "pb_rt \<Rightarrow> uint32 \<Rightarrow> ProtoReq \<Rightarrow> string \<Rightarrow> ProtoReq fres" where
  "ProtoReq_field rt tag m s =
     (if drop_bit 3 tag = 1 then
        expect tag 8 (read_field (rt_ReadVarint64 rt s) (\<lambda>v. m\<lparr>ProtoReq_type := ucast v\<rparr>))
      else if drop_bit 3 tag = 2 then
        expect tag 16 (read_field (rt_ReadVarint32 rt s) (\<lambda>v. m\<lparr>ProtoReq_version := v\<rparr>))
      else if drop_bit 3 tag = 3 then
        expect tag 24 (read_field (rt_ReadVarint64 rt s) (\<lambda>v. m\<lparr>ProtoReq_from_uid := v\<rparr>))
      else if drop_bit 3 tag = 4 then
        expect tag 32 (read_field (rt_ReadVarint64 rt s) (\<lambda>v. m\<lparr>ProtoReq_to_id := v\<rparr>))
      else if drop_bit 3 tag = 11 then
        expect tag 90 (read_field (ParseMessage rt (FriendCtrl_InternalParse rt) (ProtoReq_fctrl m) s)
          (\<lambda>x. m\<lparr>ProtoReq_data := kFctrl x\<rparr>))
      else if drop_bit 3 tag = 12 then
        expect tag 98 (read_field (ParseMessage rt (FriendState_InternalParse rt) (ProtoReq_fstate m) s)
          (\<lambda>x. m\<lparr>ProtoReq_data := kFstate x\<rparr>))
      else if drop_bit 3 tag = 13 then
        expect tag 106 (read_field (ParseMessage rt (FriendMsg_InternalParse rt) (ProtoReq_fmsg m) s)
          (\<lambda>x. m\<lparr>ProtoReq_data := kFmsg x\<rparr>))
      else if drop_bit 3 tag = 14 then
        expect tag 114 (read_field (ParseMessage rt (SystemNotify_InternalParse rt) (ProtoReq_notify m) s)
          (\<lambda>x. m\<lparr>ProtoReq_data := kNotify x\<rparr>))
      else if drop_bit 3 tag = 15 then
        expect tag 122 (read_field (ParseMessage rt (GroupCtrl_InternalParse rt) (ProtoReq_gctrl m) s)
          (\<lambda>x. m\<lparr>ProtoReq_data := kGctrl x\<rparr>))
      else if drop_bit 3 tag = 16 then
        expect tag 130 (read_field (ParseMessage rt (GroupMsg_InternalParse rt) (ProtoReq_gmsg m) s)
          (\<lambda>x. m\<lparr>ProtoReq_data := kGmsg x\<rparr>))
      else if drop_bit 3 tag = 17 then
        expect tag 138 (read_field (ParseMessage rt (Pull_InternalParse rt) (ProtoReq_pull m) s)
          (\<lambda>x. m\<lparr>ProtoReq_data := kPull x\<rparr>))
      else if drop_bit 3 tag = 18 then
        expect tag 146 (read_field (ParseMessage rt (Log_InternalParse rt) (ProtoReq_log m) s)
          (\<lambda>x. m\<lparr>ProtoReq_data := kLog x\<rparr>))
      else Unusual)"

definition ProtoReq_InternalParse :: "pb_rt \<Rightarrow> ProtoReq \<Rightarrow> string \<Rightarrow> ProtoReq pres" where
  "ProtoReq_InternalParse rt = pb_loop rt (ProtoReq_field rt) ProtoReq_unknown (\<lambda>u. ProtoReq_unknown_update (\<lambda>_. u))"

definition ProtoReq_InternalSerialize :: "pb_rt \<Rightarrow> ProtoReq \<Rightarrow> string" where
  "ProtoReq_InternalSerialize rt m =
     (if ProtoReq_type m \<noteq> 0 then rt_WriteEnumToArray rt 1 (ProtoReq_type m) else []) @
     (if ProtoReq_version m \<noteq> 0 then rt_WriteUInt32ToArray rt 2 (ProtoReq_version m) else []) @
     (if ProtoReq_from_uid m \<noteq> 0 then rt_WriteUInt64ToArray rt 3 (ProtoReq_from_uid m) else []) @
     (if ProtoReq_to_id m \<noteq> 0 then rt_WriteUInt64ToArray rt 4 (ProtoReq_to_id m) else []) @
     (case ProtoReq_data m of kFctrl x \<Rightarrow> rt_InternalWriteMessage rt 11 (FriendCtrl_InternalSerialize rt x) (FriendCtrl_ByteSizeLong rt x) | _ \<Rightarrow> []) @
     (case ProtoReq_data m of kFstate x \<Rightarrow> rt_InternalWriteMessage rt 12 (FriendState_InternalSerialize rt x) (FriendState_ByteSizeLong rt x) | _ \<Rightarrow> []) @
     (case ProtoReq_data m of kFmsg x \<Rightarrow> rt_InternalWriteMessage rt 13 (FriendMsg_InternalSerialize rt x) (FriendMsg_ByteSizeLong rt x) | _ \<Rightarrow> []) @
     (case ProtoReq_data m of kNotify x \<Rightarrow> rt_InternalWriteMessage rt 14 (SystemNotify_InternalSerialize rt x) (SystemNotify_ByteSizeLong rt x) | _ \<Rightarrow> []) @
     (case ProtoReq_data m of kGctrl x \<Rightarrow> rt_InternalWriteMessage rt 15 (GroupCtrl_InternalSerialize rt x) (GroupCtrl_ByteSizeLong rt x) | _ \<Rightarrow> []) @
     (case ProtoReq_data m of kGmsg x \<Rightarrow> rt_InternalWriteMessage rt 16 (GroupMsg_InternalSerialize rt x) (GroupMsg_ByteSizeLong rt x) | _ \<Rightarrow> []) @
     (case ProtoReq_data m of kPull x \<Rightarrow> rt_InternalWriteMessage rt 17 (Pull_InternalSerialize rt x) (Pull_ByteSizeLong rt x) | _ \<Rightarrow> []) @
     (case ProtoReq_data m of kLog x \<Rightarrow> rt_InternalWriteMessage rt 18 (Log_InternalSerialize rt x) (Log_ByteSizeLong rt x) | _ \<Rightarrow> []) @
     (if ProtoReq_unknown m \<noteq> [] then rt_SerializeUnknownFields rt (ProtoReq_unknown m) else [])"

definition ProtoReq_data_size :: "pb_rt \<Rightarrow> ProtoReq_oneof \<Rightarrow> nat" where
  "ProtoReq_data_size rt d = (case d of
     kFctrl x \<Rightarrow> 1 + rt_MessageSize rt (FriendCtrl_ByteSizeLong rt x)
   | kFstate x \<Rightarrow> 1 + rt_MessageSize rt (FriendState_ByteSizeLong rt x)
   | kFmsg x \<Rightarrow> 1 + rt_MessageSize rt (FriendMsg_ByteSizeLong rt x)
   | kNotify x \<Rightarrow> 1 + rt_MessageSize rt (SystemNotify_ByteSizeLong rt x)
   | kGctrl x \<Rightarrow> 1 + rt_MessageSize rt (GroupCtrl_ByteSizeLong rt x)
   | kGmsg x \<Rightarrow> 2 + rt_MessageSize rt (GroupMsg_ByteSizeLong rt x)
   | kPull x \<Rightarrow> 2 + rt_MessageSize rt (Pull_ByteSizeLong rt x)
   | kLog x \<Rightarrow> 2 + rt_MessageSize rt (Log_ByteSizeLong rt x)
   | DATA_NOT_SET \<Rightarrow> 0)"

definition ProtoReq_ByteSizeLong :: "pb_rt \<Rightarrow> ProtoReq \<Rightarrow> nat" where
  "ProtoReq_ByteSizeLong rt m =
     (if ProtoReq_type m \<noteq> 0 then 1 + rt_EnumSize rt (ProtoReq_type m) else 0) +
     (if ProtoReq_version m \<noteq> 0 then rt_UInt32SizePlusOne rt (ProtoReq_version m) else 0) +
     (if ProtoReq_from_uid m \<noteq> 0 then rt_UInt64SizePlusOne rt (ProtoReq_from_uid m) else 0) +
     (if ProtoReq_to_id m \<noteq> 0 then rt_UInt64SizePlusOne rt (ProtoReq_to_id m) else 0) +
     ProtoReq_data_size rt (ProtoReq_data m) +
     (if ProtoReq_unknown m \<noteq> [] then rt_UnknownFieldsSize rt (ProtoReq_unknown m) else 0)"

definition ProtoReq_MergeImpl :: "ProtoReq \<Rightarrow> ProtoReq \<Rightarrow> ProtoReq" where
  "ProtoReq_MergeImpl to from = \<lparr>
     ProtoReq_type = (if ProtoReq_type from \<noteq> 0 then ProtoReq_type from else ProtoReq_type to),
     ProtoReq_version = (if ProtoReq_version from \<noteq> 0 then ProtoReq_version from else ProtoReq_version to),
     ProtoReq_from_uid = (if ProtoReq_from_uid from \<noteq> 0 then ProtoReq_from_uid from else ProtoReq_from_uid to),
     ProtoReq_to_id = (if ProtoReq_to_id from \<noteq> 0 then ProtoReq_to_id from else ProtoReq_to_id to),
     ProtoReq_data = (case ProtoReq_data from of
         kFctrl y \<Rightarrow> kFctrl (FriendCtrl_MergeImpl (ProtoReq_fctrl to) y)
       | kFstate y \<Rightarrow> kFstate (FriendState_MergeImpl (ProtoReq_fstate to) y)
       | kFmsg y \<Rightarrow> kFmsg (FriendMsg_MergeImpl (ProtoReq_fmsg to) y)
       | kNotify y \<Rightarrow> kNotify (SystemNotify_MergeImpl (ProtoReq_notify to) y)
       | kGctrl y \<Rightarrow> kGctrl (GroupCtrl_MergeImpl (ProtoReq_gctrl to) y)
       | kGmsg y \<Rightarrow> kGmsg (GroupMsg_MergeImpl (ProtoReq_gmsg to) y)
       | kPull y \<Rightarrow> kPull (Pull_MergeImpl (ProtoReq_pull to) y)
       | kLog y \<Rightarrow> kLog (Log_MergeImpl (ProtoReq_log to) y)
       | DATA_NOT_SET \<Rightarrow> ProtoReq_data to),
     ProtoReq_unknown = ProtoReq_unknown to @ ProtoReq_unknown from\<rparr>"

definition ProtoReq_CopyFrom :: "ProtoReq \<Rightarrow> ProtoReq \<Rightarrow> ProtoReq" where
  "ProtoReq_CopyFrom to from = ProtoReq_MergeImpl (ProtoReq_Clear to) from"

definition ProtoReq_ParseFromArray :: "pb_rt \<Rightarrow> string \<Rightarrow> ProtoReq option" where
  "ProtoReq_ParseFromArray rt s = at_limit (ProtoReq_InternalParse rt ProtoReq_default s)"

definition ProtoReq_data_wf :: "pb_rt \<Rightarrow> ProtoReq_oneof \<Rightarrow> bool" where
  "ProtoReq_data_wf rt d = (case d of
     kFctrl x \<Rightarrow> FriendCtrl_wf rt x
   | kFstate x \<Rightarrow> FriendState_wf rt x
   | kFmsg x \<Rightarrow> FriendMsg_wf rt x
   | kNotify x \<Rightarrow> SystemNotify_wf rt x
   | kGctrl x \<Rightarrow> GroupCtrl_wf rt x
   | kGmsg x \<Rightarrow> GroupMsg_wf rt x
   | kPull x \<Rightarrow> Pull_wf rt x
   | kLog x \<Rightarrow> Log_wf rt x
   | DATA_NOT_SET \<Rightarrow> True)"

definition ProtoReq_wf :: "pb_rt \<Rightarrow> ProtoReq \<Rightarrow> bool" where
  "ProtoReq_wf rt m \<longleftrightarrow>
     unknowns_ok rt [8, 16, 24, 32, 90, 98, 106, 114, 122, 130, 138, 146] (ProtoReq_unknown m) \<and>
     ProtoReq_data_wf rt (ProtoReq_data m)"

section \<open>ProtoReq: what is written is read back\<close>

lemma ProtoReq_field_unusual: "t \<notin> set [8, 16, 24, 32, 90, 98, 106, 114, 122, 130, 138, 146] \<Longrightarrow>
    ProtoReq_field rt t m s = Unusual"
  by (auto simp: ProtoReq_field_def expect_def
      dest: tag_match [where t = t and f = 1 and b = 8 and g = 8, simplified]
      dest: tag_match [where t = t and f = 2 and b = 16 and g = 16, simplified]
      dest: tag_match [where t = t and f = 3 and b = 24 and g = 24, simplified]
      dest: tag_match [where t = t and f = 4 and b = 32 and g = 32, simplified]
      dest: tag_match [where t = t and f = 11 and b = 90 and g = 90, simplified]
      dest: tag_match [where t = t and f = 12 and b = 98 and g = 98, simplified]
      dest: tag_match [where t = t and f = 13 and b = 106 and g = 106, simplified]
      dest: tag_match [where t = t and f = 14 and b = 114 and g = 114, simplified]
      dest: tag_match [where t = t and f = 15 and b = 122 and g = 122, simplified]
      dest: tag_match [where t = t and f = 16 and b = 130 and g = 130, simplified]
      dest: tag_match [where t = t and f = 17 and b = 138 and g = 138, simplified]
      dest: tag_match [where t = t and f = 18 and b = 146 and g = 146, simplified])

lemma ProtoReq_parse_Nil [simp]: "ProtoReq_InternalParse rt m [] = AtLimit m"
  by (simp add: ProtoReq_InternalParse_def)

lemmas oneof_members = ProtoReq_fctrl_def ProtoReq_fstate_def ProtoReq_fmsg_def ProtoReq_notify_def ProtoReq_gctrl_def
  ProtoReq_gmsg_def ProtoReq_pull_def ProtoReq_log_def

lemma ProtoReq_CopyFrom_eq [simp]: "ProtoReq_CopyFrom to from = from"
  by (simp add: ProtoReq_CopyFrom_def ProtoReq_MergeImpl_def ProtoReq_Clear_def ProtoReq_clear_data_def
      ProtoReq_fctrl_def ProtoReq_fstate_def ProtoReq_fmsg_def ProtoReq_notify_def ProtoReq_gctrl_def
      ProtoReq_gmsg_def ProtoReq_pull_def ProtoReq_log_def split: ProtoReq_oneof.split)

lemma ProtoReq_MergeImpl_default [simp]: "ProtoReq_MergeImpl ProtoReq_default from = from"
  using ProtoReq_CopyFrom_eq [of ProtoReq_default "from"] unfolding ProtoReq_CopyFrom_def
  by (simp add: ProtoReq_Clear_def ProtoReq_clear_data_def ProtoReq_default_def)

context pb_runtime
begin

lemma ProtoReq_parse_type [pb_field]:
   "ProtoReq_InternalParse rt m ((if v \<noteq> 0 then rt_WriteEnumToArray rt 1 v else []) @ r) =
    ProtoReq_InternalParse rt (m\<lparr>ProtoReq_type := if v \<noteq> 0 then v else ProtoReq_type m\<rparr>) r"
  unfolding ProtoReq_InternalParse_def
  by (rule opt_enum [where st = "\<lambda>v. ProtoReq_type_update (\<lambda>_. v)"]) (simp_all add: ProtoReq_field_def expect_def)

lemma ProtoReq_parse_version [pb_field]:
   "ProtoReq_InternalParse rt m ((if v \<noteq> 0 then rt_WriteUInt32ToArray rt 2 v else []) @ r) =
    ProtoReq_InternalParse rt (m\<lparr>ProtoReq_version := if v \<noteq> 0 then v else ProtoReq_version m\<rparr>) r"
  unfolding ProtoReq_InternalParse_def
  by (rule opt_uint32 [where st = "\<lambda>v. ProtoReq_version_update (\<lambda>_. v)"]) (simp_all add: ProtoReq_field_def expect_def)

lemma ProtoReq_parse_from_uid [pb_field]:
   "ProtoReq_InternalParse rt m ((if v \<noteq> 0 then rt_WriteUInt64ToArray rt 3 v else []) @ r) =
    ProtoReq_InternalParse rt (m\<lparr>ProtoReq_from_uid := if v \<noteq> 0 then v else ProtoReq_from_uid m\<rparr>) r"
  unfolding ProtoReq_InternalParse_def
  by (rule opt_uint64 [where st = "\<lambda>v. ProtoReq_from_uid_update (\<lambda>_. v)"]) (simp_all add: ProtoReq_field_def expect_def)

lemma ProtoReq_parse_to_id [pb_field]:
   "ProtoReq_InternalParse rt m ((if v \<noteq> 0 then rt_WriteUInt64ToArray rt 4 v else []) @ r) =
    ProtoReq_InternalParse rt (m\<lparr>ProtoReq_to_id := if v \<noteq> 0 then v else ProtoReq_to_id m\<rparr>) r"
  unfolding ProtoReq_InternalParse_def
  by (rule opt_uint64 [where st = "\<lambda>v. ProtoReq_to_id_update (\<lambda>_. v)"]) (simp_all add: ProtoReq_field_def expect_def)

lemma ProtoReq_parse_fctrl [pb_field]: "FriendCtrl_wf rt x \<Longrightarrow>
    FriendCtrl_ByteSizeLong rt x < pb_max \<Longrightarrow>
    ProtoReq_InternalParse rt m (rt_InternalWriteMessage rt 11 (FriendCtrl_InternalSerialize rt x) (FriendCtrl_ByteSizeLong rt x) @ r) =
    ProtoReq_InternalParse rt (m\<lparr>ProtoReq_data := kFctrl (FriendCtrl_MergeImpl (ProtoReq_fctrl m) x)\<rparr>) r"
  unfolding ProtoReq_InternalParse_def
  by (rule set_message [where parse = "FriendCtrl_InternalParse rt" and ?x0.0 = "ProtoReq_fctrl m" and
        st = "\<lambda>x. ProtoReq_data_update (\<lambda>_. kFctrl x)"])
    (simp_all add: ProtoReq_field_def expect_def FriendCtrl_size FriendCtrl_parse_merge [of _ _ "[]", simplified])

lemma ProtoReq_parse_fstate [pb_field]: "FriendState_wf rt x \<Longrightarrow>
    FriendState_ByteSizeLong rt x < pb_max \<Longrightarrow>
    ProtoReq_InternalParse rt m (rt_InternalWriteMessage rt 12 (FriendState_InternalSerialize rt x) (FriendState_ByteSizeLong rt x) @ r) =
    ProtoReq_InternalParse rt (m\<lparr>ProtoReq_data := kFstate (FriendState_MergeImpl (ProtoReq_fstate m) x)\<rparr>) r"
  unfolding ProtoReq_InternalParse_def
  by (rule set_message [where parse = "FriendState_InternalParse rt" and ?x0.0 = "ProtoReq_fstate m" and
        st = "\<lambda>x. ProtoReq_data_update (\<lambda>_. kFstate x)"])
    (simp_all add: ProtoReq_field_def expect_def FriendState_size FriendState_parse_merge [of _ _ "[]", simplified])

lemma ProtoReq_parse_fmsg [pb_field]: "FriendMsg_wf rt x \<Longrightarrow>
    FriendMsg_ByteSizeLong rt x < pb_max \<Longrightarrow>
    ProtoReq_InternalParse rt m (rt_InternalWriteMessage rt 13 (FriendMsg_InternalSerialize rt x) (FriendMsg_ByteSizeLong rt x) @ r) =
    ProtoReq_InternalParse rt (m\<lparr>ProtoReq_data := kFmsg (FriendMsg_MergeImpl (ProtoReq_fmsg m) x)\<rparr>) r"
  unfolding ProtoReq_InternalParse_def
  by (rule set_message [where parse = "FriendMsg_InternalParse rt" and ?x0.0 = "ProtoReq_fmsg m" and
        st = "\<lambda>x. ProtoReq_data_update (\<lambda>_. kFmsg x)"])
    (simp_all add: ProtoReq_field_def expect_def FriendMsg_size FriendMsg_parse_merge [of _ _ "[]", simplified])

lemma ProtoReq_parse_notify [pb_field]: "SystemNotify_wf rt x \<Longrightarrow>
    SystemNotify_ByteSizeLong rt x < pb_max \<Longrightarrow>
    ProtoReq_InternalParse rt m (rt_InternalWriteMessage rt 14 (SystemNotify_InternalSerialize rt x) (SystemNotify_ByteSizeLong rt x) @ r) =
    ProtoReq_InternalParse rt (m\<lparr>ProtoReq_data := kNotify (SystemNotify_MergeImpl (ProtoReq_notify m) x)\<rparr>) r"
  unfolding ProtoReq_InternalParse_def
  by (rule set_message [where parse = "SystemNotify_InternalParse rt" and ?x0.0 = "ProtoReq_notify m" and
        st = "\<lambda>x. ProtoReq_data_update (\<lambda>_. kNotify x)"])
    (simp_all add: ProtoReq_field_def expect_def SystemNotify_size SystemNotify_parse_merge [of _ _ "[]", simplified])

lemma ProtoReq_parse_gctrl [pb_field]: "GroupCtrl_wf rt x \<Longrightarrow>
    GroupCtrl_ByteSizeLong rt x < pb_max \<Longrightarrow>
    ProtoReq_InternalParse rt m (rt_InternalWriteMessage rt 15 (GroupCtrl_InternalSerialize rt x) (GroupCtrl_ByteSizeLong rt x) @ r) =
    ProtoReq_InternalParse rt (m\<lparr>ProtoReq_data := kGctrl (GroupCtrl_MergeImpl (ProtoReq_gctrl m) x)\<rparr>) r"
  unfolding ProtoReq_InternalParse_def
  by (rule set_message [where parse = "GroupCtrl_InternalParse rt" and ?x0.0 = "ProtoReq_gctrl m" and
        st = "\<lambda>x. ProtoReq_data_update (\<lambda>_. kGctrl x)"])
    (simp_all add: ProtoReq_field_def expect_def GroupCtrl_size GroupCtrl_parse_merge [of _ _ "[]", simplified])

lemma ProtoReq_parse_gmsg [pb_field]: "GroupMsg_wf rt x \<Longrightarrow>
    GroupMsg_ByteSizeLong rt x < pb_max \<Longrightarrow>
    ProtoReq_InternalParse rt m (rt_InternalWriteMessage rt 16 (GroupMsg_InternalSerialize rt x) (GroupMsg_ByteSizeLong rt x) @ r) =
    ProtoReq_InternalParse rt (m\<lparr>ProtoReq_data := kGmsg (GroupMsg_MergeImpl (ProtoReq_gmsg m) x)\<rparr>) r"
  unfolding ProtoReq_InternalParse_def
  by (rule set_message [where parse = "GroupMsg_InternalParse rt" and ?x0.0 = "ProtoReq_gmsg m" and
        st = "\<lambda>x. ProtoReq_data_update (\<lambda>_. kGmsg x)"])
    (simp_all add: ProtoReq_field_def expect_def GroupMsg_size GroupMsg_parse_merge [of _ _ "[]", simplified])

lemma ProtoReq_parse_pull [pb_field]: "Pull_wf rt x \<Longrightarrow>
    Pull_ByteSizeLong rt x < pb_max \<Longrightarrow>
    ProtoReq_InternalParse rt m (rt_InternalWriteMessage rt 17 (Pull_InternalSerialize rt x) (Pull_ByteSizeLong rt x) @ r) =
    ProtoReq_InternalParse rt (m\<lparr>ProtoReq_data := kPull (Pull_MergeImpl (ProtoReq_pull m) x)\<rparr>) r"
  unfolding ProtoReq_InternalParse_def
  by (rule set_message [where parse = "Pull_InternalParse rt" and ?x0.0 = "ProtoReq_pull m" and
        st = "\<lambda>x. ProtoReq_data_update (\<lambda>_. kPull x)"])
    (simp_all add: ProtoReq_field_def expect_def Pull_size Pull_parse_merge [of _ _ "[]", simplified])

lemma ProtoReq_parse_log [pb_field]: "Log_wf rt x \<Longrightarrow>
    Log_ByteSizeLong rt x < pb_max \<Longrightarrow>
    ProtoReq_InternalParse rt m (rt_InternalWriteMessage rt 18 (Log_InternalSerialize rt x) (Log_ByteSizeLong rt x) @ r) =
    ProtoReq_InternalParse rt (m\<lparr>ProtoReq_data := kLog (Log_MergeImpl (ProtoReq_log m) x)\<rparr>) r"
  unfolding ProtoReq_InternalParse_def
  by (rule set_message [where parse = "Log_InternalParse rt" and ?x0.0 = "ProtoReq_log m" and
        st = "\<lambda>x. ProtoReq_data_update (\<lambda>_. kLog x)"])
    (simp_all add: ProtoReq_field_def expect_def Log_size Log_parse_merge [of _ _ "[]", simplified])

lemma ProtoReq_parse_unknown [pb_field]: "unknowns_ok rt [8, 16, 24, 32, 90, 98, 106, 114, 122, 130, 138, 146] u \<Longrightarrow>
    ProtoReq_InternalParse rt m ((if u \<noteq> [] then rt_SerializeUnknownFields rt u else []) @ r) =
    ProtoReq_InternalParse rt (m\<lparr>ProtoReq_unknown := ProtoReq_unknown m @ u\<rparr>) r"
  unfolding ProtoReq_InternalParse_def
  using loop_unknowns_ok [where known = "[8, 16, 24, 32, 90, 98, 106, 114, 122, 130, 138, 146]" and
      fld = "ProtoReq_field rt" and get = ProtoReq_unknown and
      put = "\<lambda>u. ProtoReq_unknown_update (\<lambda>_. u)" and u = u and m = m and r = r]
  by (simp add: ProtoReq_field_unusual)

lemma varint_tag2: "128 \<le> n \<Longrightarrow> n < 16384 \<Longrightarrow> length (varint n) = 2"
  by (simp add: varint.simps [of n] length_varint_small)

lemma ProtoReq_size [pb_size]: "length (ProtoReq_InternalSerialize rt m) = ProtoReq_ByteSizeLong rt m"
  by (simp add: ProtoReq_InternalSerialize_def ProtoReq_ByteSizeLong_def ProtoReq_data_size_def write_laws
      size_laws length_varint_small varint_tag2 pb_size split: ProtoReq_oneof.split)

lemma ProtoReq_parse_merge:
  assumes "ProtoReq_wf rt m" and "ProtoReq_ByteSizeLong rt m < pb_max"
  shows "ProtoReq_InternalParse rt x (ProtoReq_InternalSerialize rt m @ r) = ProtoReq_InternalParse rt (ProtoReq_MergeImpl x m) r"
proof -
  have "ProtoReq_data_size rt (ProtoReq_data m) < pb_max"
    using assms(2) by (simp add: ProtoReq_ByteSizeLong_def)
  then show ?thesis using assms(1)
    by (cases x; cases "ProtoReq_data m")
      (simp_all add: ProtoReq_InternalSerialize_def ProtoReq_MergeImpl_def ProtoReq_wf_def
        ProtoReq_data_wf_def ProtoReq_data_size_def size_laws pb_field oneof_members)
qed

lemma ProtoReq_roundtrip:
  "ProtoReq_wf rt m \<Longrightarrow> ProtoReq_ByteSizeLong rt m < pb_max \<Longrightarrow>
   ProtoReq_InternalParse rt ProtoReq_default (ProtoReq_InternalSerialize rt m) = AtLimit m"
  using ProtoReq_parse_merge [of m ProtoReq_default "[]"] by simp

end

section \<open>ProtoReq: what the parser returns is well-formed\<close>

lemma ProtoReq_field_known: "ProtoReq_field rt tag m s = Unusual \<Longrightarrow> tag \<notin> set [8, 16, 24, 32, 90, 98, 106, 114, 122, 130, 138, 146]"
  by (auto simp: ProtoReq_field_def)

context pb_runtime
begin

lemma ProtoReq_member_wf:
  assumes "ProtoReq_data_wf rt (ProtoReq_data m)"
  shows "FriendCtrl_wf rt (ProtoReq_fctrl m)"
    and "FriendState_wf rt (ProtoReq_fstate m)"
    and "FriendMsg_wf rt (ProtoReq_fmsg m)"
    and "SystemNotify_wf rt (ProtoReq_notify m)"
    and "GroupCtrl_wf rt (ProtoReq_gctrl m)"
    and "GroupMsg_wf rt (ProtoReq_gmsg m)"
    and "Pull_wf rt (ProtoReq_pull m)"
    and "Log_wf rt (ProtoReq_log m)"
  using assms
  by (simp_all add: ProtoReq_data_wf_def ProtoReq_fctrl_def ProtoReq_fstate_def ProtoReq_fmsg_def ProtoReq_notify_def ProtoReq_gctrl_def ProtoReq_gmsg_def ProtoReq_pull_def ProtoReq_log_def
      split: ProtoReq_oneof.splits)

lemmas member_parse_wf = FriendCtrl_parse_wf FriendState_parse_wf FriendMsg_parse_wf SystemNotify_parse_wf GroupCtrl_parse_wf GroupMsg_parse_wf Pull_parse_wf Log_parse_wf

lemma ProtoReq_field_arm:
  assumes "ProtoReq_field rt tag m s = Continue m' k" and "ProtoReq_data_wf rt (ProtoReq_data m)"
  shows "ProtoReq_data_wf rt (ProtoReq_data m') \<and> ProtoReq_unknown m' = ProtoReq_unknown m"
  using assms(1) ProtoReq_member_wf [OF assms(2)] assms(2)
  by (auto simp: ProtoReq_field_def ProtoReq_data_wf_def dest!: ParseMessage_Some intro: member_parse_wf split: if_splits)

lemma ProtoReq_parse_wf:
  assumes "ProtoReq_wf rt m" and "ProtoReq_InternalParse rt m s = AtLimit m'"
  shows "ProtoReq_wf rt m'"
  using loop_wf [where Q = "\<lambda>m. ProtoReq_data_wf rt (ProtoReq_data m)" and m = m and
      known = "[8, 16, 24, 32, 90, 98, 106, 114, 122, 130, 138, 146]", OF _ _ _ _ _ assms(2) [unfolded ProtoReq_InternalParse_def]]
    assms(1) ProtoReq_field_arm ProtoReq_field_known
  by (simp add: ProtoReq_wf_def)

lemma ProtoReq_default_wf [simp]: "ProtoReq_wf rt ProtoReq_default"
  by (simp add: ProtoReq_wf_def ProtoReq_default_def ProtoReq_data_wf_def)

end

end
