(* ===== verification/PbMq.thy ===== *)
theory PbMq
  imports PbReq
begin

text \<open>
  \<open>ProtoResp\<close> (the answer of the logic server, with the oneofs \<open>result\<close> and \<open>str\<close>), \<open>MqMessage\<close>
  (request and answer, as written to Kafka) and \<open>PushReq\<close> (an \<open>MqMessage\<close> with the receiver and
  the receiver's sequence number) of \<open>proto/msg.pb.cc\<close> and \<open>proto/msg.pb.h\<close>, laid out as in \<open>PbLeaf\<close>.
\<close>

section \<open>ProtoResp\<close>

datatype ProtoResp_result = RESULT_NOT_SET | kTimestamp int64 | kErrorCode int32

datatype ProtoResp_str = STR_NOT_SET | kMsgid string | kErr string

record ProtoResp =
  ProtoResp_res :: ProtoResp_result
  ProtoResp_txt :: ProtoResp_str
  ProtoResp_unknown :: unknown_fields

definition ProtoResp_default :: ProtoResp where
  "ProtoResp_default = \<lparr>ProtoResp_res = RESULT_NOT_SET, ProtoResp_txt = STR_NOT_SET, ProtoResp_unknown = []\<rparr>"

definition ProtoResp_timestamp :: "ProtoResp \<Rightarrow> int64" where
  "ProtoResp_timestamp m = (case ProtoResp_res m of kTimestamp v \<Rightarrow> v | _ \<Rightarrow> 0)"

definition ProtoResp_set_timestamp :: "int64 \<Rightarrow> ProtoResp \<Rightarrow> ProtoResp" where
  "ProtoResp_set_timestamp v m = m\<lparr>ProtoResp_res := kTimestamp v\<rparr>"

definition ProtoResp_set_error_code :: "int32 \<Rightarrow> ProtoResp \<Rightarrow> ProtoResp" where
  "ProtoResp_set_error_code v m = m\<lparr>ProtoResp_res := kErrorCode v\<rparr>"

definition ProtoResp_msgid :: "ProtoResp \<Rightarrow> string" where
  "ProtoResp_msgid m = (case ProtoResp_txt m of kMsgid s \<Rightarrow> s | _ \<Rightarrow> [])"

definition ProtoResp_set_msgid :: "string \<Rightarrow> ProtoResp \<Rightarrow> ProtoResp" where
  "ProtoResp_set_msgid v m = m\<lparr>ProtoResp_txt := kMsgid v\<rparr>"

definition ProtoResp_set_err :: "string \<Rightarrow> ProtoResp \<Rightarrow> ProtoResp" where
  "ProtoResp_set_err v m = m\<lparr>ProtoResp_txt := kErr v\<rparr>"

definition ProtoResp_Clear :: "ProtoResp \<Rightarrow> ProtoResp" where
  "ProtoResp_Clear m = m\<lparr>ProtoResp_res := RESULT_NOT_SET, ProtoResp_txt := STR_NOT_SET, ProtoResp_unknown := []\<rparr>"

definition ProtoResp_field :: "pb_rt \<Rightarrow> uint32 \<Rightarrow> ProtoResp \<Rightarrow> string \<Rightarrow> ProtoResp fres" where
  "ProtoResp_field rt tag m s =
     (if drop_bit 3 tag = 1 then
        expect tag 8 (read_field (rt_ReadVarint64 rt s) (\<lambda>v. ProtoResp_set_timestamp v m))
      else if drop_bit 3 tag = 2 then
        expect tag 16 (read_field (rt_ReadVarint32 rt s) (\<lambda>v. ProtoResp_set_error_code v m))
      else if drop_bit 3 tag = 3 then
        expect tag 26 (read_utf8 rt (rt_ReadDelimited rt s) (\<lambda>v. ProtoResp_set_msgid v m))
      else if drop_bit 3 tag = 4 then
        expect tag 34 (read_utf8 rt (rt_ReadDelimited rt s) (\<lambda>v. ProtoResp_set_err v m))
      else Unusual)"

definition ProtoResp_InternalParse :: "pb_rt \<Rightarrow> ProtoResp \<Rightarrow> string \<Rightarrow> ProtoResp pres" where
  "ProtoResp_InternalParse rt = pb_loop rt (ProtoResp_field rt) ProtoResp_unknown (\<lambda>u. ProtoResp_unknown_update (\<lambda>_. u))"

definition ProtoResp_InternalSerialize :: "pb_rt \<Rightarrow> ProtoResp \<Rightarrow> string" where
  "ProtoResp_InternalSerialize rt m =
     (case ProtoResp_res m of kTimestamp v \<Rightarrow> rt_WriteInt64ToArray rt 1 v | _ \<Rightarrow> []) @
     (case ProtoResp_res m of kErrorCode v \<Rightarrow> rt_WriteInt32ToArray rt 2 v | _ \<Rightarrow> []) @
     (case ProtoResp_txt m of kMsgid v \<Rightarrow> rt_WriteStringMaybeAliased rt 3 v | _ \<Rightarrow> []) @
     (case ProtoResp_txt m of kErr v \<Rightarrow> rt_WriteStringMaybeAliased rt 4 v | _ \<Rightarrow> []) @
     (if ProtoResp_unknown m \<noteq> [] then rt_SerializeUnknownFields rt (ProtoResp_unknown m) else [])"

definition ProtoResp_ByteSizeLong :: "pb_rt \<Rightarrow> ProtoResp \<Rightarrow> nat" where
  "ProtoResp_ByteSizeLong rt m =
     (case ProtoResp_res m of
        kTimestamp v \<Rightarrow> rt_Int64SizePlusOne rt v
      | kErrorCode v \<Rightarrow> rt_Int32SizePlusOne rt v
      | RESULT_NOT_SET \<Rightarrow> 0) +
     (case ProtoResp_txt m of
        kMsgid v \<Rightarrow> 1 + rt_StringSize rt v
      | kErr v \<Rightarrow> 1 + rt_StringSize rt v
      | STR_NOT_SET \<Rightarrow> 0) +
     (if ProtoResp_unknown m \<noteq> [] then rt_UnknownFieldsSize rt (ProtoResp_unknown m) else 0)"

definition ProtoResp_MergeImpl :: "ProtoResp \<Rightarrow> ProtoResp \<Rightarrow> ProtoResp" where
  "ProtoResp_MergeImpl to from = \<lparr>
     ProtoResp_res = (case ProtoResp_res from of
         kTimestamp v \<Rightarrow> kTimestamp v | kErrorCode v \<Rightarrow> kErrorCode v | RESULT_NOT_SET \<Rightarrow> ProtoResp_res to),
     ProtoResp_txt = (case ProtoResp_txt from of
         kMsgid v \<Rightarrow> kMsgid v | kErr v \<Rightarrow> kErr v | STR_NOT_SET \<Rightarrow> ProtoResp_txt to),
     ProtoResp_unknown = ProtoResp_unknown to @ ProtoResp_unknown from\<rparr>"

definition ProtoResp_CopyFrom :: "ProtoResp \<Rightarrow> ProtoResp \<Rightarrow> ProtoResp" where
  "ProtoResp_CopyFrom to from = ProtoResp_MergeImpl (ProtoResp_Clear to) from"

definition ProtoResp_ParseFromArray :: "pb_rt \<Rightarrow> string \<Rightarrow> ProtoResp option" where
  "ProtoResp_ParseFromArray rt s = at_limit (ProtoResp_InternalParse rt ProtoResp_default s)"

definition ProtoResp_wf :: "pb_rt \<Rightarrow> ProtoResp \<Rightarrow> bool" where
  "ProtoResp_wf rt m \<longleftrightarrow>
     unknowns_ok rt [8, 16, 26, 34] (ProtoResp_unknown m) \<and>
     (case ProtoResp_txt m of kMsgid v \<Rightarrow> rt_VerifyUTF8 rt v | kErr v \<Rightarrow> rt_VerifyUTF8 rt v | STR_NOT_SET \<Rightarrow> True)"

section \<open>MqMessage\<close>

record MqMessage =
  MqMessage_origin_req_ptr :: "ProtoReq option"
  MqMessage_handle_result_ptr :: "ProtoResp option"
  MqMessage_unknown :: unknown_fields

definition MqMessage_default :: MqMessage where
  "MqMessage_default = \<lparr>MqMessage_origin_req_ptr = None, MqMessage_handle_result_ptr = None, MqMessage_unknown = []\<rparr>"

definition MqMessage_origin_req :: "MqMessage \<Rightarrow> ProtoReq" where
  "MqMessage_origin_req m = (case MqMessage_origin_req_ptr m of None \<Rightarrow> ProtoReq_default | Some x \<Rightarrow> x)"

definition MqMessage_handle_result :: "MqMessage \<Rightarrow> ProtoResp" where
  "MqMessage_handle_result m = (case MqMessage_handle_result_ptr m of None \<Rightarrow> ProtoResp_default | Some x \<Rightarrow> x)"

definition MqMessage_Clear :: "MqMessage \<Rightarrow> MqMessage" where
  "MqMessage_Clear m = m\<lparr>MqMessage_origin_req_ptr := None, MqMessage_handle_result_ptr := None, MqMessage_unknown := []\<rparr>"

definition MqMessage_field :: "pb_rt \<Rightarrow> uint32 \<Rightarrow> MqMessage \<Rightarrow> string \<Rightarrow> MqMessage fres" where
  "MqMessage_field rt tag m s =
     (if drop_bit 3 tag = 1 then
        expect tag 10 (read_field (ParseMessage rt (ProtoReq_InternalParse rt) (MqMessage_origin_req m) s)
          (\<lambda>x. m\<lparr>MqMessage_origin_req_ptr := Some x\<rparr>))
      else if drop_bit 3 tag = 2 then
        expect tag 18 (read_field (ParseMessage rt (ProtoResp_InternalParse rt) (MqMessage_handle_result m) s)
          (\<lambda>x. m\<lparr>MqMessage_handle_result_ptr := Some x\<rparr>))
      else Unusual)"

definition MqMessage_InternalParse :: "pb_rt \<Rightarrow> MqMessage \<Rightarrow> string \<Rightarrow> MqMessage pres" where
  "MqMessage_InternalParse rt = pb_loop rt (MqMessage_field rt) MqMessage_unknown (\<lambda>u. MqMessage_unknown_update (\<lambda>_. u))"

definition MqMessage_InternalSerialize :: "pb_rt \<Rightarrow> MqMessage \<Rightarrow> string" where
  "MqMessage_InternalSerialize rt m =
     (case MqMessage_origin_req_ptr m of
        Some x \<Rightarrow> rt_InternalWriteMessage rt 1 (ProtoReq_InternalSerialize rt x) (ProtoReq_ByteSizeLong rt x) | None \<Rightarrow> []) @
     (case MqMessage_handle_result_ptr m of
        Some x \<Rightarrow> rt_InternalWriteMessage rt 2 (ProtoResp_InternalSerialize rt x) (ProtoResp_ByteSizeLong rt x) | None \<Rightarrow> []) @
     (if MqMessage_unknown m \<noteq> [] then rt_SerializeUnknownFields rt (MqMessage_unknown m) else [])"

definition MqMessage_ByteSizeLong :: "pb_rt \<Rightarrow> MqMessage \<Rightarrow> nat" where
  "MqMessage_ByteSizeLong rt m =
     (case MqMessage_origin_req_ptr m of Some x \<Rightarrow> 1 + rt_MessageSize rt (ProtoReq_ByteSizeLong rt x) | None \<Rightarrow> 0) +
     (case MqMessage_handle_result_ptr m of Some x \<Rightarrow> 1 + rt_MessageSize rt (ProtoResp_ByteSizeLong rt x) | None \<Rightarrow> 0) +
     (if MqMessage_unknown m \<noteq> [] then rt_UnknownFieldsSize rt (MqMessage_unknown m) else 0)"

definition MqMessage_MergeImpl :: "MqMessage \<Rightarrow> MqMessage \<Rightarrow> MqMessage" where
  "MqMessage_MergeImpl to from = \<lparr>
     MqMessage_origin_req_ptr = (case MqMessage_origin_req_ptr from of
         Some y \<Rightarrow> Some (ProtoReq_MergeImpl (MqMessage_origin_req to) y) | None \<Rightarrow> MqMessage_origin_req_ptr to),
     MqMessage_handle_result_ptr = (case MqMessage_handle_result_ptr from of
         Some y \<Rightarrow> Some (ProtoResp_MergeImpl (MqMessage_handle_result to) y) | None \<Rightarrow> MqMessage_handle_result_ptr to),
     MqMessage_unknown = MqMessage_unknown to @ MqMessage_unknown from\<rparr>"

definition MqMessage_CopyFrom :: "MqMessage \<Rightarrow> MqMessage \<Rightarrow> MqMessage" where
  "MqMessage_CopyFrom to from = MqMessage_MergeImpl (MqMessage_Clear to) from"

definition MqMessage_ParseFromArray :: "pb_rt \<Rightarrow> string \<Rightarrow> MqMessage option" where
  "MqMessage_ParseFromArray rt s = at_limit (MqMessage_InternalParse rt MqMessage_default s)"

definition MqMessage_wf :: "pb_rt \<Rightarrow> MqMessage \<Rightarrow> bool" where
  "MqMessage_wf rt m \<longleftrightarrow>
     unknowns_ok rt [10, 18] (MqMessage_unknown m) \<and>
     (case MqMessage_origin_req_ptr m of Some x \<Rightarrow> ProtoReq_wf rt x | None \<Rightarrow> True) \<and>
     (case MqMessage_handle_result_ptr m of Some x \<Rightarrow> ProtoResp_wf rt x | None \<Rightarrow> True)"

section \<open>PushReq\<close>

record PushReq =
  PushReq_message_ptr :: "MqMessage option"
  PushReq_seq :: int64
  PushReq_to_uid :: uint64
  PushReq_unknown :: unknown_fields

definition PushReq_default :: PushReq where
  "PushReq_default = \<lparr>PushReq_message_ptr = None, PushReq_seq = 0, PushReq_to_uid = 0, PushReq_unknown = []\<rparr>"

definition PushReq_message :: "PushReq \<Rightarrow> MqMessage" where
  "PushReq_message m = (case PushReq_message_ptr m of None \<Rightarrow> MqMessage_default | Some x \<Rightarrow> x)"

definition PushReq_Clear :: "PushReq \<Rightarrow> PushReq" where
  "PushReq_Clear m = m\<lparr>PushReq_message_ptr := None, PushReq_seq := 0, PushReq_to_uid := 0, PushReq_unknown := []\<rparr>"

definition PushReq_field :: "pb_rt \<Rightarrow> uint32 \<Rightarrow> PushReq \<Rightarrow> string \<Rightarrow> PushReq fres" where
  "PushReq_field rt tag m s =
     (if drop_bit 3 tag = 1 then
        expect tag 10 (read_field (ParseMessage rt (MqMessage_InternalParse rt) (PushReq_message m) s)
          (\<lambda>x. m\<lparr>PushReq_message_ptr := Some x\<rparr>))
      else if drop_bit 3 tag = 2 then
        expect tag 16 (read_field (rt_ReadVarint64 rt s) (\<lambda>v. m\<lparr>PushReq_seq := v\<rparr>))
      else if drop_bit 3 tag = 3 then
        expect tag 24 (read_field (rt_ReadVarint64 rt s) (\<lambda>v. m\<lparr>PushReq_to_uid := v\<rparr>))
      else Unusual)"

definition PushReq_InternalParse :: "pb_rt \<Rightarrow> PushReq \<Rightarrow> string \<Rightarrow> PushReq pres" where
  "PushReq_InternalParse rt = pb_loop rt (PushReq_field rt) PushReq_unknown (\<lambda>u. PushReq_unknown_update (\<lambda>_. u))"

definition PushReq_InternalSerialize :: "pb_rt \<Rightarrow> PushReq \<Rightarrow> string" where
  "PushReq_InternalSerialize rt m =
     (case PushReq_message_ptr m of
        Some x \<Rightarrow> rt_InternalWriteMessage rt 1 (MqMessage_InternalSerialize rt x) (MqMessage_ByteSizeLong rt x) | None \<Rightarrow> []) @
     (if PushReq_seq m \<noteq> 0 then rt_WriteInt64ToArray rt 2 (PushReq_seq m) else []) @
     (if PushReq_to_uid m \<noteq> 0 then rt_WriteUInt64ToArray rt 3 (PushReq_to_uid m) else []) @
     (if PushReq_unknown m \<noteq> [] then rt_SerializeUnknownFields rt (PushReq_unknown m) else [])"

definition PushReq_ByteSizeLong :: "pb_rt \<Rightarrow> PushReq \<Rightarrow> nat" where
  "PushReq_ByteSizeLong rt m =
     (case PushReq_message_ptr m of Some x \<Rightarrow> 1 + rt_MessageSize rt (MqMessage_ByteSizeLong rt x) | None \<Rightarrow> 0) +
     (if PushReq_seq m \<noteq> 0 then rt_Int64SizePlusOne rt (PushReq_seq m) else 0) +
     (if PushReq_to_uid m \<noteq> 0 then rt_UInt64SizePlusOne rt (PushReq_to_uid m) else 0) +
     (if PushReq_unknown m \<noteq> [] then rt_UnknownFieldsSize rt (PushReq_unknown m) else 0)"

definition PushReq_MergeImpl :: "PushReq \<Rightarrow> PushReq \<Rightarrow> PushReq" where
  "PushReq_MergeImpl to from = \<lparr>
     PushReq_message_ptr = (case PushReq_message_ptr from of
         Some y \<Rightarrow> Some (MqMessage_MergeImpl (PushReq_message to) y) | None \<Rightarrow> PushReq_message_ptr to),
     PushReq_seq = (if PushReq_seq from \<noteq> 0 then PushReq_seq from else PushReq_seq to),
     PushReq_to_uid = (if PushReq_to_uid from \<noteq> 0 then PushReq_to_uid from else PushReq_to_uid to),
     PushReq_unknown = PushReq_unknown to @ PushReq_unknown from\<rparr>"

definition PushReq_CopyFrom :: "PushReq \<Rightarrow> PushReq \<Rightarrow> PushReq" where
  "PushReq_CopyFrom to from = PushReq_MergeImpl (PushReq_Clear to) from"

definition PushReq_ParseFromArray :: "pb_rt \<Rightarrow> string \<Rightarrow> PushReq option" where
  "PushReq_ParseFromArray rt s = at_limit (PushReq_InternalParse rt PushReq_default s)"

definition PushReq_wf :: "pb_rt \<Rightarrow> PushReq \<Rightarrow> bool" where
  "PushReq_wf rt m \<longleftrightarrow>
     unknowns_ok rt [10, 16, 24] (PushReq_unknown m) \<and>
     (case PushReq_message_ptr m of Some x \<Rightarrow> MqMessage_wf rt x | None \<Rightarrow> True)"

section \<open>What is written is read back\<close>

lemma ProtoResp_field_unusual: "t \<notin> set [8, 16, 26, 34] \<Longrightarrow> ProtoResp_field rt t m s = Unusual"
  by (auto simp: ProtoResp_field_def expect_def
      dest: tag_match [where t = t and f = 1 and b = 8 and g = 8, simplified]
      dest: tag_match [where t = t and f = 2 and b = 16 and g = 16, simplified]
      dest: tag_match [where t = t and f = 3 and b = 26 and g = 26, simplified]
      dest: tag_match [where t = t and f = 4 and b = 34 and g = 34, simplified])

lemma MqMessage_field_unusual: "t \<notin> set [10, 18] \<Longrightarrow> MqMessage_field rt t m s = Unusual"
  by (auto simp: MqMessage_field_def expect_def
      dest: tag_match [where t = t and f = 1 and b = 10 and g = 10, simplified]
      dest: tag_match [where t = t and f = 2 and b = 18 and g = 18, simplified])

lemma PushReq_field_unusual: "t \<notin> set [10, 16, 24] \<Longrightarrow> PushReq_field rt t m s = Unusual"
  by (auto simp: PushReq_field_def expect_def
      dest: tag_match [where t = t and f = 1 and b = 10 and g = 10, simplified]
      dest: tag_match [where t = t and f = 2 and b = 16 and g = 16, simplified]
      dest: tag_match [where t = t and f = 3 and b = 24 and g = 24, simplified])

lemma ProtoResp_parse_Nil [simp]: "ProtoResp_InternalParse rt m [] = AtLimit m"
  by (simp add: ProtoResp_InternalParse_def)

lemma ProtoResp_CopyFrom_eq [simp]: "ProtoResp_CopyFrom to from = from"
  by (simp add: ProtoResp_CopyFrom_def ProtoResp_MergeImpl_def ProtoResp_Clear_def
      split: ProtoResp_result.split ProtoResp_str.split)

lemma ProtoResp_MergeImpl_default [simp]: "ProtoResp_MergeImpl ProtoResp_default from = from"
  using ProtoResp_CopyFrom_eq [of ProtoResp_default "from"] unfolding ProtoResp_CopyFrom_def
  by (simp add: ProtoResp_Clear_def ProtoResp_default_def)

lemma MqMessage_parse_Nil [simp]: "MqMessage_InternalParse rt m [] = AtLimit m"
  by (simp add: MqMessage_InternalParse_def)

lemma MqMessage_CopyFrom_eq [simp]: "MqMessage_CopyFrom to from = from"
  by (simp add: MqMessage_CopyFrom_def MqMessage_MergeImpl_def MqMessage_Clear_def MqMessage_origin_req_def
      MqMessage_handle_result_def split: option.split)

lemma MqMessage_MergeImpl_default [simp]: "MqMessage_MergeImpl MqMessage_default from = from"
  using MqMessage_CopyFrom_eq [of MqMessage_default "from"] unfolding MqMessage_CopyFrom_def
  by (simp add: MqMessage_Clear_def MqMessage_default_def)

lemma PushReq_MergeImpl_default [simp]: "PushReq_MergeImpl PushReq_default from = from"
  by (simp add: PushReq_MergeImpl_def PushReq_default_def PushReq_message_def split: option.split)

lemma PushReq_parse_Nil [simp]: "PushReq_InternalParse rt m [] = AtLimit m"
  by (simp add: PushReq_InternalParse_def)

lemma PushReq_CopyFrom_eq [simp]: "PushReq_CopyFrom to from = from"
  by (simp add: PushReq_CopyFrom_def PushReq_MergeImpl_def PushReq_Clear_def PushReq_message_def
      split: option.split)

context pb_runtime
begin

lemma ProtoResp_parse_timestamp [pb_field]:
  "ProtoResp_InternalParse rt m (rt_WriteInt64ToArray rt 1 v @ r) =
   ProtoResp_InternalParse rt (m\<lparr>ProtoResp_res := kTimestamp v\<rparr>) r"
  unfolding ProtoResp_InternalParse_def
  by (rule set_int64 [where st = "\<lambda>v. ProtoResp_res_update (\<lambda>_. kTimestamp v)"])
    (simp_all add: ProtoResp_field_def expect_def ProtoResp_set_timestamp_def)

lemma ProtoResp_parse_error_code [pb_field]:
  "ProtoResp_InternalParse rt m (rt_WriteInt32ToArray rt 2 v @ r) =
   ProtoResp_InternalParse rt (m\<lparr>ProtoResp_res := kErrorCode v\<rparr>) r"
  unfolding ProtoResp_InternalParse_def
  by (rule set_int32 [where st = "\<lambda>v. ProtoResp_res_update (\<lambda>_. kErrorCode v)"])
    (simp_all add: ProtoResp_field_def expect_def ProtoResp_set_error_code_def)

lemma ProtoResp_parse_msgid [pb_field]: "length v < pb_max \<Longrightarrow> rt_VerifyUTF8 rt v \<Longrightarrow>
   ProtoResp_InternalParse rt m (rt_WriteStringMaybeAliased rt 3 v @ r) =
   ProtoResp_InternalParse rt (m\<lparr>ProtoResp_txt := kMsgid v\<rparr>) r"
  unfolding ProtoResp_InternalParse_def
  by (rule set_string [where st = "\<lambda>v. ProtoResp_txt_update (\<lambda>_. kMsgid v)"])
    (simp_all add: ProtoResp_field_def expect_def ProtoResp_set_msgid_def)

lemma ProtoResp_parse_err [pb_field]: "length v < pb_max \<Longrightarrow> rt_VerifyUTF8 rt v \<Longrightarrow>
   ProtoResp_InternalParse rt m (rt_WriteStringMaybeAliased rt 4 v @ r) =
   ProtoResp_InternalParse rt (m\<lparr>ProtoResp_txt := kErr v\<rparr>) r"
  unfolding ProtoResp_InternalParse_def
  by (rule set_string [where st = "\<lambda>v. ProtoResp_txt_update (\<lambda>_. kErr v)"])
    (simp_all add: ProtoResp_field_def expect_def ProtoResp_set_err_def)

lemma ProtoResp_parse_unknown [pb_field]: "unknowns_ok rt [8, 16, 26, 34] u \<Longrightarrow>
    ProtoResp_InternalParse rt m ((if u \<noteq> [] then rt_SerializeUnknownFields rt u else []) @ r) =
    ProtoResp_InternalParse rt (m\<lparr>ProtoResp_unknown := ProtoResp_unknown m @ u\<rparr>) r"
  unfolding ProtoResp_InternalParse_def
  using loop_unknowns_ok [where known = "[8, 16, 26, 34]" and fld = "ProtoResp_field rt" and get = ProtoResp_unknown
      and put = "\<lambda>u. ProtoResp_unknown_update (\<lambda>_. u)" and u = u and m = m and r = r]
  by (simp add: ProtoResp_field_unusual)

lemma ProtoResp_size [pb_size]: "length (ProtoResp_InternalSerialize rt m) = ProtoResp_ByteSizeLong rt m"
  by (simp add: ProtoResp_InternalSerialize_def ProtoResp_ByteSizeLong_def write_laws size_laws
      length_varint_small split: ProtoResp_result.split ProtoResp_str.split)

lemma ProtoResp_parse_merge:
  assumes "ProtoResp_wf rt m" and "ProtoResp_ByteSizeLong rt m < pb_max"
  shows "ProtoResp_InternalParse rt x (ProtoResp_InternalSerialize rt m @ r) = ProtoResp_InternalParse rt (ProtoResp_MergeImpl x m) r"
proof -
  have "case ProtoResp_txt m of kMsgid v \<Rightarrow> length v < pb_max | kErr v \<Rightarrow> length v < pb_max | STR_NOT_SET \<Rightarrow> True"
    using assms(2) by (auto simp: ProtoResp_ByteSizeLong_def size_laws split: ProtoResp_str.splits)
  then show ?thesis using assms(1)
    by (cases x; cases "ProtoResp_res m"; cases "ProtoResp_txt m")
      (simp_all add: ProtoResp_InternalSerialize_def ProtoResp_MergeImpl_def ProtoResp_wf_def pb_field
        del: One_nat_def)
qed

lemma ProtoResp_roundtrip:
  "ProtoResp_wf rt m \<Longrightarrow> ProtoResp_ByteSizeLong rt m < pb_max \<Longrightarrow>
   ProtoResp_InternalParse rt ProtoResp_default (ProtoResp_InternalSerialize rt m) = AtLimit m"
  using ProtoResp_parse_merge [of m ProtoResp_default "[]"] by simp

lemma MqMessage_parse_origin_req [pb_field]: "ProtoReq_wf rt x \<Longrightarrow>
    ProtoReq_ByteSizeLong rt x < pb_max \<Longrightarrow>
    MqMessage_InternalParse rt m (rt_InternalWriteMessage rt 1 (ProtoReq_InternalSerialize rt x) (ProtoReq_ByteSizeLong rt x) @ r) =
    MqMessage_InternalParse rt (m\<lparr>MqMessage_origin_req_ptr := Some (ProtoReq_MergeImpl (MqMessage_origin_req m) x)\<rparr>) r"
  unfolding MqMessage_InternalParse_def
  by (rule set_message [where parse = "ProtoReq_InternalParse rt" and ?x0.0 = "MqMessage_origin_req m" and
        st = "\<lambda>x. MqMessage_origin_req_ptr_update (\<lambda>_. Some x)"])
    (simp_all add: MqMessage_field_def expect_def ProtoReq_size ProtoReq_parse_merge [of _ _ "[]", simplified])

lemma MqMessage_parse_handle_result [pb_field]: "ProtoResp_wf rt x \<Longrightarrow>
    ProtoResp_ByteSizeLong rt x < pb_max \<Longrightarrow>
    MqMessage_InternalParse rt m (rt_InternalWriteMessage rt 2 (ProtoResp_InternalSerialize rt x) (ProtoResp_ByteSizeLong rt x) @ r) =
    MqMessage_InternalParse rt (m\<lparr>MqMessage_handle_result_ptr := Some (ProtoResp_MergeImpl (MqMessage_handle_result m) x)\<rparr>) r"
  unfolding MqMessage_InternalParse_def
  by (rule set_message [where parse = "ProtoResp_InternalParse rt" and ?x0.0 = "MqMessage_handle_result m" and
        st = "\<lambda>x. MqMessage_handle_result_ptr_update (\<lambda>_. Some x)"])
    (simp_all add: MqMessage_field_def expect_def ProtoResp_size ProtoResp_parse_merge [of _ _ "[]", simplified])

lemma MqMessage_parse_unknown [pb_field]: "unknowns_ok rt [10, 18] u \<Longrightarrow>
    MqMessage_InternalParse rt m ((if u \<noteq> [] then rt_SerializeUnknownFields rt u else []) @ r) =
    MqMessage_InternalParse rt (m\<lparr>MqMessage_unknown := MqMessage_unknown m @ u\<rparr>) r"
  unfolding MqMessage_InternalParse_def
  using loop_unknowns_ok [where known = "[10, 18]" and fld = "MqMessage_field rt" and get = MqMessage_unknown
      and put = "\<lambda>u. MqMessage_unknown_update (\<lambda>_. u)" and u = u and m = m and r = r]
  by (simp add: MqMessage_field_unusual)

lemma MqMessage_size [pb_size]: "length (MqMessage_InternalSerialize rt m) = MqMessage_ByteSizeLong rt m"
  by (simp add: MqMessage_InternalSerialize_def MqMessage_ByteSizeLong_def write_laws size_laws
      length_varint_small pb_size split: option.split)

lemma MqMessage_parse_merge:
  assumes "MqMessage_wf rt m" and "MqMessage_ByteSizeLong rt m < pb_max"
  shows "MqMessage_InternalParse rt x (MqMessage_InternalSerialize rt m @ r) = MqMessage_InternalParse rt (MqMessage_MergeImpl x m) r"
  using assms
  by (cases x; cases "MqMessage_origin_req_ptr m"; cases "MqMessage_handle_result_ptr m")
    (simp_all add: MqMessage_InternalSerialize_def MqMessage_MergeImpl_def MqMessage_wf_def MqMessage_origin_req_def MqMessage_handle_result_def
      MqMessage_ByteSizeLong_def size_laws pb_field del: One_nat_def)

lemma MqMessage_roundtrip:
  "MqMessage_wf rt m \<Longrightarrow> MqMessage_ByteSizeLong rt m < pb_max \<Longrightarrow>
   MqMessage_InternalParse rt MqMessage_default (MqMessage_InternalSerialize rt m) = AtLimit m"
  using MqMessage_parse_merge [of m MqMessage_default "[]"] by simp

lemma PushReq_parse_message [pb_field]: "MqMessage_wf rt x \<Longrightarrow>
    MqMessage_ByteSizeLong rt x < pb_max \<Longrightarrow>
    PushReq_InternalParse rt m (rt_InternalWriteMessage rt 1 (MqMessage_InternalSerialize rt x) (MqMessage_ByteSizeLong rt x) @ r) =
    PushReq_InternalParse rt (m\<lparr>PushReq_message_ptr := Some (MqMessage_MergeImpl (PushReq_message m) x)\<rparr>) r"
  unfolding PushReq_InternalParse_def
  by (rule set_message [where parse = "MqMessage_InternalParse rt" and ?x0.0 = "PushReq_message m" and
        st = "\<lambda>x. PushReq_message_ptr_update (\<lambda>_. Some x)"])
    (simp_all add: PushReq_field_def expect_def MqMessage_size MqMessage_parse_merge [of _ _ "[]", simplified])

lemma PushReq_parse_seq [pb_field]:
   "PushReq_InternalParse rt m ((if v \<noteq> 0 then rt_WriteInt64ToArray rt 2 v else []) @ r) =
    PushReq_InternalParse rt (m\<lparr>PushReq_seq := if v \<noteq> 0 then v else PushReq_seq m\<rparr>) r"
  unfolding PushReq_InternalParse_def
  by (rule opt_int64 [where st = "\<lambda>v. PushReq_seq_update (\<lambda>_. v)"]) (simp_all add: PushReq_field_def expect_def)

lemma PushReq_parse_to_uid [pb_field]:
   "PushReq_InternalParse rt m ((if v \<noteq> 0 then rt_WriteUInt64ToArray rt 3 v else []) @ r) =
    PushReq_InternalParse rt (m\<lparr>PushReq_to_uid := if v \<noteq> 0 then v else PushReq_to_uid m\<rparr>) r"
  unfolding PushReq_InternalParse_def
  by (rule opt_uint64 [where st = "\<lambda>v. PushReq_to_uid_update (\<lambda>_. v)"]) (simp_all add: PushReq_field_def expect_def)

lemma PushReq_parse_unknown [pb_field]: "unknowns_ok rt [10, 16, 24] u \<Longrightarrow>
    PushReq_InternalParse rt m ((if u \<noteq> [] then rt_SerializeUnknownFields rt u else []) @ r) =
    PushReq_InternalParse rt (m\<lparr>PushReq_unknown := PushReq_unknown m @ u\<rparr>) r"
  unfolding PushReq_InternalParse_def
  using loop_unknowns_ok [where known = "[10, 16, 24]" and fld = "PushReq_field rt" and get = PushReq_unknown
      and put = "\<lambda>u. PushReq_unknown_update (\<lambda>_. u)" and u = u and m = m and r = r]
  by (simp add: PushReq_field_unusual)

lemma PushReq_size [pb_size]: "length (PushReq_InternalSerialize rt m) = PushReq_ByteSizeLong rt m"
  by (simp add: PushReq_InternalSerialize_def PushReq_ByteSizeLong_def write_laws size_laws
      length_varint_small pb_size split: option.split)

lemma PushReq_parse_merge:
  assumes "PushReq_wf rt m" and "PushReq_ByteSizeLong rt m < pb_max"
  shows "PushReq_InternalParse rt x (PushReq_InternalSerialize rt m @ r) = PushReq_InternalParse rt (PushReq_MergeImpl x m) r"
  using assms
  by (cases x; cases "PushReq_message_ptr m")
    (simp_all add: PushReq_InternalSerialize_def PushReq_MergeImpl_def PushReq_wf_def
      PushReq_ByteSizeLong_def size_laws pb_field del: One_nat_def)

lemma PushReq_roundtrip:
  "PushReq_wf rt m \<Longrightarrow> PushReq_ByteSizeLong rt m < pb_max \<Longrightarrow>
   PushReq_InternalParse rt PushReq_default (PushReq_InternalSerialize rt m) = AtLimit m"
  using PushReq_parse_merge [of m PushReq_default "[]"] by simp

end

section \<open>What the parser returns is well-formed\<close>

definition ProtoResp_txt_wf :: "pb_rt \<Rightarrow> ProtoResp_str \<Rightarrow> bool" where
  "ProtoResp_txt_wf rt t =
     (case t of kMsgid v \<Rightarrow> rt_VerifyUTF8 rt v | kErr v \<Rightarrow> rt_VerifyUTF8 rt v | STR_NOT_SET \<Rightarrow> True)"

lemma ProtoResp_field_known: "ProtoResp_field rt tag m s = Unusual \<Longrightarrow> tag \<notin> set [8, 16, 26, 34]"
  by (auto simp: ProtoResp_field_def)

lemma ProtoResp_field_arm: "ProtoResp_field rt tag m s = Continue m' k \<Longrightarrow> ProtoResp_txt_wf rt (ProtoResp_txt m) \<Longrightarrow>
    ProtoResp_txt_wf rt (ProtoResp_txt m') \<and> ProtoResp_unknown m' = ProtoResp_unknown m"
  by (auto simp: ProtoResp_field_def ProtoResp_txt_wf_def ProtoResp_set_timestamp_def ProtoResp_set_error_code_def
      ProtoResp_set_msgid_def ProtoResp_set_err_def split: if_splits)

lemma MqMessage_field_known: "MqMessage_field rt tag m s = Unusual \<Longrightarrow> tag \<notin> set [10, 18]"
  by (auto simp: MqMessage_field_def)

lemma PushReq_field_known: "PushReq_field rt tag m s = Unusual \<Longrightarrow> tag \<notin> set [10, 16, 24]"
  by (auto simp: PushReq_field_def)

context pb_runtime
begin

lemma ProtoResp_parse_wf:
  assumes "ProtoResp_wf rt m" and "ProtoResp_InternalParse rt m s = AtLimit m'"
  shows "ProtoResp_wf rt m'"
  using loop_wf [where Q = "\<lambda>m. ProtoResp_txt_wf rt (ProtoResp_txt m)" and m = m and known = "[8, 16, 26, 34]",
      OF _ _ _ _ _ assms(2) [unfolded ProtoResp_InternalParse_def]]
    assms(1) ProtoResp_field_arm ProtoResp_field_known
  by (simp add: ProtoResp_wf_def ProtoResp_txt_wf_def)

lemma ProtoResp_default_wf [simp]: "ProtoResp_wf rt ProtoResp_default"
  by (simp add: ProtoResp_wf_def ProtoResp_default_def)

lemma MqMessage_member_wf:
  assumes "case MqMessage_origin_req_ptr m of Some x \<Rightarrow> ProtoReq_wf rt x | None \<Rightarrow> True"
    and "case MqMessage_handle_result_ptr m of Some x \<Rightarrow> ProtoResp_wf rt x | None \<Rightarrow> True"
  shows "ProtoReq_wf rt (MqMessage_origin_req m)" and "ProtoResp_wf rt (MqMessage_handle_result m)"
  using assms by (simp_all add: MqMessage_origin_req_def MqMessage_handle_result_def split: option.splits)

lemma MqMessage_field_arm:
  assumes "MqMessage_field rt tag m s = Continue m' k"
    and "case MqMessage_origin_req_ptr m of Some x \<Rightarrow> ProtoReq_wf rt x | None \<Rightarrow> True"
    and "case MqMessage_handle_result_ptr m of Some x \<Rightarrow> ProtoResp_wf rt x | None \<Rightarrow> True"
  shows "((case MqMessage_origin_req_ptr m' of Some x \<Rightarrow> ProtoReq_wf rt x | None \<Rightarrow> True) \<and>
     (case MqMessage_handle_result_ptr m' of Some x \<Rightarrow> ProtoResp_wf rt x | None \<Rightarrow> True)) \<and>
     MqMessage_unknown m' = MqMessage_unknown m"
  using assms MqMessage_member_wf [OF assms(2,3)]
  by (auto simp: MqMessage_field_def dest!: ParseMessage_Some intro: ProtoReq_parse_wf ProtoResp_parse_wf split: if_splits)

lemma MqMessage_parse_wf:
  assumes "MqMessage_wf rt m" and "MqMessage_InternalParse rt m s = AtLimit m'"
  shows "MqMessage_wf rt m'"
  using loop_wf [where Q = "\<lambda>m. (case MqMessage_origin_req_ptr m of Some x \<Rightarrow> ProtoReq_wf rt x | None \<Rightarrow> True) \<and>
       (case MqMessage_handle_result_ptr m of Some x \<Rightarrow> ProtoResp_wf rt x | None \<Rightarrow> True)" and m = m and known = "[10, 18]",
      OF _ _ _ _ _ assms(2) [unfolded MqMessage_InternalParse_def]]
    assms(1) MqMessage_field_arm MqMessage_field_known
  by (simp add: MqMessage_wf_def)

lemma MqMessage_default_wf [simp]: "MqMessage_wf rt MqMessage_default"
  by (simp add: MqMessage_wf_def MqMessage_default_def)

lemma PushReq_field_arm:
  assumes "PushReq_field rt tag m s = Continue m' k"
    and "case PushReq_message_ptr m of Some x \<Rightarrow> MqMessage_wf rt x | None \<Rightarrow> True"
  shows "(case PushReq_message_ptr m' of Some x \<Rightarrow> MqMessage_wf rt x | None \<Rightarrow> True) \<and> PushReq_unknown m' = PushReq_unknown m"
proof -
  have "MqMessage_wf rt (PushReq_message m)" using assms(2) by (simp add: PushReq_message_def split: option.splits)
  with assms show ?thesis
    by (auto simp: PushReq_field_def dest!: ParseMessage_Some intro: MqMessage_parse_wf split: if_splits)
qed

lemma PushReq_parse_wf:
  assumes "PushReq_wf rt m" and "PushReq_InternalParse rt m s = AtLimit m'"
  shows "PushReq_wf rt m'"
  using loop_wf [where Q = "\<lambda>m. case PushReq_message_ptr m of Some x \<Rightarrow> MqMessage_wf rt x | None \<Rightarrow> True" and m = m and
      known = "[10, 16, 24]", OF _ _ _ _ _ assms(2) [unfolded PushReq_InternalParse_def]]
    assms(1) PushReq_field_arm PushReq_field_known
  by (simp add: PushReq_wf_def)

lemma PushReq_default_wf [simp]: "PushReq_wf rt PushReq_default"
  by (simp add: PushReq_wf_def PushReq_default_def)

end

end
