(* ===== verification/PbRef.thy ===== *)
theory PbRef
  imports PbWire
begin

unbundle bit_operations_syntax

text \<open>
  An executable implementation \<open>wire_rt\<close> of the documented wire format: varints of at most ten
  bytes, length-delimited regions, UTF-8 validation, and unknown fields of the wire types 0, 1, 2
  and 5. Interpreting \<open>pb_runtime\<close> on it shows that the laws the generated code relies on can
  hold together, and the witnesses of the message theories evaluate on it.
\<close>

fun varint_dec :: "nat \<Rightarrow> string \<Rightarrow> (nat \<times> nat) option" where
  "varint_dec 0 s = None"
| "varint_dec (Suc k) [] = None"
| "varint_dec (Suc k) (c # s) =
     (let b = of_char c in
      if b < 128 then Some (b, 1)
      else case varint_dec k s of None \<Rightarrow> None | Some (v, n) \<Rightarrow> Some (b - 128 + 128 * v, Suc n))"

lemma varint_dec_numeral [simp]:
  "varint_dec (numeral k) [] = None"
  "varint_dec (numeral k) (c # s) =
     (let b = of_char c in
      if b < 128 then Some (b, 1)
      else case varint_dec (pred_numeral k) s of None \<Rightarrow> None | Some (v, n) \<Rightarrow> Some (b - 128 + 128 * v, Suc n))"
  by (simp_all add: numeral_eq_Suc)

lemma varint_dec_varint: "0 < k \<Longrightarrow> n < 128 ^ k \<Longrightarrow> varint_dec k (varint n @ r) = Some (n, length (varint n))"
proof (induction k arbitrary: n)
  case 0
  then show ?case by simp
next
  case (Suc k)
  show ?case
  proof (cases "n < 128")
    case True
    then show ?thesis by (simp add: varint.simps [of n])
  next
    case False
    from Suc.prems have less: "n div 128 < 128 ^ k" by (simp add: less_mult_imp_div_less)
    with False have "0 < k" by (cases k) auto
    then have "varint_dec k (varint (n div 128) @ r) = Some (n div 128, length (varint (n div 128)))"
      using less by (rule Suc.IH)
    moreover have "of_char (char_of (128 + n mod 128) :: char) = 128 + n mod 128"
      by simp
    ultimately show ?thesis using False by (simp add: varint.simps [of n] Let_def)
  qed
qed

text \<open>The well-formed byte sequences of the Unicode standard, table 3-7.\<close>

fun in_range :: "nat \<Rightarrow> nat \<Rightarrow> char \<Rightarrow> bool" where
  "in_range lo hi c \<longleftrightarrow> lo \<le> of_char c \<and> of_char c \<le> hi"

fun utf8_valid :: "string \<Rightarrow> bool" where
  "utf8_valid [] = True"
| "utf8_valid (a # s) =
     (if in_range 0 127 a then utf8_valid s
      else case s of
        [] \<Rightarrow> False
      | b # s1 \<Rightarrow>
          if in_range 194 223 a then in_range 128 191 b \<and> utf8_valid s1
          else case s1 of
            [] \<Rightarrow> False
          | c # s2 \<Rightarrow>
              if in_range 224 239 a then
                in_range (if of_char a = (224 :: nat) then 160 else 128)
                  (if of_char a = (237 :: nat) then 159 else 191) b \<and>
                in_range 128 191 c \<and> utf8_valid s2
              else case s2 of
                [] \<Rightarrow> False
              | d # s3 \<Rightarrow>
                  in_range 240 244 a \<and>
                  in_range (if of_char a = (240 :: nat) then 144 else 128)
                    (if of_char a = (244 :: nat) then 143 else 191) b \<and>
                  in_range 128 191 c \<and> in_range 128 191 d \<and> utf8_valid s3)"

lemma utf8_valid_ascii: "ascii s \<Longrightarrow> utf8_valid s"
  by (induction s) (auto simp: ascii_def)

definition wire_delimited :: "string \<Rightarrow> (string \<times> nat) option" where
  "wire_delimited s =
     (case varint_dec 5 s of
        None \<Rightarrow> None
      | Some (k, n) \<Rightarrow> if k < pb_max \<and> n + k \<le> length s then Some (take k (drop n s), n + k) else None)"

definition wire_unknown :: "uint32 \<Rightarrow> unknown_fields \<Rightarrow> string \<Rightarrow> (unknown_fields \<times> nat) option" where
  "wire_unknown t u s =
     (if unat t < 8 then None
      else if t AND 7 = 0 then
        (case varint_dec 10 s of
           None \<Rightarrow> None
         | Some (v, n) \<Rightarrow> Some (u @ [(t, varint (unat (of_nat v :: uint64)))], n))
      else if t AND 7 = 1 then (if 8 \<le> length s then Some (u @ [(t, take 8 s)], 8) else None)
      else if t AND 7 = 2 then
        (case wire_delimited s of
           None \<Rightarrow> None
         | Some (p, n) \<Rightarrow> Some (u @ [(t, varint (length p) @ p)], n))
      else if t AND 7 = 5 then (if 4 \<le> length s then Some (u @ [(t, take 4 s)], 4) else None)
      else None)"

lemma varint_dec_u64: "varint_dec 10 (varint (unat (v :: uint64)) @ r) = Some (unat v, length (varint (unat v)))"
  by (rule varint_dec_varint) (use unat_bound [of v] in simp_all)

lemma varint_dec_u32: "varint_dec 5 (varint (unat (v :: uint32)) @ r) = Some (unat v, length (varint (unat v)))"
  by (rule varint_dec_varint) (use unat_bound [of v] in simp_all)

text \<open>
  The fields an \<open>UnknownFieldSet\<close> can hold, with their values in canonical form. The wire types are
  0 (varint), 1 (64 bit), 2 (length delimited) and 5 (32 bit).
\<close>

definition canon_varint :: "string \<Rightarrow> bool" where
  "canon_varint p = (case varint_dec 10 p of None \<Rightarrow> False | Some (v, n) \<Rightarrow> v < 2 ^ 64 \<and> p = varint v)"

definition canon_delimited :: "string \<Rightarrow> bool" where
  "canon_delimited p = (case varint_dec 5 p of None \<Rightarrow> False
     | Some (k, n) \<Rightarrow> k < pb_max \<and> p = varint k @ drop n p \<and> length (drop n p) = k)"

definition unknown_ok :: "uint32 \<times> string \<Rightarrow> bool" where
  "unknown_ok f = (case f of (t, p) \<Rightarrow>
     8 \<le> unat t \<and>
     (t AND 7 = 0 \<and> canon_varint p \<or>
      t AND 7 = 1 \<and> length p = 8 \<or>
      t AND 7 = 2 \<and> canon_delimited p \<or>
      t AND 7 = 5 \<and> length p = 4))"

lemma canon_varint_iff: "canon_varint p \<longleftrightarrow> (\<exists>v :: uint64. p = varint (unat v))"
proof
  assume "canon_varint p"
  then obtain v where "v < 2 ^ 64" "p = varint v" by (auto simp: canon_varint_def split: option.splits)
  then show "\<exists>v :: uint64. p = varint (unat v)" by (intro exI [of _ "of_nat v"]) (simp add: unat_of_nat_small)
next
  assume "\<exists>v :: uint64. p = varint (unat v)"
  then obtain v :: uint64 where p: "p = varint (unat v)" ..
  show "canon_varint p" using varint_dec_u64 [of v "[]"] unat_bound [of v] by (simp add: canon_varint_def p)
qed

lemma canon_varint_unat: "canon_varint (varint (unat (v :: uint64)))"
  by (auto simp: canon_varint_iff)

lemma canon_delimited_iff: "canon_delimited p \<longleftrightarrow> (\<exists>q. length q < pb_max \<and> p = varint (length q) @ q)"
proof
  assume "canon_delimited p"
  then obtain k n where "k < pb_max" "p = varint k @ drop n p" "length (drop n p) = k"
    by (auto simp: canon_delimited_def split: option.splits)
  then show "\<exists>q. length q < pb_max \<and> p = varint (length q) @ q"
    by (intro exI [of _ "drop n p"]) simp
next
  assume "\<exists>q. length q < pb_max \<and> p = varint (length q) @ q"
  then obtain q where q: "length q < pb_max" "p = varint (length q) @ q" by blast
  then show "canon_delimited p"
    using varint_dec_varint [of 5 "length q" q] by (simp add: canon_delimited_def pb_max_def)
qed

definition wire_rt :: pb_rt where
  "wire_rt = \<lparr>
     rt_ReadTag = (\<lambda>s. map_option (\<lambda>(v, n). (of_nat v, n - 1)) (varint_dec 5 s)),
     rt_ReadVarint32 = (\<lambda>s. map_option (\<lambda>(v, n). (of_nat v, n)) (varint_dec 10 s)),
     rt_ReadVarint64 = (\<lambda>s. map_option (\<lambda>(v, n). (of_nat v, n)) (varint_dec 10 s)),
     rt_ReadDelimited = wire_delimited,
     rt_VerifyUTF8 = utf8_valid,
     rt_field_ok = unknown_ok,
     rt_UnknownFieldParse = wire_unknown,
     rt_WriteInt32ToArray = (\<lambda>f v. varint (f * 8) @ varint (unat (sext v))),
     rt_WriteUInt32ToArray = (\<lambda>f v. varint (f * 8) @ varint (unat v)),
     rt_WriteInt64ToArray = (\<lambda>f v. varint (f * 8) @ varint (unat v)),
     rt_WriteUInt64ToArray = (\<lambda>f v. varint (f * 8) @ varint (unat v)),
     rt_WriteEnumToArray = (\<lambda>f v. varint (f * 8) @ varint (unat (sext v))),
     rt_WriteBytesMaybeAliased = (\<lambda>f p. varint (f * 8 + 2) @ varint (length p) @ p),
     rt_WriteStringMaybeAliased = (\<lambda>f p. varint (f * 8 + 2) @ varint (length p) @ p),
     rt_InternalWriteMessage = (\<lambda>f p n. varint (f * 8 + 2) @ varint n @ p),
     rt_SerializeUnknownFields = unknown_bytes,
     rt_Int32SizePlusOne = (\<lambda>v. Suc (length (varint (unat (sext v))))),
     rt_UInt32SizePlusOne = (\<lambda>v. Suc (length (varint (unat v)))),
     rt_Int64SizePlusOne = (\<lambda>v. Suc (length (varint (unat v)))),
     rt_UInt64SizePlusOne = (\<lambda>v. Suc (length (varint (unat v)))),
     rt_EnumSize = (\<lambda>v. length (varint (unat (sext v)))),
     rt_BytesSize = (\<lambda>p. length (varint (length p)) + length p),
     rt_StringSize = (\<lambda>p. length (varint (length p)) + length p),
     rt_MessageSize = (\<lambda>n. length (varint n) + n),
     rt_UnknownFieldsSize = (\<lambda>u. length (unknown_bytes u))\<rparr>"

lemma wire_delimited_varint:
  "length p < pb_max \<Longrightarrow> wire_delimited (varint (length p) @ p @ r) = Some (p, length (varint (length p)) + length p)"
  using varint_dec_varint [of 5 "length p" "p @ r"] by (simp add: wire_delimited_def pb_max_def)

lemma wire_unknown_ok: "unknown_ok (t, p) \<Longrightarrow> wire_unknown t u (p @ r) = Some (u @ [(t, p)], length p)"
  by (auto simp: unknown_ok_def canon_varint_iff canon_delimited_iff wire_unknown_def varint_dec_u64
      wire_delimited_varint)

lemma wire_unknown_result:
  "wire_unknown t u s = Some (u', n) \<Longrightarrow> \<exists>p. u' = u @ [(t, p)] \<and> unknown_ok (t, p)"
  by (force simp: unknown_ok_def canon_varint_iff canon_delimited_iff wire_unknown_def wire_delimited_def
      split: if_splits option.splits)

lemma unknown_ok_tag: "unknown_ok (t, p) \<Longrightarrow> t \<noteq> 0 \<and> t AND 7 \<noteq> 4"
  by (auto simp: unknown_ok_def)

interpretation wire: pb_runtime wire_rt
  by unfold_locales
    (simp_all add: wire_rt_def varint_dec_u32 varint_dec_u64 wire_delimited_varint wire_unknown_ok wire_unknown_result
      unknown_ok_tag
      utf8_valid_ascii)

end
