(* ===== verification/PbProps.thy ===== *)
theory PbProps
  imports PbMq PbRef
begin

text \<open>
  The properties of the message codec, stated for any runtime that satisfies \<open>pb_runtime\<close> and
  witnessed on \<open>wire_rt\<close>.
\<close>

text \<open>A text message of user 7 to user 9 with one unknown varint field, and its answer.\<close>

definition ex_req :: ProtoReq where
  "ex_req = \<lparr>ProtoReq_type = TypeFriendMsg, ProtoReq_version = 0, ProtoReq_from_uid = 7, ProtoReq_to_id = 9,
     ProtoReq_data = kFmsg \<lparr>FriendMsg_type = 1, FriendMsg_content = ''hi'', FriendMsg_unknown = []\<rparr>,
     ProtoReq_unknown = [(800, varint (unat (300 :: uint64)))]\<rparr>"

definition ex_resp :: ProtoResp where
  "ex_resp = \<lparr>ProtoResp_res = kTimestamp 1700000000000, ProtoResp_txt = kMsgid ''1700000000000_7_abcdEFGH'',
     ProtoResp_unknown = []\<rparr>"

definition ex_mq :: MqMessage where
  "ex_mq = \<lparr>MqMessage_origin_req_ptr = Some ex_req, MqMessage_handle_result_ptr = Some ex_resp, MqMessage_unknown = []\<rparr>"

definition ex_push :: PushReq where
  "ex_push = \<lparr>PushReq_message_ptr = Some ex_mq, PushReq_seq = 1, PushReq_to_uid = 9, PushReq_unknown = []\<rparr>"

lemma ex_req_wf: "ProtoReq_wf wire_rt ex_req"
  using canon_varint_unat [of 300]
  by (simp add: ex_req_def ProtoReq_wf_def ProtoReq_data_wf_def FriendMsg_wf_def unknowns_ok_def wire_rt_def
      unknown_ok_def)

lemma ex_req_size: "ProtoReq_ByteSizeLong wire_rt ex_req < pb_max"
  by (simp add: ProtoReq_ByteSizeLong_def ProtoReq_data_size_def FriendMsg_ByteSizeLong_def ex_req_def wire_rt_def
      sext_def varint.simps pb_max_def)

lemma ex_req_bytes: "ProtoReq_ParseFromArray wire_rt (ProtoReq_InternalSerialize wire_rt ex_req) = Some ex_req"
  using pb_runtime.ProtoReq_roundtrip [OF wire.pb_runtime_axioms ex_req_wf ex_req_size]
  by (simp add: ProtoReq_ParseFromArray_def)

lemma ex_mq_wf: "MqMessage_wf wire_rt ex_mq"
  using ex_req_wf by (simp add: ex_mq_def ex_resp_def MqMessage_wf_def ProtoResp_wf_def wire_rt_def)

lemma ex_push_wf: "PushReq_wf wire_rt ex_push"
  using ex_mq_wf by (simp add: ex_push_def PushReq_wf_def)

lemma ex_mq_size: "MqMessage_ByteSizeLong wire_rt ex_mq < pb_max"
  by (simp add: MqMessage_ByteSizeLong_def ProtoReq_ByteSizeLong_def ProtoReq_data_size_def FriendMsg_ByteSizeLong_def
      ProtoResp_ByteSizeLong_def ex_mq_def ex_req_def ex_resp_def wire_rt_def sext_def varint.simps pb_max_def)

lemma ex_push_size: "PushReq_ByteSizeLong wire_rt ex_push < pb_max"
  by (simp add: PushReq_ByteSizeLong_def MqMessage_ByteSizeLong_def ProtoReq_ByteSizeLong_def ProtoReq_data_size_def
      FriendMsg_ByteSizeLong_def ProtoResp_ByteSizeLong_def ex_push_def ex_mq_def ex_req_def ex_resp_def wire_rt_def
      sext_def varint.simps pb_max_def)

lemma at_limit_Some: "at_limit r = Some m \<longleftrightarrow> r = AtLimit m"
  by (auto simp: at_limit_def split: pres.splits)

text \<open>C13. The payload the logic server writes to Kafka is decoded by the transfer servers to exactly the
  message that was encoded: request, answer, oneof members and unknown fields included.\<close>

theorem mq_message_roundtrip:
  assumes "pb_runtime rt" and "MqMessage_wf rt m" and "MqMessage_ByteSizeLong rt m < pb_max"
  shows "MqMessage_ParseFromArray rt (MqMessage_InternalSerialize rt m) = Some m"
  using pb_runtime.MqMessage_roundtrip [OF assms] by (simp add: MqMessage_ParseFromArray_def)

theorem mq_message_roundtrip_witness:
  "MqMessage_ParseFromArray wire_rt (MqMessage_InternalSerialize wire_rt ex_mq) = Some ex_mq"
  by (rule mq_message_roundtrip [OF wire.pb_runtime_axioms ex_mq_wf ex_mq_size])

text \<open>C14. Writing two messages one after the other and parsing the whole is merging the second into the first, field by field and
  through all levels: \<open>MergeImpl\<close> and \<open>_InternalParse\<close>, which the compiler generates separately, agree.\<close>

theorem concatenation_merges:
  assumes "pb_runtime rt" and "MqMessage_wf rt a" and "MqMessage_ByteSizeLong rt a < pb_max"
    and "MqMessage_wf rt b" and "MqMessage_ByteSizeLong rt b < pb_max"
  shows "MqMessage_ParseFromArray rt (MqMessage_InternalSerialize rt a @ MqMessage_InternalSerialize rt b) =
    Some (MqMessage_MergeImpl a b)"
  using pb_runtime.MqMessage_parse_merge [OF assms(1-3), of MqMessage_default "MqMessage_InternalSerialize rt b"]
    pb_runtime.MqMessage_parse_merge [OF assms(1,4,5), of a "[]"]
  by (simp add: MqMessage_ParseFromArray_def)

theorem concatenation_merges_witness:
  "MqMessage_ParseFromArray wire_rt (MqMessage_InternalSerialize wire_rt ex_mq @ MqMessage_InternalSerialize wire_rt ex_mq) =
     Some (MqMessage_MergeImpl ex_mq ex_mq)"
  by (rule concatenation_merges [OF wire.pb_runtime_axioms ex_mq_wf ex_mq_size ex_mq_wf ex_mq_size])

text \<open>The push request decodes to what was encoded, with the receiver and the sequence number.\<close>

theorem push_req_roundtrip:
  assumes "pb_runtime rt" and "PushReq_wf rt m" and "PushReq_ByteSizeLong rt m < pb_max"
  shows "PushReq_ParseFromArray rt (PushReq_InternalSerialize rt m) = Some m"
  using pb_runtime.PushReq_roundtrip [OF assms] by (simp add: PushReq_ParseFromArray_def)

theorem push_req_roundtrip_witness:
  "PushReq_ParseFromArray wire_rt (PushReq_InternalSerialize wire_rt ex_push) = Some ex_push"
  by (rule push_req_roundtrip [OF wire.pb_runtime_axioms ex_push_wf ex_push_size])

text \<open>Whatever bytes a client sends: if they parse as a request, the parsed request (unknown fields
  included) survives being written and parsed again.\<close>

theorem proto_req_reserialize:
  assumes "pb_runtime rt" and "ProtoReq_ParseFromArray rt s = Some m" and "ProtoReq_ByteSizeLong rt m < pb_max"
  shows "ProtoReq_ParseFromArray rt (ProtoReq_InternalSerialize rt m) = Some m"
proof -
  have "ProtoReq_InternalParse rt ProtoReq_default s = AtLimit m"
    using assms(2) by (auto simp: ProtoReq_ParseFromArray_def at_limit_def split: pres.splits)
  then have "ProtoReq_wf rt m"
    using pb_runtime.ProtoReq_parse_wf [OF assms(1) pb_runtime.ProtoReq_default_wf [OF assms(1)]] by blast
  from pb_runtime.ProtoReq_roundtrip [OF assms(1) this assms(3)] show ?thesis
    by (simp add: ProtoReq_ParseFromArray_def)
qed

text \<open>A request with a non-canonical varint and an unknown field: type 3 in two bytes, field 100 = 1.\<close>

definition ex_bytes :: string where
  "ex_bytes = map char_of [8 :: nat, 131, 0, 24, 7, 160, 6, 1]"

lemma ex_bytes_parse: "ProtoReq_ParseFromArray wire_rt ex_bytes =
  Some (ProtoReq_default\<lparr>ProtoReq_type := 3, ProtoReq_from_uid := 7, ProtoReq_unknown := [(800, varint 1)]\<rparr>)"
  by (simp add: ex_bytes_def ProtoReq_ParseFromArray_def ProtoReq_InternalParse_def pb_loop.simps ProtoReq_field_def
      expect_def wire_rt_def ProtoReq_default_def wire_unknown_def)

theorem proto_req_reserialize_witness:
  "\<exists>m. ProtoReq_ParseFromArray wire_rt ex_bytes = Some m \<and>
     ProtoReq_ParseFromArray wire_rt (ProtoReq_InternalSerialize wire_rt m) = Some m"
proof -
  have "ProtoReq_ByteSizeLong wire_rt (ProtoReq_default
      \<lparr>ProtoReq_type := 3, ProtoReq_from_uid := 7, ProtoReq_unknown := [(800, varint 1)]\<rparr>) < pb_max"
    by (simp add: ProtoReq_ByteSizeLong_def ProtoReq_data_size_def ProtoReq_default_def wire_rt_def varint.simps
        sext_def pb_max_def)
  from proto_req_reserialize [OF wire.pb_runtime_axioms ex_bytes_parse this] ex_bytes_parse show ?thesis by blast
qed

text \<open>C22. Whatever bytes arrive: what a parser returns is well formed at every level. Its strings are valid UTF-8, at
  most one member of each oneof is set and that member is well formed, and its unknown fields are none of the known ones.\<close>

theorem parsed_messages_wf:
  assumes "pb_runtime rt"
  shows "(PushReq_ParseFromArray rt s = Some p \<longrightarrow> PushReq_wf rt p) \<and> (MqMessage_ParseFromArray rt s = Some m \<longrightarrow> MqMessage_wf rt m) \<and>
    (ProtoReq_ParseFromArray rt s = Some q \<longrightarrow> ProtoReq_wf rt q) \<and> (ProtoResp_ParseFromArray rt s = Some r \<longrightarrow> ProtoResp_wf rt r)"
  using pb_runtime.PushReq_parse_wf [OF assms pb_runtime.PushReq_default_wf [OF assms]]
    pb_runtime.MqMessage_parse_wf [OF assms pb_runtime.MqMessage_default_wf [OF assms]]
    pb_runtime.ProtoReq_parse_wf [OF assms pb_runtime.ProtoReq_default_wf [OF assms]]
    pb_runtime.ProtoResp_parse_wf [OF assms pb_runtime.ProtoResp_default_wf [OF assms]]
  by (simp add: at_limit_Some PushReq_ParseFromArray_def MqMessage_ParseFromArray_def ProtoReq_ParseFromArray_def
      ProtoResp_ParseFromArray_def)

theorem parsed_messages_wf_witness:
  "\<exists>q. ProtoReq_ParseFromArray wire_rt ex_bytes = Some q \<and> ProtoReq_unknown q \<noteq> [] \<and> ProtoReq_wf wire_rt q"
proof -
  have u: "[(800, varint 1)] \<noteq> ([] :: (uint32 \<times> string) list)" by simp
  from parsed_messages_wf [OF wire.pb_runtime_axioms] ex_bytes_parse
  show ?thesis by (intro exI conjI) (assumption, use u in simp, blast)
qed

end
