(* ===== verification/TokenVerify.thy ===== *)
theory TokenVerify
  imports Prelude
begin

text \<open>
  \<open>include/token_verify.h\<close>: \<open>Split\<close> on a delimiter, the \<open>TokenVerifier\<close> class and
  \<open>MakeTokenVerifier\<close>. \<open>exit(1)\<close> is the error value \<open>Exit1\<close>. A \<open>std::string_view\<close> is the string it
  denotes, \<open>std::unordered_set<std::string>\<close> a set of strings. The lemmas relate \<open>Split\<close> to joining
  with the delimiter and describe the accepted tokens without mentioning \<open>Split\<close>.
\<close>

datatype exit_code = Exit1

section \<open>Definitions\<close>

text \<open>\<open>std::string_view::find\<close>: the first position where \<open>d\<close> occurs; \<open>None\<close> is \<open>npos\<close>.\<close>

fun sv_find :: "string \<Rightarrow> string \<Rightarrow> nat option" where
  "sv_find [] d = (if d = [] then Some 0 else None)"
| "sv_find (a # s) d = (if take (length d) (a # s) = d then Some 0 else map_option Suc (sv_find s d))"

text \<open>The loop of \<open>Split\<close>; the delimiter is known to be non-empty there, \<open>c # ds\<close>.\<close>

function split_loop :: "char \<Rightarrow> string \<Rightarrow> bool \<Rightarrow> string \<Rightarrow> string list" where
  "split_loop c ds keep_empty cur =
     (case sv_find cur (c # ds) of
        None \<Rightarrow> [cur]
      | Some pos \<Rightarrow>
          (if pos \<noteq> 0 \<or> keep_empty then [take pos cur] else []) @
          (let cur' = drop (pos + length (c # ds)) cur in
           if cur' = [] then (if keep_empty then [''''] else [])
           else split_loop c ds keep_empty cur'))"
  by pat_completeness auto

definition Split :: "string \<Rightarrow> string \<Rightarrow> bool \<Rightarrow> exit_code + string list" where
  "Split s delim keep_empty =
     (if s = [] then Inr []
      else case delim of
        [] \<Rightarrow> Inl Exit1
      | c # ds \<Rightarrow> Inr (split_loop c ds keep_empty s))"

definition Split_char :: "string \<Rightarrow> char \<Rightarrow> bool \<Rightarrow> exit_code + string list" where
  "Split_char s delim keep_empty = Split s [delim] keep_empty"

record TokenVerifier =
  recognized_tokens :: "string set"

definition Verify :: "TokenVerifier \<Rightarrow> string \<Rightarrow> bool" where
  "Verify v token \<longleftrightarrow> token \<in> recognized_tokens v"

definition MakeTokenVerifier :: "string \<Rightarrow> exit_code + TokenVerifier" where
  "MakeTokenVerifier str =
     (if str = [] then Inl Exit1
      else case Split_char str (CHR '','') True of
        Inl e \<Rightarrow> Inl e
      | Inr tokens \<Rightarrow> Inr \<lparr>recognized_tokens = set tokens\<rparr>)"

section \<open>Finding the delimiter\<close>

lemma sv_find_Some: "sv_find s d = Some p \<Longrightarrow> s = take p s @ d @ drop (p + length d) s \<and> p \<le> length s"
proof (induction s d arbitrary: p rule: sv_find.induct)
  case (1 d)
  then show ?case by (simp split: if_splits)
next
  case (2 a s d)
  show ?case
  proof (cases "take (length d) (a # s) = d")
    case True
    with "2.prems" have "p = 0" by simp
    then show ?thesis using True by (metis add_0 append.left_neutral append_take_drop_id take0 zero_le)
  next
    case False
    with 2 show ?thesis by auto
  qed
qed

lemma sv_find_shorter: "sv_find s (c # ds) = Some p \<Longrightarrow> length (drop (p + length (c # ds)) s) < length s"
  by (drule sv_find_Some) (cases s; auto)

termination split_loop
  by (relation "measure (\<lambda>(c, ds, keep, cur). length cur)") (use sv_find_shorter in auto)

declare split_loop.simps [simp del]

lemma sv_find_None_char: "sv_find s [c] = None \<longleftrightarrow> c \<notin> set s"
  by (induction s) auto

lemma sv_find_Some_char: "sv_find s [c] = Some p \<Longrightarrow> c \<notin> set (take p s)"
proof (induction s arbitrary: p)
  case (Cons a s)
  then show ?case by (cases "a = c") auto
qed simp

section \<open>Splitting and joining\<close>

fun join :: "string \<Rightarrow> string list \<Rightarrow> string" where
  "join d [] = []"
| "join d [x] = x"
| "join d (x # y # xs) = x @ d @ join d (y # xs)"

lemma join_Cons: "xs \<noteq> [] \<Longrightarrow> join d (x # xs) = x @ d @ join d xs"
  by (cases xs) auto

lemma split_loop_keep_nonempty: "split_loop c ds True cur \<noteq> []"
  by (subst split_loop.simps) (simp split: option.split)

lemma split_loop_join: "join (c # ds) (split_loop c ds True cur) = cur"
proof (induction c ds True cur rule: split_loop.induct)
  case (1 c ds cur)
  show ?case
  proof (cases "sv_find cur (c # ds)")
    case None
    then show ?thesis by (simp add: split_loop.simps [of c ds True cur])
  next
    case (Some p)
    let ?r = "drop (p + length (c # ds)) cur"
    have cur: "cur = take p cur @ (c # ds) @ ?r" using sv_find_Some [OF Some] by simp
    show ?thesis
    proof (cases "?r = []")
      case True
      then show ?thesis using Some cur by (simp add: split_loop.simps [of c ds True cur])
    next
      case False
      then have "split_loop c ds True cur = take p cur # split_loop c ds True ?r"
        using Some by (simp add: split_loop.simps [of c ds True cur])
      moreover have "join (c # ds) (split_loop c ds True ?r) = ?r"
        using "1"(1) [OF Some refl] False by simp
      ultimately show ?thesis using cur by (simp add: join_Cons split_loop_keep_nonempty)
    qed
  qed
qed

lemma split_loop_filter:
  "cur \<noteq> [] \<Longrightarrow> split_loop c ds False cur = filter (\<lambda>x. x \<noteq> []) (split_loop c ds True cur)"
proof (induction c ds False cur rule: split_loop.induct)
  case (1 c ds cur)
  show ?case
  proof (cases "sv_find cur (c # ds)")
    case None
    then show ?thesis using "1.prems"
      by (simp add: split_loop.simps [of c ds True cur] split_loop.simps [of c ds False cur])
  next
    case (Some p)
    let ?r = "drop (p + length (c # ds)) cur"
    have first: "take p cur = [] \<longleftrightarrow> p = 0" using "1.prems" by simp
    show ?thesis
    proof (cases "?r = []")
      case True
      then show ?thesis using Some first
        by (simp add: split_loop.simps [of c ds True cur] split_loop.simps [of c ds False cur])
    next
      case False
      then show ?thesis using Some first "1"(1) [OF Some refl]
        by (simp add: split_loop.simps [of c ds True cur] split_loop.simps [of c ds False cur])
    qed
  qed
qed

section \<open>The fields of a string with a one-character delimiter\<close>

text \<open>\<open>t\<close> stands between two delimiters (or ends) of \<open>s\<close> and contains none.\<close>

definition field_of :: "char \<Rightarrow> string \<Rightarrow> string \<Rightarrow> bool" where
  "field_of c s t \<longleftrightarrow> c \<notin> set t \<and>
     (\<exists>pre post. s = pre @ t @ post \<and> (pre = [] \<or> last pre = c) \<and> (post = [] \<or> hd post = c))"

lemma first_delim_unique:
  "c \<notin> set a \<Longrightarrow> c \<notin> set a' \<Longrightarrow> a @ c # b = a' @ c # b' \<longleftrightarrow> a = a' \<and> b = b'"
proof (induction a arbitrary: a')
  case Nil
  then show ?case by (cases a') auto
next
  case (Cons x a)
  then show ?case by (cases a') auto
qed

lemma field_of_free: "c \<notin> set s \<Longrightarrow> field_of c s t \<longleftrightarrow> t = s"
  by (auto simp: field_of_def) (metis append.right_neutral append_Nil hd_in_set last_in_set)+

lemma field_of_split:
  assumes "c \<notin> set a"
  shows "field_of c (a @ c # b) t \<longleftrightarrow> t = a \<or> field_of c b t"
proof
  assume "field_of c (a @ c # b) t"
  then obtain pre post where t: "c \<notin> set t" and eq: "a @ c # b = pre @ t @ post"
    and pre: "pre = [] \<or> last pre = c" and post: "post = [] \<or> hd post = c"
    by (auto simp: field_of_def)
  show "t = a \<or> field_of c b t"
  proof (cases pre)
    case Nil
    then obtain post' where "post = c # post'" using eq t post
      by (cases post) (auto simp: append_eq_append_conv2 Cons_eq_append_conv)
    then have "t = a" using eq Nil t assms
      by (simp add: first_delim_unique)
    then show ?thesis ..
  next
    case (Cons p ps)
    then obtain us where us: "pre = us @ [c]" using pre by (metis append_butlast_last_id list.distinct(1))
    then have "a @ c # b = us @ c # (t @ post)" using eq by simp
    then obtain vs where "b = vs @ t @ post" "vs = [] \<or> last vs = c"
    proof (cases "c \<in> set us")
      case True
      then obtain ys zs where "us = ys @ c # zs" "c \<notin> set ys" by (meson split_list_first)
      then have "b = (zs @ [c]) @ t @ post"
        using \<open>a @ c # b = us @ c # (t @ post)\<close> assms by (simp add: first_delim_unique)
      then show ?thesis using that by auto
    next
      case False
      then have "b = t @ post" using \<open>a @ c # b = us @ c # (t @ post)\<close> assms by (simp add: first_delim_unique)
      then show ?thesis using that [of "[]"] by simp
    qed
    then show ?thesis using t post by (auto simp: field_of_def)
  qed
next
  assume "t = a \<or> field_of c b t"
  then show "field_of c (a @ c # b) t"
  proof
    assume "t = a"
    then show ?thesis using assms by (auto simp: field_of_def intro: exI [of _ "[]"])
  next
    assume "field_of c b t"
    then obtain pre post where "c \<notin> set t" "b = pre @ t @ post" "pre = [] \<or> last pre = c" "post = [] \<or> hd post = c"
      by (auto simp: field_of_def)
    then show ?thesis unfolding field_of_def
      by (intro conjI exI [of _ "a @ c # pre"] exI [of _ post]) auto
  qed
qed

lemma split_loop_fields: "t \<in> set (split_loop c [] True cur) \<longleftrightarrow> field_of c cur t"
proof (induction c "[] :: string" True cur rule: split_loop.induct)
  case (1 c cur)
  show ?case
  proof (cases "sv_find cur [c]")
    case None
    then have "split_loop c [] True cur = [cur]" "c \<notin> set cur"
      by (simp_all add: split_loop.simps [of c "[]" True cur] flip: sv_find_None_char)
    then show ?thesis by (simp add: field_of_free)
  next
    case (Some p)
    let ?r = "drop (Suc p) cur"
    have cur: "cur = take p cur @ c # ?r" using sv_find_Some [OF Some] by simp
    have free: "c \<notin> set (take p cur)" by (rule sv_find_Some_char [OF Some])
    have "t \<in> set (split_loop c [] True cur) \<longleftrightarrow> t = take p cur \<or> field_of c ?r t"
    proof (cases "?r = []")
      case True
      then show ?thesis using Some field_of_free [of c "[]" t] by (simp add: split_loop.simps [of c "[]" True cur])
    next
      case False
      then show ?thesis using Some "1"(1) [OF Some refl] by (simp add: split_loop.simps [of c "[]" True cur])
    qed
    then show ?thesis using field_of_split [OF free, of ?r t] cur by simp
  qed
qed

text \<open>\<open>Split\<close> is total for a non-empty delimiter: with \<open>keep_empty\<close> the parts joined by the delimiter
  are the input, and without it exactly the non-empty of these parts are returned.\<close>

theorem Split_parts:
  assumes "s \<noteq> []" and "delim \<noteq> []"
  shows "\<exists>parts. Split s delim True = Inr parts \<and> join delim parts = s \<and>
           Split s delim False = Inr (filter (\<lambda>x. x \<noteq> []) parts)"
  using assms by (cases delim) (auto simp: Split_def split_loop_join split_loop_filter)

theorem Split_parts_witness:
  "\<exists>parts. Split ''a||b|'' ''|'' True = Inr parts \<and> join ''|'' parts = ''a||b|'' \<and>
           Split ''a||b|'' ''|'' False = Inr (filter (\<lambda>x. x \<noteq> []) parts)"
  by (rule Split_parts) simp_all

text \<open>C40. A verifier built from a token list accepts exactly the comma-separated fields of the list; the
  empty list is refused.\<close>

theorem MakeTokenVerifier_accepts:
  "MakeTokenVerifier str =
     (if str = [] then Inl Exit1 else Inr \<lparr>recognized_tokens = {t. field_of (CHR '','') str t}\<rparr>)"
proof (cases "str = []")
  case False
  then show ?thesis
    by (auto simp: MakeTokenVerifier_def Split_char_def Split_def split_loop_fields set_eq_iff)
qed (simp add: MakeTokenVerifier_def)

end
