(* ===== verification/ConnPool.thy ===== *)
theory ConnPool
  imports Prelude "HOL-Library.Multiset"
begin

text \<open>
  \<open>include/connection_pool.h\<close>: the mutex-protected pool of connections. Each operation runs under the
  mutex, so it is one atomic function of the pool's state; a connection is a \<open>unique_ptr\<close>, \<open>None\<close> being
  the null pointer. \<open>Acquire\<close> is \<open>None\<close> as long as its condition variable keeps the caller waiting.
  The interface \<open>lending_pool\<close> is what a client may rely on, and \<open>pool_step\<close> is every interleaving of
  clients that acquire, give back or destroy connections.
\<close>

section \<open>Definitions\<close>

record 'c ConnectionPool =
  pool :: "'c option list"
  is_stop :: bool

definition Acquire :: "'c ConnectionPool \<Rightarrow> ('c option \<times> 'c ConnectionPool) option" where
  "Acquire p =
     (if \<not> (is_stop p \<or> pool p \<noteq> []) then None
      else if is_stop p then Some (None, p)
      else Some (hd (pool p), p\<lparr>pool := tl (pool p)\<rparr>))"

definition Release :: "'c ConnectionPool \<Rightarrow> 'c option \<Rightarrow> 'c ConnectionPool" where
  "Release p conn = p\<lparr>pool := pool p @ [conn]\<rparr>"

text \<open>The loop at the end of \<open>Shutdown\<close>.\<close>

fun pop_all :: "'c option list \<Rightarrow> 'c option list" where
  "pop_all [] = []"
| "pop_all (c # cs) = pop_all cs"

definition Shutdown :: "'c ConnectionPool \<Rightarrow> 'c ConnectionPool" where
  "Shutdown p =
     (if is_stop p then p
      else let p' = p\<lparr>is_stop := True\<rparr> in p'\<lparr>pool := pop_all (pool p')\<rparr>)"

text \<open>What the pool owns: the non-null connections in its queue.\<close>

definition owned :: "'c ConnectionPool \<Rightarrow> 'c multiset" where
  "owned p = mset (List.map_filter id (pool p))"

lemma pop_all_Nil [simp]: "pop_all cs = []"
  by (induction cs) auto

lemma owned_stop [simp]: "owned (p\<lparr>is_stop := b\<rparr>) = owned p"
  by (simp add: owned_def)

section \<open>The interface of a pool that lends connections\<close>

text \<open>\<open>acq\<close> and \<open>rel\<close> are the calls, \<open>own\<close> what the pool holds and \<open>live\<close> whether it still lends.\<close>

locale lending_pool =
  fixes acq :: "'p \<Rightarrow> ('c option \<times> 'p) option"
    and rel :: "'p \<Rightarrow> 'c option \<Rightarrow> 'p"
    and own :: "'p \<Rightarrow> 'c multiset"
    and live :: "'p \<Rightarrow> bool"
  assumes acq_takes: "acq p = Some (Some c, p') \<Longrightarrow> own p = add_mset c (own p') \<and> live p' = live p"
    and acq_null: "acq p = Some (None, p') \<Longrightarrow> own p' = own p \<and> live p' = live p"
    and acq_ready: "live p \<Longrightarrow> own p \<noteq> {#} \<Longrightarrow> \<exists>d p'. acq p = Some (d, p')"
    and acq_dead: "\<not> live p \<Longrightarrow> acq p = Some (None, p)"
    and rel_gives: "own (rel p (Some c)) = add_mset c (own p)"
    and rel_null: "own (rel p None) = own p"
    and rel_live: "live (rel p d) = live p"
begin

text \<open>A client that gives back what it took leaves the pool owning what it owned before.\<close>

lemma take_and_return: "acq p = Some (c, p') \<Longrightarrow> own (rel p' c) = own p"
  using acq_takes acq_null rel_gives rel_null by (cases c) fastforce+

text \<open>A client that takes a connection and drops it drains the pool by that connection.\<close>

lemma take_and_drop: "acq p = Some (Some c, p') \<Longrightarrow> size (own p) = Suc (size (own p'))"
  using acq_takes by simp

text \<open>Giving a connection back to a live pool lets a waiting client through.\<close>

lemma return_unblocks: "live p \<Longrightarrow> \<exists>d p'. acq (rel p (Some c)) = Some (d, p')"
  by (rule acq_ready) (simp_all add: rel_live rel_gives)

end

lemma owned_Cons: "pool p = c # cs \<Longrightarrow>
    owned p = (case c of None \<Rightarrow> {#} | Some x \<Rightarrow> {#x#}) + owned (p\<lparr>pool := cs\<rparr>)"
  by (simp add: owned_def map_filter_simps split: option.split)

lemma owned_Release: "owned (Release p c) = owned p + (case c of None \<Rightarrow> {#} | Some x \<Rightarrow> {#x#})"
  by (cases c) (simp_all add: owned_def Release_def map_filter_def)

lemma Acquire_SomeD:
  assumes "Acquire p = Some (c, p')"
  shows "is_stop p \<and> c = None \<and> p' = p \<or>
         \<not> is_stop p \<and> pool p = c # pool p' \<and> p' = p\<lparr>pool := pool p'\<rparr>"
  using assms by (cases "pool p") (auto simp: Acquire_def split: if_splits)

interpretation cp: lending_pool Acquire Release owned "\<lambda>p. \<not> is_stop p"
proof unfold_locales
  fix p p' :: "'c ConnectionPool" and c
  assume "Acquire p = Some (Some c, p')"
  from Acquire_SomeD [OF this]
  have "\<not> is_stop p" "pool p = Some c # pool p'" "p' = p\<lparr>pool := pool p'\<rparr>" by auto
  then show "owned p = add_mset c (owned p') \<and> (\<not> is_stop p') = (\<not> is_stop p)"
    using owned_Cons [of p "Some c" "pool p'"] by (metis (no_types, lifting) ConnectionPool.ext_inject
        ConnectionPool.surjective ConnectionPool.update_convs(1) add_mset_add_single option.simps(5) union_commute)
next
  fix p p' :: "'c ConnectionPool"
  assume "Acquire p = Some (None, p')"
  from Acquire_SomeD [OF this] show "owned p' = owned p \<and> (\<not> is_stop p') = (\<not> is_stop p)"
  proof
    assume *: "\<not> is_stop p \<and> pool p = None # pool p' \<and> p' = p\<lparr>pool := pool p'\<rparr>"
    then have "owned p = owned (p\<lparr>pool := pool p'\<rparr>)" using owned_Cons [of p None "pool p'"] by simp
    with * show ?thesis by (metis ConnectionPool.select_convs(2) ConnectionPool.surjective ConnectionPool.update_convs(1))
  qed simp
next
  fix p :: "'c ConnectionPool"
  assume "\<not> is_stop p" "owned p \<noteq> {#}"
  then have "pool p \<noteq> []" by (auto simp: owned_def map_filter_simps)
  with \<open>\<not> is_stop p\<close> show "\<exists>c p'. Acquire p = Some (c, p')" by (auto simp: Acquire_def)
next
  fix p :: "'c ConnectionPool"
  assume "\<not> \<not> is_stop p"
  then show "Acquire p = Some (None, p)" by (simp add: Acquire_def)
next
  fix p :: "'c ConnectionPool" and d
  show "(\<not> is_stop (Release p d)) = (\<not> is_stop p)" by (simp add: Release_def)
qed (simp_all add: owned_Release)

section \<open>Pools that hold no null pointer\<close>

text \<open>A pool that lends, with only real connections in its queue. Its clients are never handed a null pointer.\<close>

definition pool_live :: "'c ConnectionPool \<Rightarrow> bool" where
  "pool_live p \<longleftrightarrow> \<not> is_stop p \<and> None \<notin> set (pool p)"

lemma pool_live_Acquire:
  assumes "pool_live p"
  shows "pool p = [] \<and> Acquire p = None \<or>
    (\<exists>c cs. pool p = Some c # cs \<and> Acquire p = Some (Some c, p\<lparr>pool := cs\<rparr>) \<and> pool_live (p\<lparr>pool := cs\<rparr>))"
proof (cases "pool p")
  case (Cons c cs)
  then obtain x where "c = Some x" using assms by (cases c) (auto simp: pool_live_def)
  then show ?thesis using assms Cons by (auto simp: pool_live_def Acquire_def)
qed (use assms in \<open>simp add: pool_live_def Acquire_def\<close>)

lemma pool_live_Release: "pool_live p \<Longrightarrow> pool_live (Release p (Some c))"
  by (simp add: pool_live_def Release_def)

section \<open>Clients of the pool\<close>

text \<open>A pool together with the connections its clients hold. \<open>ps_destroy\<close> is a client letting its
  \<open>unique_ptr\<close> go out of scope.\<close>

inductive pool_step :: "'c ConnectionPool \<times> 'c multiset \<Rightarrow> 'c ConnectionPool \<times> 'c multiset \<Rightarrow> bool" where
  ps_acquire: "Acquire p = Some (Some c, p') \<Longrightarrow> pool_step (p, h) (p', add_mset c h)"
| ps_null: "Acquire p = Some (None, p') \<Longrightarrow> pool_step (p, h) (p', h)"
| ps_release: "c \<in># h \<Longrightarrow> pool_step (p, h) (Release p (Some c), h - {#c#})"
| ps_destroy: "c \<in># h \<Longrightarrow> pool_step (p, h) (p, h - {#c#})"
| ps_shutdown: "pool_step (p, h) (Shutdown p, h)"

lemma pool_step_live:
  assumes "pool_step s t"
  shows "owned (fst t) + snd t \<subseteq># owned (fst s) + snd s"
  using assms
proof cases
  case (ps_acquire p c p' h)
  then show ?thesis using cp.acq_takes [of p c p'] by simp
next
  case (ps_null p p' h)
  then show ?thesis using cp.acq_null [of p p'] by simp
next
  case (ps_release c h p)
  then show ?thesis by (simp add: cp.rel_gives)
next
  case (ps_destroy c h p)
  then show ?thesis by simp
next
  case (ps_shutdown p h)
  then show ?thesis by (simp add: Shutdown_def owned_def Let_def map_filter_simps)
qed

lemma pool_steps_live:
  "pool_step\<^sup>*\<^sup>* s t \<Longrightarrow> owned (fst t) + snd t \<subseteq># owned (fst s) + snd s"
proof (induction rule: rtranclp_induct)
  case (step y z)
  then show ?case using pool_step_live subset_mset.order_trans by blast
qed simp

text \<open>C20. However clients interleave, a pool that starts with distinct connections never lends one
  connection to two holders, and never lends one that is still in its queue.\<close>

theorem pool_exclusive:
  assumes "pool_step\<^sup>*\<^sup>* (p, {#}) (q, h)" and "\<And>c. count (owned p) c \<le> 1"
  shows "count h c \<le> 1 \<and> (c \<in># h \<longrightarrow> c \<notin># owned q)"
proof -
  have "count (owned q + h) c \<le> count (owned p) c"
    using pool_steps_live [OF assms(1)] by (intro mset_subset_eq_count) simp
  then have "count (owned q) c + count h c \<le> 1" using assms(2) [of c] by simp
  then show ?thesis by (auto simp flip: count_greater_zero_iff)
qed

lemma one_lent: "pool_step\<^sup>*\<^sup>* (\<lparr>pool = [Some 5, Some 6], is_stop = False\<rparr>, {#})
    (\<lparr>pool = [Some 6], is_stop = False\<rparr>, {#5 :: nat#})"
  by (rule r_into_rtranclp, rule ps_acquire) (simp add: Acquire_def)

theorem pool_exclusive_witness:
  "count {#5 :: nat#} 5 \<le> 1 \<and> 5 \<notin># owned \<lparr>pool = [Some (6 :: nat)], is_stop = False\<rparr>"
proof -
  have "count (owned \<lparr>pool = [Some 5, Some (6 :: nat)], is_stop = False\<rparr>) d \<le> 1" for d
    by (simp add: owned_def map_filter_simps)
  from pool_exclusive [OF one_lent this, of 5] show ?thesis by simp
qed

section \<open>Filling a pool\<close>

text \<open>The loop of the constructors that derive from the pool: \<open>mk i\<close> says whether the \<open>i\<close>-th \<open>CreateConnection\<close> returns; when
  one does not (it exits or throws), the constructor does not either.\<close>

fun fill_pool :: "(nat \<Rightarrow> bool) \<Rightarrow> nat \<Rightarrow> nat ConnectionPool option" where
  "fill_pool mk 0 = Some \<lparr>pool = [], is_stop = False\<rparr>"
| "fill_pool mk (Suc i) =
     (case fill_pool mk i of
        None \<Rightarrow> None
      | Some p \<Rightarrow> if mk i then Some (p\<lparr>pool := pool p @ [Some i]\<rparr>) else None)"

lemma fill_pool_eq: "fill_pool mk n = (if \<forall>i < n. mk i then Some \<lparr>pool = map Some [0..<n], is_stop = False\<rparr> else None)"
  by (induction n) (auto simp: less_Suc_eq)

lemma fill_pool_live: "fill_pool mk n = Some p \<Longrightarrow> pool_live p \<and> length (pool p) = n"
  by (auto simp: fill_pool_eq pool_live_def split: if_splits)

text \<open>After \<open>Shutdown\<close> no client blocks and none is handed a connection, even one given back
  afterwards; \<open>Shutdown\<close> empties the queue and a second call changes nothing.\<close>

lemma shutdown_final:
  "Acquire (Release (Shutdown p) c) = Some (None, Release (Shutdown p) c) \<and>
   Acquire (Shutdown p) = Some (None, Shutdown p) \<and>
   Shutdown (Shutdown p) = Shutdown p \<and> (is_stop p \<or> pool (Shutdown p) = [])"
  by (simp add: Shutdown_def Acquire_def Release_def Let_def)

end
