(* ===== verification/ThreadPool.thy ===== *)
theory ThreadPool
  imports Prelude "HOL-Library.Multiset"
begin

text \<open>
  \<open>include/thread_pool.h\<close>: worker threads that take tasks from a queue. The state holds the source's
  queue and \<open>stop_\<close> flag, one program point per worker of the constructor's loop, and three ghost logs
  (\<open>accepted\<close>, \<open>started\<close>, \<open>finished\<close>). \<open>tp_step\<close> is every interleaving of calls of \<open>Enqueue\<close>, the two
  critical sections of a worker, and the destructor setting the flag; the destructor returns from its
  joins in the states where \<open>joined\<close> holds. Tasks are packaged tasks, so one that throws still finishes.
\<close>

section \<open>Definitions\<close>

datatype 't worker = Looping | Running 't | Exited

record 't ThreadPool =
  workers :: "'t worker list"
  tasks :: "'t list"
  stop :: bool
  accepted :: "'t list"
  started :: "'t list"
  finished :: "'t list"

datatype tp_error = EnqueueOnStopped

definition ThreadPool_new :: "nat \<Rightarrow> 't ThreadPool" where
  "ThreadPool_new threads =
     \<lparr>workers = replicate threads Looping, tasks = [], stop = False, accepted = [], started = [], finished = []\<rparr>"

definition Enqueue :: "'t ThreadPool \<Rightarrow> 't \<Rightarrow> tp_error + 't ThreadPool" where
  "Enqueue p t =
     (if stop p then Inl EnqueueOnStopped
      else Inr (p\<lparr>tasks := tasks p @ [t], accepted := accepted p @ [t]\<rparr>))"

text \<open>One pass of worker \<open>i\<close> through its critical section: \<open>None\<close> while it waits on the condition.\<close>

definition worker_take :: "'t ThreadPool \<Rightarrow> nat \<Rightarrow> 't ThreadPool option" where
  "worker_take p i =
     (if \<not> (stop p \<or> tasks p \<noteq> []) then None
      else if stop p \<and> tasks p = [] then Some (p\<lparr>workers := (workers p)[i := Exited]\<rparr>)
      else Some (p\<lparr>workers := (workers p)[i := Running (hd (tasks p))], tasks := tl (tasks p),
                   started := started p @ [hd (tasks p)]\<rparr>))"

definition worker_done :: "'t ThreadPool \<Rightarrow> nat \<Rightarrow> 't \<Rightarrow> 't ThreadPool" where
  "worker_done p i t = p\<lparr>workers := (workers p)[i := Looping], finished := finished p @ [t]\<rparr>"

definition destroy :: "'t ThreadPool \<Rightarrow> 't ThreadPool" where
  "destroy p = p\<lparr>stop := True\<rparr>"

definition joined :: "'t ThreadPool \<Rightarrow> bool" where
  "joined p \<longleftrightarrow> stop p \<and> list_all (\<lambda>w. w = Exited) (workers p)"

inductive worker_step :: "'t ThreadPool \<Rightarrow> 't ThreadPool \<Rightarrow> bool" where
  ws_take: "i < length (workers p) \<Longrightarrow> workers p ! i = Looping \<Longrightarrow> worker_take p i = Some p' \<Longrightarrow> worker_step p p'"
| ws_done: "i < length (workers p) \<Longrightarrow> workers p ! i = Running t \<Longrightarrow> worker_step p (worker_done p i t)"

inductive tp_step :: "'t ThreadPool \<Rightarrow> 't ThreadPool \<Rightarrow> bool" where
  tp_worker: "worker_step p p' \<Longrightarrow> tp_step p p'"
| tp_enqueue: "Enqueue p t = Inr p' \<Longrightarrow> tp_step p p'"
| tp_destroy: "tp_step p (destroy p)"

section \<open>Invariant\<close>

fun running :: "'t worker \<Rightarrow> 't list" where
  "running (Running t) = [t]"
| "running w = []"

text \<open>Tasks start in the order they were accepted; every started task is finished or running; a worker
  only ever leaves after the flag is set and the queue is empty.\<close>

definition tp_inv :: "'t ThreadPool \<Rightarrow> bool" where
  "tp_inv p \<longleftrightarrow> accepted p = started p @ tasks p \<and>
     mset (started p) = mset (finished p) + mset (concat (map running (workers p))) \<and>
     (Exited \<in> set (workers p) \<longrightarrow> stop p \<and> tasks p = [])"

lemma mset_running_update:
  assumes "i < length ws"
  shows "mset (concat (map running (ws[i := w]))) + mset (running (ws ! i)) =
         mset (concat (map running ws)) + mset (running w)"
proof -
  have ws: "ws = take i ws @ ws ! i # drop (Suc i) ws" using assms by (rule id_take_nth_drop)
  have "ws[i := w] = take i ws @ w # drop (Suc i) ws" using assms by (rule upd_conv_take_nth_drop)
  then show ?thesis by (subst (3) ws) simp
qed

lemma worker_step_inv:
  assumes "worker_step p p'" and "tp_inv p"
  shows "tp_inv p'"
  using assms(1)
proof cases
  case (ws_take i)
  show ?thesis
  proof (cases "tasks p")
    case Nil
    then show ?thesis using ws_take assms(2) mset_running_update [of i "workers p" Exited]
      by (auto simp: worker_take_def tp_inv_def split: if_splits)
  next
    case (Cons t ts)
    then have p': "p' = p\<lparr>workers := (workers p)[i := Running t], tasks := ts, started := started p @ [t]\<rparr>"
      using ws_take(3) by (simp add: worker_take_def)
    have "Exited \<notin> set (workers p)" using assms(2) Cons by (auto simp: tp_inv_def)
    then have "Exited \<notin> set ((workers p)[i := Running t])" using set_update_subset_insert by fastforce
    then show ?thesis using assms(2) Cons ws_take mset_running_update [of i "workers p" "Running t"]
      by (simp add: p' tp_inv_def)
  qed
next
  case (ws_done i t)
  have "Exited \<in> set ((workers p)[i := Looping]) \<Longrightarrow> Exited \<in> set (workers p)"
    using set_update_subset_insert by fastforce
  then show ?thesis using ws_done assms(2) mset_running_update [of i "workers p" Looping]
    by (auto simp: worker_done_def tp_inv_def)
qed

lemma tp_step_inv: "tp_step p p' \<Longrightarrow> tp_inv p \<Longrightarrow> tp_inv p'"
proof (induction rule: tp_step.induct)
  case (tp_enqueue p t p')
  then show ?case by (auto simp: Enqueue_def tp_inv_def split: if_splits)
next
  case (tp_destroy p)
  then show ?case by (auto simp: destroy_def tp_inv_def)
qed (rule worker_step_inv)

lemma concat_running_replicate: "concat (map running (replicate n Looping)) = []"
  by (induction n) auto

lemma tp_new_inv: "tp_inv (ThreadPool_new n)"
  by (auto simp: tp_inv_def ThreadPool_new_def concat_running_replicate)

lemma tp_reach_inv: "tp_step\<^sup>*\<^sup>* (ThreadPool_new n) p \<Longrightarrow> tp_inv p"
  by (induction rule: rtranclp_induct) (auto simp: tp_new_inv intro: tp_step_inv)

lemma worker_step_length: "worker_step p p' \<Longrightarrow> length (workers p') = length (workers p)"
  by (induction rule: worker_step.induct) (auto simp: worker_take_def worker_done_def split: if_splits)

lemma tp_reach_length: "tp_step\<^sup>*\<^sup>* (ThreadPool_new n) p \<Longrightarrow> length (workers p) = n"
proof (induction rule: rtranclp_induct)
  case (step y z)
  from step(2) step(3) show ?case
    by (induction rule: tp_step.induct) (auto simp: worker_step_length Enqueue_def destroy_def split: if_splits)
qed (simp add: ThreadPool_new_def)

lemma concat_running_exited: "list_all (\<lambda>w. w = Exited) ws \<Longrightarrow> concat (map running ws) = []"
  by (induction ws) auto

text \<open>The queue is empty and every worker is back in its loop or gone.\<close>

definition idle :: "'t ThreadPool \<Rightarrow> bool" where
  "idle p \<longleftrightarrow> tasks p = [] \<and> list_all (\<lambda>w. running w = []) (workers p)"

lemma idle_running: "idle p \<longleftrightarrow> tasks p = [] \<and> (\<forall>i < length (workers p). \<forall>t. workers p ! i \<noteq> Running t)"
proof -
  have "running w = [] \<longleftrightarrow> (\<forall>t. w \<noteq> Running t)" for w :: "'t worker" by (cases w) auto
  then show ?thesis by (auto simp: idle_def list_all_length)
qed

lemma idle_concat: "idle p \<longleftrightarrow> tasks p = [] \<and> concat (map running (workers p)) = []"
  by (simp add: idle_def list_all_iff)

section \<open>The destructor terminates\<close>

text \<open>Work left once the flag is set: two for each queued task, one for each running task, one for each
  worker that has not left.\<close>

definition work_left :: "'t ThreadPool \<Rightarrow> nat" where
  "work_left p = 2 * length (tasks p) + length (concat (map running (workers p))) +
     length (filter (\<lambda>w. w \<noteq> Exited) (workers p))"

lemma length_running_update:
  assumes "i < length ws"
  shows "length (concat (map running (ws[i := w]))) + length (running (ws ! i)) =
         length (concat (map running ws)) + length (running w)"
  using arg_cong [OF mset_running_update [OF assms, of w], of size] by simp

lemma length_filter_update:
  assumes "i < length ws"
  shows "length (filter P (ws[i := w])) + (if P (ws ! i) then 1 else 0) =
         length (filter P ws) + (if P w then 1 else 0)"
proof -
  have ws: "ws = take i ws @ ws ! i # drop (Suc i) ws" using assms by (rule id_take_nth_drop)
  have "ws[i := w] = take i ws @ w # drop (Suc i) ws" using assms by (rule upd_conv_take_nth_drop)
  then show ?thesis by (subst (3) ws) simp
qed

lemma worker_step_stop: "worker_step p p' \<Longrightarrow> stop p' = stop p"
  by (induction rule: worker_step.induct) (auto simp: worker_take_def worker_done_def split: if_splits)

lemma worker_step_decreases: "worker_step p p' \<Longrightarrow> work_left p' < work_left p"
proof (induction rule: worker_step.induct)
  case (ws_take i p p')
  then show ?case
    using length_running_update [of i "workers p" Exited] length_running_update [of i "workers p" "Running (hd (tasks p))"]
      length_filter_update [of i "workers p" "\<lambda>w. w \<noteq> Exited" Exited]
      length_filter_update [of i "workers p" "\<lambda>w. w \<noteq> Exited" "Running (hd (tasks p))"]
    by (cases "tasks p") (auto simp: worker_take_def work_left_def split: if_splits)
next
  case (ws_done i p t)
  then show ?case
    using length_running_update [of i "workers p" Looping]
      length_filter_update [of i "workers p" "\<lambda>w. w \<noteq> Exited" Looping]
    by (simp add: worker_done_def work_left_def)
qed

lemma worker_step_enabled:
  assumes "stop p" and "\<not> joined p"
  shows "\<exists>p'. worker_step p p'"
proof -
  obtain i where i: "i < length (workers p)" "workers p ! i \<noteq> Exited"
    using assms by (auto simp: joined_def list_all_length)
  show ?thesis
  proof (cases "workers p ! i")
    case Looping
    have "worker_take p i \<noteq> None" using assms(1) by (simp add: worker_take_def)
    then obtain p' where "worker_take p i = Some p'" by blast
    from ws_take [OF i(1) Looping this] show ?thesis ..
  next
    case (Running t)
    from ws_done [OF i(1) this] show ?thesis ..
  qed (use i in simp)
qed

text \<open>C28. Tasks are started in the order they were accepted, none twice and none that was not accepted;
  and when the destructor's joins return on a pool with workers, every accepted task has finished.\<close>

theorem tasks_fifo_and_all_done:
  assumes "tp_step\<^sup>*\<^sup>* (ThreadPool_new n) p"
  shows "(\<exists>rest. accepted p = started p @ rest) \<and>
         (joined p \<and> n \<noteq> 0 \<longrightarrow> mset (finished p) = mset (accepted p))"
proof -
  have inv: "tp_inv p" and len: "length (workers p) = n"
    using assms by (rule tp_reach_inv, rule tp_reach_length)
  have "mset (finished p) = mset (accepted p)" if "joined p" "n \<noteq> 0"
  proof -
    have "Exited \<in> set (workers p)" using that len by (cases "workers p") (auto simp: joined_def)
    then show ?thesis using inv that by (simp add: tp_inv_def joined_def concat_running_exited)
  qed
  then show ?thesis using inv by (auto simp: tp_inv_def)
qed

lemma one_task_run:
  "tp_step\<^sup>*\<^sup>* (ThreadPool_new 1)
     \<lparr>workers = [Exited], tasks = [], stop = True, accepted = [True], started = [True], finished = [True]\<rparr>"
proof -
  let ?p = "\<lambda>w ts s a b c. \<lparr>workers = [w], tasks = ts, stop = s, accepted = a, started = b, finished = c\<rparr> :: bool ThreadPool"
  have "tp_step\<^sup>*\<^sup>* (ThreadPool_new 1) (?p Looping [True] False [True] [] [])"
    by (rule r_into_rtranclp, rule tp_enqueue [where t = True]) (simp add: ThreadPool_new_def Enqueue_def)
  also have "tp_step\<^sup>*\<^sup>* \<dots> (?p (Running True) [] False [True] [True] [])"
    by (rule r_into_rtranclp, rule tp_worker, rule ws_take [where i = 0]) (simp_all add: worker_take_def)
  also have "tp_step\<^sup>*\<^sup>* \<dots> (?p Looping [] False [True] [True] [True])"
    using r_into_rtranclp [of tp_step, OF tp_worker, OF ws_done, of 0 "?p (Running True) [] False [True] [True] []" True]
    by (simp add: worker_done_def)
  also have "tp_step\<^sup>*\<^sup>* \<dots> (?p Looping [] True [True] [True] [True])"
    using r_into_rtranclp [of tp_step, OF tp_destroy, of "?p Looping [] False [True] [True] [True]"] by (simp add: destroy_def)
  also have "tp_step\<^sup>*\<^sup>* \<dots> (?p Exited [] True [True] [True] [True])"
    by (rule r_into_rtranclp, rule tp_worker, rule ws_take [where i = 0]) (simp_all add: worker_take_def)
  finally show ?thesis by simp
qed

theorem tasks_fifo_and_all_done_witness:
  "\<exists>p :: bool ThreadPool. joined p \<and> accepted p = [True] \<and> (\<exists>rest. accepted p = started p @ rest) \<and>
     mset (finished p) = mset (accepted p)"
  using tasks_fifo_and_all_done [OF one_task_run]
  by (intro exI [of _ "\<lparr>workers = [Exited], tasks = [], stop = True, accepted = [True], started = [True],
        finished = [True]\<rparr>"]) (simp add: joined_def)

text \<open>The destructor returns: from any state with the flag set, the workers cannot run forever, and
  as long as some worker has not left, one of them can move.\<close>

theorem destructor_returns:
  "wfP (\<lambda>p' p :: 't ThreadPool. stop p \<and> worker_step p p') \<and>
   (\<forall>p :: 't ThreadPool. stop p \<and> \<not> (\<exists>p'. worker_step p p') \<longrightarrow> joined p)"
proof
  have "wfP (\<lambda>p' p :: 't ThreadPool. work_left p' < work_left p)" by (rule wfp_if_convertible_to_nat)
  then show "wfP (\<lambda>p' p :: 't ThreadPool. stop p \<and> worker_step p p')"
    by (rule wfp_subset) (auto intro: worker_step_decreases)
  show "\<forall>p :: 't ThreadPool. stop p \<and> \<not> (\<exists>p'. worker_step p p') \<longrightarrow> joined p"
    using worker_step_enabled by blast
qed

theorem destructor_returns_witness:
  "joined (\<lparr>workers = [Exited, Exited], tasks = [], stop = True, accepted = [], started = [], finished = []\<rparr> :: bool ThreadPool)"
proof -
  let ?p = "\<lparr>workers = [Exited, Exited], tasks = [], stop = True, accepted = [], started = [], finished = []\<rparr> :: bool ThreadPool"
  have "\<not> worker_step ?p p'" for p' by (auto elim!: worker_step.cases simp: less_Suc_eq numeral_2_eq_2)
  then show ?thesis using spec [OF conjunct2 [OF destructor_returns], of ?p] by simp
qed

text \<open>A pool constructed with no worker (\<open>hardware_concurrency()\<close> may be 0) accepts tasks and its
  destructor returns without having run any of them.\<close>

lemma no_workers_drop_tasks:
  "\<exists>p. tp_step\<^sup>*\<^sup>* (ThreadPool_new 0) p \<and> joined p \<and> accepted p = [t] \<and> finished p = []"
proof -
  let ?p = "\<lparr>workers = [], tasks = [t], stop = False, accepted = [t], started = [], finished = []\<rparr>"
  have "tp_step\<^sup>*\<^sup>* (ThreadPool_new 0) ?p"
    by (rule r_into_rtranclp, rule tp_enqueue [where t = t]) (simp add: ThreadPool_new_def Enqueue_def)
  also have "tp_step\<^sup>*\<^sup>* \<dots> (destroy ?p)" by (rule r_into_rtranclp, rule tp_destroy)
  finally have "tp_step\<^sup>*\<^sup>* (ThreadPool_new 0) (destroy ?p)" by simp
  then show ?thesis by (intro exI [of _ "destroy ?p"]) (simp add: destroy_def joined_def)
qed

end
