(* ===== verification/MysqlDb.thy ===== *)
theory MysqlDb
  imports Prelude
begin

text \<open>
  The MySQL database \<open>ychat\<close> (\<open>script/mysql.sql\<close>) as far as the C++ servers use it: the tables as lists
  of rows with the columns the statements name, and one function per SQL statement of the sources.
  A statement that violates a \<open>UNIQUE\<close> or \<open>FOREIGN KEY\<close> constraint of the schema throws, which is
  \<open>None\<close>. Any statement may throw for another reason (lost connection, lock timeout, oversized value):
  a fault schedule \<open>fl :: nat \<Rightarrow> bool\<close> says which statements of a call do, and the handlers take it as
  an argument. The collation that decides when two \<open>VARCHAR\<close> keys are equal is an argument too.
\<close>

datatype sql_error = DataException

record friend_row =
  fr_uid :: uid
  fr_friend_uid :: uid
  fr_note :: "string option"

record action_row =
  ar_from_uid :: uid
  ar_to_uid :: uid
  ar_action_type :: nat

record member_row =
  mr_group_id :: uint64
  mr_user_id :: uid
  mr_join_time :: uint64

record user_box_row =
  ub_from_uid :: uid
  ub_to_uid :: uid
  ub_sendtime :: int64
  ub_msgid :: string

record group_box_row =
  gb_gid :: uint64
  gb_sendtime :: int64
  gb_msgid :: string

record ychat_db =
  t_user :: "uid list"
  t_friend :: "friend_row list"
  t_friend_action_log :: "action_row list"
  t_group_member :: "member_row list"
  t_messages :: "(string \<times> string) list"
  t_user_box :: "user_box_row list"
  t_group_box :: "group_box_row list"

section \<open>Transactions\<close>

text \<open>The statements of a Poco transaction in order, the last fault index being that of \<open>commit()\<close>. A
  transaction that is left by an exception is rolled back by its destructor: \<open>None\<close>, and the caller
  keeps the old database.\<close>

fun transaction :: "(nat \<Rightarrow> bool) \<Rightarrow> nat \<Rightarrow> (ychat_db \<Rightarrow> ychat_db) list \<Rightarrow> ychat_db \<Rightarrow> ychat_db option" where
  "transaction fl k [] db = (if fl k then None else Some db)"
| "transaction fl k (s # ss) db = (if fl k then None else transaction fl (Suc k) ss (s db))"

section \<open>Statements on the friend tables\<close>

definition count_friend :: "ychat_db \<Rightarrow> uid \<Rightarrow> uid \<Rightarrow> nat" where
  "count_friend db uid friend_uid =
     length (filter (\<lambda>r. fr_uid r = uid \<and> fr_friend_uid r = friend_uid) (t_friend db))"

definition count_pending :: "ychat_db \<Rightarrow> uid \<Rightarrow> uid \<Rightarrow> nat" where
  "count_pending db from_uid to_uid =
     length (filter (\<lambda>r. ar_from_uid r = from_uid \<and> ar_to_uid r = to_uid \<and> ar_action_type r = 0)
       (t_friend_action_log db))"

definition insert_action :: "uid \<Rightarrow> uid \<Rightarrow> nat \<Rightarrow> ychat_db \<Rightarrow> ychat_db" where
  "insert_action from_uid to_uid ty db =
     db\<lparr>t_friend_action_log := t_friend_action_log db @
          [\<lparr>ar_from_uid = from_uid, ar_to_uid = to_uid, ar_action_type = ty\<rparr>]\<rparr>"

definition delete_friend :: "uid \<Rightarrow> uid \<Rightarrow> ychat_db \<Rightarrow> ychat_db" where
  "delete_friend uid friend_uid db =
     db\<lparr>t_friend := filter (\<lambda>r. \<not> (fr_uid r = uid \<and> fr_friend_uid r = friend_uid)) (t_friend db)\<rparr>"

definition update_note :: "string \<Rightarrow> uid \<Rightarrow> uid \<Rightarrow> ychat_db \<Rightarrow> ychat_db" where
  "update_note note uid friend_uid db =
     db\<lparr>t_friend := map (\<lambda>r. if fr_uid r = uid \<and> fr_friend_uid r = friend_uid then r\<lparr>fr_note := Some note\<rparr> else r)
          (t_friend db)\<rparr>"

definition update_action :: "nat \<Rightarrow> uid \<Rightarrow> uid \<Rightarrow> ychat_db \<Rightarrow> ychat_db" where
  "update_action ty from_uid to_uid db =
     db\<lparr>t_friend_action_log :=
          map (\<lambda>r. if ar_from_uid r = from_uid \<and> ar_to_uid r = to_uid then r\<lparr>ar_action_type := ty\<rparr> else r)
            (t_friend_action_log db)\<rparr>"

section \<open>Statements on the message tables\<close>

definition insert_messages :: "(string \<Rightarrow> string) \<Rightarrow> string \<Rightarrow> string \<Rightarrow> ychat_db \<Rightarrow> ychat_db option" where
  "insert_messages coll msgid data db =
     (if list_ex (\<lambda>(k, d). coll k = coll msgid) (t_messages db) then None
      else Some (db\<lparr>t_messages := t_messages db @ [(msgid, data)]\<rparr>))"

definition insert_group_box ::
  "(string \<Rightarrow> string) \<Rightarrow> uint64 \<Rightarrow> int64 \<Rightarrow> string \<Rightarrow> ychat_db \<Rightarrow> ychat_db option" where
  "insert_group_box coll gid sendtime msgid db =
     (if list_ex (\<lambda>r. gb_gid r = gid \<and> gb_sendtime r = sendtime \<and> coll (gb_msgid r) = coll msgid) (t_group_box db)
         \<or> \<not> list_ex (\<lambda>(k, d). coll k = coll msgid) (t_messages db)
      then None
      else Some (db\<lparr>t_group_box := t_group_box db @ [\<lparr>gb_gid = gid, gb_sendtime = sendtime, gb_msgid = msgid\<rparr>]\<rparr>))"

definition insert_user_box ::
  "(string \<Rightarrow> string) \<Rightarrow> uid \<Rightarrow> uid \<Rightarrow> int64 \<Rightarrow> string \<Rightarrow> ychat_db \<Rightarrow> ychat_db option" where
  "insert_user_box coll from_uid to_uid sendtime msgid db =
     (if list_ex (\<lambda>r. ub_from_uid r = from_uid \<and> ub_to_uid r = to_uid \<and> ub_sendtime r = sendtime) (t_user_box db)
         \<or> from_uid \<notin> set (t_user db) \<or> to_uid \<notin> set (t_user db)
         \<or> \<not> list_ex (\<lambda>(k, d). coll k = coll msgid) (t_messages db)
      then None
      else Some (db\<lparr>t_user_box := t_user_box db @
             [\<lparr>ub_from_uid = from_uid, ub_to_uid = to_uid, ub_sendtime = sendtime, ub_msgid = msgid\<rparr>]\<rparr>))"

text \<open>\<open>SELECT user_id FROM group_member WHERE join_time <= ? AND group_id = ?\<close>: the column is unsigned, the
  bound parameter signed; MySQL compares them by value.\<close>

definition members_at :: "ychat_db \<Rightarrow> uint64 \<Rightarrow> int64 \<Rightarrow> uid list" where
  "members_at db gid sendtime =
     map mr_user_id (filter (\<lambda>r. int (unat (mr_join_time r)) \<le> sint sendtime \<and> mr_group_id r = gid)
       (t_group_member db))"

section \<open>How the friend statements change the tables\<close>

text \<open>The pairs for which a row of \<open>friend\<close> exists.\<close>

definition friends :: "ychat_db \<Rightarrow> (uid \<times> uid) set" where
  "friends db = (\<lambda>r. (fr_uid r, fr_friend_uid r)) ` set (t_friend db)"

named_theorems sql

lemma image_map_key: "(\<And>x. key (g x) = key x) \<Longrightarrow> key ` set (map g xs) = key ` set xs"
  by (induction xs) auto

lemma length_filter_map_cong: "(\<And>x. P (g x) \<longleftrightarrow> Q x) \<Longrightarrow> length (filter P (map g xs)) = length (filter Q xs)"
  by (induction xs) auto

lemma filter_length_0: "length (filter P xs) = 0 \<longleftrightarrow> (\<forall>x \<in> set xs. \<not> P x)"
  by (simp add: filter_empty_conv)

lemma count_friend_pos [sql]: "0 < count_friend db u f \<longleftrightarrow> (u, f) \<in> friends db"
  by (auto simp: count_friend_def friends_def filter_empty_conv)

lemma count_friend_0 [sql]: "count_friend db u f = 0 \<longleftrightarrow> (u, f) \<notin> friends db"
  using count_friend_pos [of db u f] by auto

lemma friends_insert_action [sql]: "friends (insert_action a b t db) = friends db"
  by (simp add: friends_def insert_action_def)

lemma friends_update_action [sql]: "friends (update_action t a b db) = friends db"
  by (simp add: friends_def update_action_def)

lemma friends_delete [sql]: "friends (delete_friend u f db) = friends db - {(u, f)}"
  by (auto simp: friends_def delete_friend_def)

lemma friends_update_note [sql]: "friends (update_note n u f db) = friends db"
proof -
  let ?g = "\<lambda>r. if fr_uid r = u \<and> fr_friend_uid r = f then r\<lparr>fr_note := Some n\<rparr> else r"
  have "t_friend (update_note n u f db) = map ?g (t_friend db)" by (simp add: update_note_def)
  then show ?thesis unfolding friends_def by (simp only:) (rule image_map_key, simp)
qed

lemma pending_insert [sql]:
  "count_pending (insert_action a b t db) u f =
     count_pending db u f + (if a = u \<and> b = f \<and> t = 0 then 1 else 0)"
  by (simp add: count_pending_def insert_action_def)

lemma pending_delete_friend [sql]: "count_pending (delete_friend a b db) u f = count_pending db u f"
  by (simp add: count_pending_def delete_friend_def)

lemma pending_update_note [sql]: "count_pending (update_note n a b db) u f = count_pending db u f"
  by (simp add: count_pending_def update_note_def)

lemma pending_update_action [sql]:
  assumes "t \<noteq> 0"
  shows "count_pending (update_action t a b db) u f = (if a = u \<and> b = f then 0 else count_pending db u f)"
proof -
  let ?g = "\<lambda>r. if ar_from_uid r = a \<and> ar_to_uid r = b then r\<lparr>ar_action_type := t\<rparr> else r"
  let ?P = "\<lambda>r. ar_from_uid r = u \<and> ar_to_uid r = f \<and> ar_action_type r = 0"
  have "t_friend_action_log (update_action t a b db) = map ?g (t_friend_action_log db)"
    by (simp add: update_action_def)
  then have "count_pending (update_action t a b db) u f = length (filter ?P (map ?g (t_friend_action_log db)))"
    by (simp only: count_pending_def)
  also have "\<dots> = length (filter (\<lambda>r. \<not> (a = u \<and> b = f) \<and> ?P r) (t_friend_action_log db))"
    by (rule length_filter_map_cong) (use assms in auto)
  finally show ?thesis by (simp add: count_pending_def)
qed

lemma transaction_Some: "transaction fl k ss db = Some db' \<Longrightarrow> db' = fold (\<lambda>s. s) ss db"
  by (induction ss arbitrary: k db) (auto split: if_splits)

lemma transaction_ok: "(\<And>i. \<not> fl i) \<Longrightarrow> transaction fl k ss db = Some (fold (\<lambda>s. s) ss db)"
  by (induction ss arbitrary: k db) auto

end
