(* ===== verification/Friend.thy ===== *)
theory Friend
  imports MysqlDb PbProps
begin

text \<open>
  \<open>FriendCtrlHandle\<close> and \<open>GroupCtrlHandle\<close> of \<open>msg_logic/logic_server.cc\<close> over the tables of
  \<open>MysqlDb\<close>. \<open>fl k\<close> says that the \<open>k\<close>-th statement the call executes throws. The result is the value the
  C++ function returns, or the exception it leaves with, together with the database.
\<close>

section \<open>Definitions\<close>

definition FriendCtrlHandle :: "(nat \<Rightarrow> bool) \<Rightarrow> ychat_db \<Rightarrow> ProtoReq \<Rightarrow> (sql_error + bool) \<times> ychat_db" where
  "FriendCtrlHandle fl db request =
     (let uid = ProtoReq_from_uid request;
          friend_uid = ProtoReq_to_id request;
          note = FriendCtrl_content (ProtoReq_fctrl request);
          ty = FriendCtrl_type (ProtoReq_fctrl request)
      in if ty = FRIEND_REQ \<or> ty = FRIEND_DEL then
           if fl 0 then (Inl DataException, db)
           else let count = count_friend db uid friend_uid in
             if ty = FRIEND_REQ then
               if count > 0 then (Inr False, db)
               else if fl 1 then (Inl DataException, db)
               else let req_count = count_pending db uid friend_uid in
                 if req_count > 0 then (Inr False, db)
                 else if fl 2 then (Inl DataException, db)
                 else (Inr True, insert_action uid friend_uid 0 db)
             else
               if count = 0 then (Inr False, db)
               else case transaction fl 1 [delete_friend uid friend_uid, insert_action uid friend_uid 1] db of
                      None \<Rightarrow> (Inl DataException, db)
                    | Some db' \<Rightarrow> (Inr True, db')
         else
           if fl 0 then (Inl DataException, db)
           else let req_count = count_pending db uid friend_uid in
             if req_count = 0 then (Inr False, db)
             else if ty = FRIEND_AUTH_OK then
               case transaction fl 1 [update_note note uid friend_uid, update_note note friend_uid uid,
                                      update_action 2 friend_uid uid] db of
                 None \<Rightarrow> (Inl DataException, db)
               | Some db' \<Rightarrow> (Inr True, db')
             else if fl 1 then (Inl DataException, db)
             else (Inr True, update_action 3 friend_uid uid db))"

definition GroupCtrlHandle :: "ProtoReq \<Rightarrow> bool" where
  "GroupCtrlHandle request = False"

text \<open>A sequence of calls, each with its own faults.\<close>

fun friend_calls :: "((nat \<Rightarrow> bool) \<times> ProtoReq) list \<Rightarrow> ychat_db \<Rightarrow> ychat_db" where
  "friend_calls [] db = db"
| "friend_calls ((fl, r) # cs) db = friend_calls cs (snd (FriendCtrlHandle fl db r))"

section \<open>Lemmas\<close>

text \<open>Every outcome other than \<open>true\<close> leaves the database as it was; \<open>true\<close> is one of four effects.\<close>

lemma FriendCtrlHandle_cases:
  assumes "FriendCtrlHandle fl db r = (res, db')"
  defines "uid \<equiv> ProtoReq_from_uid r" and "friend_uid \<equiv> ProtoReq_to_id r"
    and "ty \<equiv> FriendCtrl_type (ProtoReq_fctrl r)" and "note \<equiv> FriendCtrl_content (ProtoReq_fctrl r)"
  shows "res \<noteq> Inr True \<and> db' = db
    \<or> res = Inr True \<and> ty = FRIEND_REQ \<and> (uid, friend_uid) \<notin> friends db \<and> count_pending db uid friend_uid = 0 \<and>
        db' = insert_action uid friend_uid 0 db
    \<or> res = Inr True \<and> ty = FRIEND_DEL \<and> (uid, friend_uid) \<in> friends db \<and>
        db' = insert_action uid friend_uid 1 (delete_friend uid friend_uid db)
    \<or> res = Inr True \<and> ty = FRIEND_AUTH_OK \<and> 0 < count_pending db uid friend_uid \<and>
        db' = update_action 2 friend_uid uid (update_note note friend_uid uid (update_note note uid friend_uid db))
    \<or> res = Inr True \<and> ty \<notin> {FRIEND_REQ, FRIEND_DEL, FRIEND_AUTH_OK} \<and> 0 < count_pending db uid friend_uid \<and>
        db' = update_action 3 friend_uid uid db"
  using assms(1) unfolding FriendCtrlHandle_def Let_def uid_def [symmetric] friend_uid_def [symmetric]
    ty_def [symmetric] note_def [symmetric]
  by (auto simp: sql split: if_splits option.splits dest!: transaction_Some)

lemma FriendCtrlHandle_friends: "friends (snd (FriendCtrlHandle fl db r)) \<subseteq> friends db"
proof (cases "FriendCtrlHandle fl db r")
  case (Pair res db')
  from FriendCtrlHandle_cases [OF this] Pair show ?thesis by (elim disjE) (auto simp: sql)
qed

lemma FriendCtrlHandle_pending:
  assumes "\<And>a b. count_pending db a b \<le> 1"
  shows "count_pending (snd (FriendCtrlHandle fl db r)) a b \<le> 1"
proof (cases "FriendCtrlHandle fl db r")
  case (Pair res db')
  from FriendCtrlHandle_cases [OF this] Pair assms [of a b] show ?thesis by (elim disjE) (auto simp: sql)
qed

lemma friend_calls_friends: "friends (friend_calls cs db) \<subseteq> friends db"
proof (induction cs arbitrary: db)
  case (Cons c cs)
  then show ?case using FriendCtrlHandle_friends by (cases c) fastforce
qed simp

section \<open>Properties\<close>

text \<open>A request of user \<open>u\<close> to user \<open>v\<close> with control type \<open>t\<close>.\<close>

definition fctrl_req :: "uid \<Rightarrow> uid \<Rightarrow> int32 \<Rightarrow> string \<Rightarrow> ProtoReq" where
  "fctrl_req u v t note =
     ProtoReq_default\<lparr>ProtoReq_type := TypeFriendCtrl, ProtoReq_from_uid := u, ProtoReq_to_id := v,
       ProtoReq_data := kFctrl \<lparr>FriendCtrl_type = t, FriendCtrl_content = note, FriendCtrl_unknown = []\<rparr>\<rparr>"

lemma fctrl_req_simps [simp]:
  "ProtoReq_from_uid (fctrl_req u v t n) = u" "ProtoReq_to_id (fctrl_req u v t n) = v"
  "ProtoReq_type (fctrl_req u v t n) = TypeFriendCtrl"
  "FriendCtrl_type (ProtoReq_fctrl (fctrl_req u v t n)) = t"
  "FriendCtrl_content (ProtoReq_fctrl (fctrl_req u v t n)) = n"
  by (simp_all add: fctrl_req_def ProtoReq_fctrl_def ProtoReq_default_def)

text \<open>A database with two users and nothing else.\<close>

definition two_users :: ychat_db where
  "two_users = \<lparr>t_user = [7, 9], t_friend = [], t_friend_action_log = [], t_group_member = [], t_messages = [],
     t_user_box = [], t_group_box = []\<rparr>"

lemma two_users_simps [simp]: "friends two_users = {}" "count_pending two_users u v = 0"
  by (simp_all add: two_users_def friends_def count_pending_def)

text \<open>C19. A call that throws or answers false, at whatever statement it fails, leaves every table as it
  was: the writes of one friend operation happen together or not at all.\<close>

theorem friend_ctrl_atomic:
  "fst (FriendCtrlHandle fl db r) = Inr True \<or> snd (FriendCtrlHandle fl db r) = db"
proof (cases "FriendCtrlHandle fl db r")
  case (Pair res db')
  from FriendCtrlHandle_cases [OF this] show ?thesis unfolding Pair by auto
qed





text \<open>C36. No sequence of friend operations ever makes a pair friends: the approval updates the notes of
  existing rows and inserts none.\<close>

theorem friendship_never_created: "friends (friend_calls cs db) \<subseteq> friends db"
  by (rule friend_calls_friends)

text \<open>After a request from \<open>u\<close> to \<open>v\<close>, the approval sent by \<open>v\<close> is refused, while the same approval
  sent by the requester \<open>u\<close> itself is accepted and leaves the request pending.\<close>

theorem approval_direction:
  assumes "u \<noteq> v" and "(u, v) \<notin> friends db" and "count_pending db u v = 0" and "count_pending db v u = 0"
    and "\<And>i. \<not> fl i"
  shows "\<exists>db1. FriendCtrlHandle fl db (fctrl_req u v FRIEND_REQ n) = (Inr True, db1) \<and>
    FriendCtrlHandle fl db1 (fctrl_req v u FRIEND_AUTH_OK n) = (Inr False, db1) \<and>
    (\<exists>db2. FriendCtrlHandle fl db1 (fctrl_req u v FRIEND_AUTH_OK n) = (Inr True, db2) \<and> count_pending db2 u v = 1)"
  using assms by (intro exI [of _ "insert_action u v 0 db"])
    (simp add: FriendCtrlHandle_def Let_def sql transaction_ok)

theorem approval_direction_witness:
  "\<exists>db1. FriendCtrlHandle (\<lambda>i. False) two_users (fctrl_req 7 9 FRIEND_REQ ''hi'') = (Inr True, db1) \<and>
    FriendCtrlHandle (\<lambda>i. False) db1 (fctrl_req 9 7 FRIEND_AUTH_OK ''hi'') = (Inr False, db1) \<and>
    (\<exists>db2. FriendCtrlHandle (\<lambda>i. False) db1 (fctrl_req 7 9 FRIEND_AUTH_OK ''hi'') = (Inr True, db2) \<and>
       count_pending db2 7 9 = 1)"
  by (rule approval_direction) simp_all

end
