(* ===== verification/RedisIf.thy ===== *)
theory RedisIf
  imports Prelude
begin

text \<open>
  The Redis server the services share, behind \<open>include/redis_pool.h\<close> and \<open>varify/redis_pool.cpp\<close>. Redis and
  the redis++ client are not part of the sources: the commands the services send are the fields of a record
  \<open>redis\<close> that the models take as an argument, and the locale \<open>redis_server\<close> states what the services rely on,
  as the Redis command reference documents it (string keys with expiry, hash fields, \<open>HINCRBY\<close>).
  \<open>tick\<close> is the passing of seconds. \<open>mem_redis\<close> is a reference store that satisfies the laws.
\<close>

definition fmt_i64 :: "int64 \<Rightarrow> string" where
  "fmt_i64 n = (if sint n < 0 then CHR ''-'' # dec (nat (- sint n)) else dec (nat (sint n)))"

lemma dec_not_minus: "dec n \<noteq> CHR ''-'' # s"
  using dec_digits [of n] by (auto simp: is_digit_def)

lemma fmt_i64_inject [simp]: "fmt_i64 a = fmt_i64 b \<longleftrightarrow> a = b"
proof
  assume "fmt_i64 a = fmt_i64 b"
  then have "sint a = sint b"
    using dec_not_minus dec_not_minus [THEN not_sym] by (auto simp: fmt_i64_def split: if_splits)
  then show "a = b" by (simp add: signed_word_eqI)
qed simp

record 'r redis =
  r_get :: "'r \<Rightarrow> string \<Rightarrow> string option"
  r_setex :: "'r \<Rightarrow> string \<Rightarrow> nat \<Rightarrow> string \<Rightarrow> 'r"
  r_del :: "'r \<Rightarrow> string \<Rightarrow> 'r"
  r_hget :: "'r \<Rightarrow> string \<Rightarrow> string \<Rightarrow> string option"
  r_hset :: "'r \<Rightarrow> string \<Rightarrow> string \<Rightarrow> string \<Rightarrow> 'r"
  r_hdel :: "'r \<Rightarrow> string \<Rightarrow> string \<Rightarrow> 'r"
  r_hincrby :: "'r \<Rightarrow> string \<Rightarrow> string \<Rightarrow> int64 \<Rightarrow> int64 \<times> 'r"
  r_tick :: "'r \<Rightarrow> nat \<Rightarrow> 'r"

text \<open>\<open>HINCRBY\<close> is an error on a field that is not a number, and when the sum does not fit into 64 bits.\<close>

definition incr_ok :: "'r redis \<Rightarrow> 'r \<Rightarrow> string \<Rightarrow> string \<Rightarrow> int64 \<Rightarrow> bool" where
  "incr_ok R s k f n \<longleftrightarrow> r_hget R s k f = None \<or>
     (\<exists>m. r_hget R s k f = Some (fmt_i64 m) \<and> - (2 ^ 63) \<le> sint m + sint n \<and> sint m + sint n < 2 ^ 63)"

locale redis_server =
  fixes R :: "'r redis"
  assumes get_setex: "0 < t \<Longrightarrow> r_get R (r_setex R s k t v) k' = (if k' = k then Some v else r_get R s k')"
    and get_setex_tick: "d < t \<Longrightarrow> r_get R (r_tick R (r_setex R s k t v) d) k = Some v"
    and get_expired: "0 < t \<Longrightarrow> t \<le> d \<Longrightarrow> r_get R (r_tick R (r_setex R s k t v) d) k = None"
    and get_del: "r_get R (r_del R s k) k' = (if k' = k then None else r_get R s k')"
    and get_hset: "r_get R (r_hset R s k f v) k' = r_get R s k'"
    and get_hdel: "r_get R (r_hdel R s k f) k' = r_get R s k'"
    and get_hincrby: "r_get R (snd (r_hincrby R s k f n)) k' = r_get R s k'"
    and hget_setex: "k' \<noteq> k \<Longrightarrow> r_hget R (r_setex R s k t v) k' f = r_hget R s k' f"
    and hget_del: "k' \<noteq> k \<Longrightarrow> r_hget R (r_del R s k) k' f = r_hget R s k' f"
    and hget_hset: "r_hget R (r_hset R s k f v) k' f' = (if k' = k \<and> f' = f then Some v else r_hget R s k' f')"
    and hget_hdel: "r_hget R (r_hdel R s k f) k' f' = (if k' = k \<and> f' = f then None else r_hget R s k' f')"
    and hget_hincrby: "incr_ok R s k f n \<Longrightarrow> r_hincrby R s k f n = (m, s') \<Longrightarrow> r_hget R s' k f = Some (fmt_i64 m)"
    and hget_hincrby_other: "k' \<noteq> k \<or> f' \<noteq> f \<Longrightarrow> r_hget R (snd (r_hincrby R s k f n)) k' f' = r_hget R s k' f'"
    and hincrby_new: "r_hget R s k f = None \<Longrightarrow> fst (r_hincrby R s k f n) = n"
    and hincrby_old: "r_hget R s k f = Some (fmt_i64 m) \<Longrightarrow> incr_ok R s k f n \<Longrightarrow> fst (r_hincrby R s k f n) = m + n"
    and hget_tick: "r_hget R (r_tick R s d) k f = r_hget R s k f"
begin

lemmas redis_laws = get_setex get_setex_tick get_expired get_del get_hset get_hdel hget_setex hget_del hget_hset hget_hdel
  hget_tick get_hincrby

end

section \<open>A reference store\<close>

record mem =
  strs :: "string \<Rightarrow> (string \<times> nat) option"
  hashes :: "string \<Rightarrow> string \<Rightarrow> string option"

definition read_i64 :: "string \<Rightarrow> int64" where
  "read_i64 s = (case s of c # cs \<Rightarrow> if c = CHR ''-'' then - of_nat (read_dec cs) else of_nat (read_dec s) | [] \<Rightarrow> 0)"

lemma read_fmt_i64 [simp]: "read_i64 (fmt_i64 n) = n"
proof (cases "sint n < 0")
  case True
  then have "read_i64 (fmt_i64 n) = - of_nat (nat (- sint n))" by (simp add: fmt_i64_def read_i64_def)
  also have "\<dots> = of_int (sint n)" using True by simp
  finally show ?thesis by simp
next
  case False
  then have "fmt_i64 n = dec (nat (sint n))" by (simp add: fmt_i64_def)
  moreover obtain c cs where c: "dec (nat (sint n)) = c # cs" by (cases "dec (nat (sint n))") auto
  moreover have "c \<noteq> CHR ''-''" using dec_not_minus c by blast
  ultimately have "read_i64 (fmt_i64 n) = of_nat (read_dec (dec (nat (sint n))))" by (simp add: read_i64_def)
  also have "\<dots> = of_int (sint n)" using False by simp
  finally show ?thesis by simp
qed

definition mem_redis :: "mem redis" where
  "mem_redis = \<lparr>
     r_get = (\<lambda>s k. map_option fst (strs s k)),
     r_setex = (\<lambda>s k t v. s\<lparr>strs := (strs s)(k \<mapsto> (v, t)), hashes := (hashes s)(k := (\<lambda>f. None))\<rparr>),
     r_del = (\<lambda>s k. s\<lparr>strs := (strs s)(k := None), hashes := (hashes s)(k := (\<lambda>f. None))\<rparr>),
     r_hget = (\<lambda>s k f. hashes s k f),
     r_hset = (\<lambda>s k f v. s\<lparr>hashes := (hashes s)(k := (hashes s k)(f \<mapsto> v))\<rparr>),
     r_hdel = (\<lambda>s k f. s\<lparr>hashes := (hashes s)(k := (hashes s k)(f := None))\<rparr>),
     r_hincrby = (\<lambda>s k f n. let m = (case hashes s k f of None \<Rightarrow> 0 | Some v \<Rightarrow> read_i64 v) + n
        in (m, s\<lparr>hashes := (hashes s)(k := (hashes s k)(f \<mapsto> fmt_i64 m))\<rparr>)),
     r_tick = (\<lambda>s d. s\<lparr>strs := (\<lambda>k. case strs s k of None \<Rightarrow> None
        | Some (v, t) \<Rightarrow> if t \<le> d then None else Some (v, t - d))\<rparr>)\<rparr>"

definition mem_empty :: mem where
  "mem_empty = \<lparr>strs = (\<lambda>k. None), hashes = (\<lambda>k f. None)\<rparr>"

interpretation mem: redis_server mem_redis
  by unfold_locales (auto simp: mem_redis_def Let_def)

end
