(* ===== verification/Logic.thy ===== *)
theory Logic
  imports Friend TokenVerify RedisIf
begin

text \<open>
  The logic server: \<open>msg_logic/msgid.h\<close>, \<open>LogicServer::Handle\<close>, \<open>LogicServer::Run\<close> and \<open>ReportCb::dr_cb\<close> of
  \<open>logic_server.cc\<close>, \<open>Producer\<close> of \<open>kafka_producer.cc\<close>.

  An RPC context lives at an address of \<open>heap\<close> from its allocation to the \<open>delete\<close> in \<open>Run\<close>; using a
  deleted context, or calling \<open>Finish\<close> twice on one, sets \<open>crashed\<close>. \<open>pc\<close> says how far the program has
  come with a context: \<open>RequestHandle\<close> posted, \<open>Handle\<close> enqueued in the thread pool, \<open>Handle\<close> between
  registering the context and calling \<open>Produce\<close>, \<open>Handle\<close> returned. \<open>in_flight\<close> are the keys of the
  messages librdkafka has accepted and not yet reported on; its callback runs inside \<open>poll(0)\<close>, which the
  program calls only at the end of a successful \<open>Produce\<close>. \<open>topic\<close>, \<open>replies\<close> and \<open>issued\<close> log the produced
  messages, the calls of \<open>Finish\<close> and the generated message ids.

  The clock, the random draws, the faults of SQL statements, the outcome of \<open>produce\<close> and the delivery
  reports that \<open>poll\<close> serves are arguments of the steps.
\<close>

section \<open>Message ids\<close>

definition kCharset :: string where
  "kCharset = ''abcdefghijklmnopqrstuvwxyzABCDEFGHIJKLMNOPQRSTUVWXYZ0123456789''"

definition GenRandString :: "(nat \<Rightarrow> nat) \<Rightarrow> nat \<Rightarrow> string" where
  "GenRandString dis len = map (\<lambda>i. kCharset ! dis i) [0..<len]"

definition gen_msgid :: "int64 \<Rightarrow> uid \<Rightarrow> (nat \<Rightarrow> nat) \<Rightarrow> string" where
  "gen_msgid ms uid dis = fmt_i64 ms @ ''_'' @ fmt_u64 uid @ ''_'' @ GenRandString dis 8"

definition GenProtoResp :: "int64 \<Rightarrow> (nat \<Rightarrow> nat) \<Rightarrow> uid \<Rightarrow> ProtoResp" where
  "GenProtoResp ms dis uid =
     ProtoResp_set_timestamp ms (ProtoResp_set_msgid (gen_msgid ms uid dis) ProtoResp_default)"

section \<open>The decision of Handle\<close>

text \<open>\<open>Accept\<close> is \<open>ok\<close>, \<open>Reject\<close> is \<open>!ok\<close>, \<open>Local\<close> is \<open>goto no_send_kafka\<close>.\<close>

datatype verdict = Accept | Reject | Local

definition handle_switch :: "(nat \<Rightarrow> bool) \<Rightarrow> ychat_db \<Rightarrow> ProtoReq \<Rightarrow> verdict \<times> ychat_db" where
  "handle_switch fl db request =
     (let type = ProtoReq_type request in
      if type = TypeFriendCtrl then
        (case FriendCtrlHandle fl db request of
           (Inl e, db') \<Rightarrow> (Reject, db')
         | (Inr ok, db') \<Rightarrow> (if ok then Accept else Reject, db'))
      else if type = TypeFriendState then
        (if FriendState_type (ProtoReq_fstate request) = INPUTING then Accept else Reject, db)
      else if type = TypeFriendMsg then (Accept, db)
      else if type = TypeSystemNotify then (Reject, db)
      else if type = TypeGroupCtrl then (if GroupCtrlHandle request then Accept else Reject, db)
      else if type = TypeGroupMsg then (Accept, db)
      else if type = TypePull then (Reject, db)
      else if type = TypeLog then
        (let t = Log_type (ProtoReq_log request) in
         if t = LOGIN then Local
         else if t = LOGOUT then Reject
         else if t = KICKOUT then Reject
         else Reject, db)
      else (Reject, db))"

section \<open>The server's state\<close>

record RpcContext =
  is_done :: bool
  req :: ProtoReq
  resp :: ProtoResp

datatype pc = PcFree | PcRequested | PcQueued | PcProducing | PcReturned

record logic_state =
  heap :: "nat \<Rightarrow> RpcContext option"
  pc_of :: "nat \<Rightarrow> pc"
  rpc_contexts :: "string \<Rightarrow> nat option"
  in_flight :: "string list"
  topic :: "(string \<times> string) list"
  replies :: "(nat \<times> ProtoResp) list"
  issued :: "string set"
  database :: ychat_db
  crashed :: bool

definition new_context :: RpcContext where
  "new_context = \<lparr>is_done = False, req = ProtoReq_default, resp = ProtoResp_default\<rparr>"

text \<open>The two assignments before each \<open>Finish\<close> of an error, and \<open>done_ = true\<close> with \<open>Finish\<close> itself.\<close>

definition set_error :: "string \<Rightarrow> RpcContext \<Rightarrow> RpcContext" where
  "set_error txt c = c\<lparr>resp := ProtoResp_set_err txt (ProtoResp_set_error_code 0 (resp c))\<rparr>"

definition Finish :: "nat \<Rightarrow> (RpcContext \<Rightarrow> RpcContext) \<Rightarrow> logic_state \<Rightarrow> logic_state" where
  "Finish a f st =
     (case heap st a of
        None \<Rightarrow> st\<lparr>crashed := True\<rparr>
      | Some c \<Rightarrow>
          if is_done c then st\<lparr>crashed := True\<rparr>
          else let c' = f c in
            st\<lparr>heap := (heap st)(a \<mapsto> c'\<lparr>is_done := True\<rparr>), replies := replies st @ [(a, resp c')]\<rparr>)"

text \<open>\<open>ReportCb::dr_cb\<close> for one delivery report: the key of the message and whether \<open>message.err()\<close> is set.\<close>

definition dr_cb :: "string \<times> bool \<Rightarrow> logic_state \<Rightarrow> logic_state" where
  "dr_cb report st =
     (case report of (key, err) \<Rightarrow>
      (case rpc_contexts st key of
         None \<Rightarrow> st
       | Some context \<Rightarrow>
           let st' = st\<lparr>rpc_contexts := (rpc_contexts st)(key := None)\<rparr> in
           if err then Finish context (set_error ''kafka error'') st'
           else Finish context id st'))"

text \<open>\<open>Handle\<close> up to the registration of the context.\<close>

definition handle_begin :: "int64 \<Rightarrow> (nat \<Rightarrow> nat) \<Rightarrow> (nat \<Rightarrow> bool) \<Rightarrow> nat \<Rightarrow> logic_state \<Rightarrow> logic_state" where
  "handle_begin ms dis fl a st =
     (case heap st a of
        None \<Rightarrow> st\<lparr>crashed := True\<rparr>
      | Some c \<Rightarrow>
          let r = GenProtoResp ms dis (ProtoReq_from_uid (req c));
              (v, db') = handle_switch fl (database st) (req c);
              st1 = st\<lparr>heap := (heap st)(a \<mapsto> c\<lparr>resp := r\<rparr>), database := db',
                       issued := insert (ProtoResp_msgid r) (issued st)\<rparr>
          in case v of
               Accept \<Rightarrow> st1\<lparr>rpc_contexts := (rpc_contexts st1)(ProtoResp_msgid r \<mapsto> a),
                              pc_of := (pc_of st1)(a := PcProducing)\<rparr>
             | Reject \<Rightarrow> Finish a (set_error ''invalid request'') (st1\<lparr>pc_of := (pc_of st1)(a := PcReturned)\<rparr>)
             | Local \<Rightarrow> Finish a id (st1\<lparr>pc_of := (pc_of st1)(a := PcReturned)\<rparr>))"

definition mq_of :: "RpcContext \<Rightarrow> MqMessage" where
  "mq_of c = MqMessage_default\<lparr>MqMessage_handle_result_ptr := Some (ProtoResp_CopyFrom ProtoResp_default (resp c)),
     MqMessage_origin_req_ptr := Some (ProtoReq_CopyFrom ProtoReq_default (req c))\<rparr>"

text \<open>\<open>Producer::Produce\<close>: the key and payload handed to librdkafka; when it takes them, \<open>poll(0)\<close> serves
  \<open>reports\<close>. The boolean is the function's return value.\<close>

definition Produce :: "pb_rt \<Rightarrow> bool \<Rightarrow> (string \<times> bool) list \<Rightarrow> MqMessage \<Rightarrow> logic_state \<Rightarrow> bool \<times> logic_state" where
  "Produce rt no_error reports m st =
     (let payload = MqMessage_InternalSerialize rt m;
          key = ProtoResp_msgid (MqMessage_handle_result m)
      in if \<not> no_error then (False, st)
         else let st' = st\<lparr>topic := topic st @ [(key, payload)], in_flight := in_flight st @ [key]\<rparr>
              in (True, fold dr_cb reports
                    (st'\<lparr>in_flight := filter (\<lambda>k. k \<notin> fst ` set reports) (in_flight st')\<rparr>)))"

text \<open>\<open>Handle\<close> from the construction of the Kafka message to its return.\<close>

definition handle_produce :: "pb_rt \<Rightarrow> bool \<Rightarrow> (string \<times> bool) list \<Rightarrow> nat \<Rightarrow> logic_state \<Rightarrow> logic_state" where
  "handle_produce rt no_error reports a st =
     (case heap st a of
        None \<Rightarrow> st\<lparr>crashed := True\<rparr>
      | Some c \<Rightarrow>
          let m = mq_of c;
              (ok, st1) = Produce rt no_error reports m (st\<lparr>pc_of := (pc_of st)(a := PcReturned)\<rparr>)
          in if ok then st1
             else Finish a (set_error ''Produce error'')
                    (st1\<lparr>rpc_contexts := (rpc_contexts st1)(ProtoResp_msgid (MqMessage_handle_result m) := None)\<rparr>))"

definition Handle :: "pb_rt \<Rightarrow> int64 \<Rightarrow> (nat \<Rightarrow> nat) \<Rightarrow> (nat \<Rightarrow> bool) \<Rightarrow> bool \<Rightarrow> (string \<times> bool) list \<Rightarrow> nat \<Rightarrow>
    logic_state \<Rightarrow> logic_state" where
  "Handle rt ms dis fl no_error reports a st =
     (let st1 = handle_begin ms dis fl a st in
      if pc_of st1 a = PcProducing then handle_produce rt no_error reports a st1 else st1)"

text \<open>One iteration of the loop of \<open>Run\<close> for the tag the completion queue returns; \<open>q\<close> is the request gRPC
  has stored in a context whose call has arrived, \<open>new_ctx\<close> the address of the next context.\<close>

definition run_iteration :: "nat \<Rightarrow> ProtoReq \<Rightarrow> nat \<Rightarrow> logic_state \<Rightarrow> logic_state" where
  "run_iteration tag q new_ctx st =
     (case heap st tag of
        None \<Rightarrow> st\<lparr>crashed := True\<rparr>
      | Some c \<Rightarrow>
          if is_done c then st\<lparr>heap := (heap st)(tag := None)\<rparr>
          else st\<lparr>heap := (heap st)(tag \<mapsto> c\<lparr>req := q\<rparr>, new_ctx \<mapsto> new_context),
                  pc_of := (pc_of st)(tag := PcQueued, new_ctx := PcRequested)\<rparr>)"

text \<open>The start of \<open>Run\<close>: one context is posted.\<close>

definition run_start :: "ychat_db \<Rightarrow> logic_state" where
  "run_start db =
     \<lparr>heap = [0 \<mapsto> new_context], pc_of = (\<lambda>a. PcFree)(0 := PcRequested), rpc_contexts = (\<lambda>k. None), in_flight = [],
      topic = [], replies = [], issued = {}, database = db, crashed = False\<rparr>"

section \<open>Interleavings\<close>

datatype label =
    Arrive nat nat
  | Complete nat
  | Begin nat
  | ProduceOk nat "(string \<times> bool) list"
  | ProduceFail nat

text \<open>A request is what gRPC has parsed from the bytes of a call; the random draws are those of a distribution on
  0 to 61; librdkafka accepts messages of at most \<open>message.max.bytes\<close>, a million by default. Delivery reports are
  for messages that were accepted and not reported before, each once. With \<open>u\<close> set, message ids are fresh:
  no id is generated twice.\<close>

inductive logic_step :: "pb_rt \<Rightarrow> bool \<Rightarrow> label \<Rightarrow> logic_state \<Rightarrow> logic_state \<Rightarrow> bool"
  for rt :: pb_rt and u :: bool where
  ls_arrive: "pc_of st a = PcRequested \<Longrightarrow> pc_of st n = PcFree \<Longrightarrow> ProtoReq_ParseFromArray rt bytes = Some q \<Longrightarrow>
     logic_step rt u (Arrive a n) st (run_iteration a q n st)"
| ls_complete: "heap st a = Some c \<Longrightarrow> is_done c \<Longrightarrow> logic_step rt u (Complete a) st (run_iteration a q n st)"
| ls_begin: "pc_of st a = PcQueued \<Longrightarrow> (\<And>i. dis i < 62) \<Longrightarrow>
     (\<And>c. u \<Longrightarrow> heap st a = Some c \<Longrightarrow> gen_msgid ms (ProtoReq_from_uid (req c)) dis \<notin> issued st) \<Longrightarrow>
     logic_step rt u (Begin a) st (handle_begin ms dis fl a st)"
| ls_produce_ok: "pc_of st a = PcProducing \<Longrightarrow> distinct (map fst reports) \<Longrightarrow>
     (\<And>c. heap st a = Some c \<Longrightarrow> fst ` set reports \<subseteq> insert (ProtoResp_msgid (resp c)) (set (in_flight st)) \<and>
        length (MqMessage_InternalSerialize rt (mq_of c)) \<le> 1000000) \<Longrightarrow>
     logic_step rt u (ProduceOk a reports) st (handle_produce rt True reports a st)"
| ls_produce_fail: "pc_of st a = PcProducing \<Longrightarrow>
     logic_step rt u (ProduceFail a) st (handle_produce rt False [] a st)"

definition logic_any :: "pb_rt \<Rightarrow> bool \<Rightarrow> logic_state \<Rightarrow> logic_state \<Rightarrow> bool" where
  "logic_any rt u st st' \<longleftrightarrow> (\<exists>l. logic_step rt u l st st')"

section \<open>The invariant of a server whose message ids are fresh\<close>

text \<open>What \<open>Handle\<close> has checked before it registers a context: the request is of a kind that is forwarded, and
  the answer is the one generated for it.\<close>

definition forwardable :: "RpcContext \<Rightarrow> bool" where
  "forwardable c \<longleftrightarrow> ProtoReq_type (req c) \<in> {TypeFriendCtrl, TypeFriendState, TypeFriendMsg, TypeGroupMsg} \<and>
     (\<exists>ms dis. (\<forall>i. dis i < 62) \<and> resp c = GenProtoResp ms dis (ProtoReq_from_uid (req c)))"

text \<open>\<open>K\<close> are the keys whose reports \<open>poll\<close> is about to serve. A context that has not been answered is on its
  way to \<open>Handle\<close> or registered under its id; a registered context is alive, unanswered and either about
  to be produced or in flight; every report on its way finds its context; a context is answered once,
  after \<open>Handle\<close> has returned.\<close>

definition awaited :: "string set \<Rightarrow> logic_state \<Rightarrow> string set" where
  "awaited K st = set (in_flight st) \<union> K"

definition linv :: "string set \<Rightarrow> logic_state \<Rightarrow> bool" where
  "linv K st \<longleftrightarrow> \<not> crashed st \<and>
     (\<forall>a c. heap st a = Some c \<and> \<not> is_done c \<longrightarrow>
        pc_of st a = PcRequested \<or> pc_of st a = PcQueued \<or> rpc_contexts st (ProtoResp_msgid (resp c)) = Some a) \<and>
     (\<forall>k a. rpc_contexts st k = Some a \<longrightarrow>
        k \<in> issued st \<and> (\<exists>c. heap st a = Some c \<and> \<not> is_done c \<and> ProtoResp_msgid (resp c) = k) \<and>
        (pc_of st a = PcProducing \<and> k \<notin> awaited K st \<or> pc_of st a = PcReturned \<and> k \<in> awaited K st)) \<and>
     (\<forall>a. pc_of st a \<in> {PcRequested, PcQueued, PcProducing} \<longrightarrow> (\<exists>c. heap st a = Some c \<and> \<not> is_done c)) \<and>
     (\<forall>a c. pc_of st a = PcProducing \<and> heap st a = Some c \<longrightarrow> forwardable c) \<and>
     (\<forall>k \<in> awaited K st. rpc_contexts st k \<noteq> None) \<and>
     (\<forall>a. pc_of st a = PcFree \<longrightarrow> heap st a = None) \<and>
     (\<forall>a. count_list (map fst (replies st)) a =
        (if pc_of st a = PcReturned \<and> (\<forall>c. heap st a = Some c \<longrightarrow> is_done c) then 1 else 0))"

lemma linvI:
  assumes "\<not> crashed st"
    and "\<And>a c. heap st a = Some c \<Longrightarrow> \<not> is_done c \<Longrightarrow>
      pc_of st a = PcRequested \<or> pc_of st a = PcQueued \<or> rpc_contexts st (ProtoResp_msgid (resp c)) = Some a"
    and "\<And>k a. rpc_contexts st k = Some a \<Longrightarrow>
      k \<in> issued st \<and> (\<exists>c. heap st a = Some c \<and> \<not> is_done c \<and> ProtoResp_msgid (resp c) = k) \<and>
      (pc_of st a = PcProducing \<and> k \<notin> awaited K st \<or> pc_of st a = PcReturned \<and> k \<in> awaited K st)"
    and "\<And>a. pc_of st a \<in> {PcRequested, PcQueued, PcProducing} \<Longrightarrow> \<exists>c. heap st a = Some c \<and> \<not> is_done c"
    and "\<And>a c. pc_of st a = PcProducing \<Longrightarrow> heap st a = Some c \<Longrightarrow> forwardable c"
    and "\<And>k. k \<in> awaited K st \<Longrightarrow> rpc_contexts st k \<noteq> None"
    and "\<And>a. pc_of st a = PcFree \<Longrightarrow> heap st a = None"
    and "\<And>a. count_list (map fst (replies st)) a =
      (if pc_of st a = PcReturned \<and> (\<forall>c. heap st a = Some c \<longrightarrow> is_done c) then 1 else 0)"
  shows "linv K st"
  unfolding linv_def using assms by (intro conjI allI impI ballI) blast+

lemma linvD:
  assumes "linv K st"
  shows linv_crashed: "\<not> crashed st"
    and linv_unanswered: "heap st a = Some c \<Longrightarrow> \<not> is_done c \<Longrightarrow>
      pc_of st a = PcRequested \<or> pc_of st a = PcQueued \<or> rpc_contexts st (ProtoResp_msgid (resp c)) = Some a"
    and linv_issued: "rpc_contexts st k = Some a \<Longrightarrow> k \<in> issued st"
    and linv_registered: "rpc_contexts st k = Some a \<Longrightarrow>
      \<exists>c. heap st a = Some c \<and> \<not> is_done c \<and> ProtoResp_msgid (resp c) = k"
    and linv_pc: "rpc_contexts st k = Some a \<Longrightarrow>
      pc_of st a = PcProducing \<and> k \<notin> awaited K st \<or> pc_of st a = PcReturned \<and> k \<in> awaited K st"
    and linv_busy: "pc_of st a \<in> {PcRequested, PcQueued, PcProducing} \<Longrightarrow> \<exists>c. heap st a = Some c \<and> \<not> is_done c"
    and linv_forwardable: "pc_of st a = PcProducing \<Longrightarrow> heap st a = Some c \<Longrightarrow> forwardable c"
    and linv_awaited: "k \<in> awaited K st \<Longrightarrow> rpc_contexts st k \<noteq> None"
    and linv_free: "pc_of st a = PcFree \<Longrightarrow> heap st a = None"
    and linv_replies: "count_list (map fst (replies st)) a =
      (if pc_of st a = PcReturned \<and> (\<forall>c. heap st a = Some c \<longrightarrow> is_done c) then 1 else 0)"
  using assms unfolding linv_def by blast+

lemma linv_key_unique: "linv K st \<Longrightarrow> rpc_contexts st k = Some a \<Longrightarrow> rpc_contexts st k' = Some a \<Longrightarrow> k' = k"
  using linv_registered [of K st k a] linv_registered [of K st k' a] by force

lemma Finish_live:
  "heap st a = Some c \<Longrightarrow> \<not> is_done c \<Longrightarrow>
   Finish a f st = st\<lparr>heap := (heap st)(a \<mapsto> (f c)\<lparr>is_done := True\<rparr>), replies := replies st @ [(a, resp (f c))]\<rparr>"
  by (simp add: Finish_def Let_def)

lemma GenProtoResp_msgid [simp]: "ProtoResp_msgid (GenProtoResp ms dis uid) = gen_msgid ms uid dis"
  by (simp add: GenProtoResp_def ProtoResp_set_timestamp_def ProtoResp_set_msgid_def ProtoResp_msgid_def)

lemma mq_of_msgid [simp]: "ProtoResp_msgid (MqMessage_handle_result (mq_of c)) = ProtoResp_msgid (resp c)"
  by (simp add: mq_of_def MqMessage_handle_result_def)

text \<open>Answering a registered context while its registration is removed.\<close>

lemma finish_linv:
  assumes inv: "linv K st" and k: "rpc_contexts st k = Some a" and K': "k \<notin> K'" "awaited K st - {k} = awaited K' st"
    and f: "k \<notin> set (in_flight st)"
  shows "linv K' (Finish a f (st\<lparr>pc_of := (pc_of st)(a := PcReturned), rpc_contexts := (rpc_contexts st)(k := None)\<rparr>))"
    (is "linv K' ?st")
proof -
  obtain c where c: "heap st a = Some c" "\<not> is_done c" "ProtoResp_msgid (resp c) = k"
    using linv_registered [OF inv k] by blast
  have F: "?st = st\<lparr>rpc_contexts := (rpc_contexts st)(k := None), pc_of := (pc_of st)(a := PcReturned),
      heap := (heap st)(a \<mapsto> (f c)\<lparr>is_done := True\<rparr>), replies := replies st @ [(a, resp (f c))]\<rparr>"
    using c by (simp add: Finish_live)
  have aw: "awaited K' ?st = awaited K st - {k}" unfolding K' by (simp add: F awaited_def)
  have other: "rpc_contexts st k' = Some a \<Longrightarrow> k' = k" for k' by (rule linv_key_unique [OF inv k])
  show ?thesis
  proof (rule linvI)
    show "\<not> crashed ?st" using linv_crashed [OF inv] by (simp add: F)
  next
    fix b d assume "heap ?st b = Some d" "\<not> is_done d"
    then have "b \<noteq> a" "heap st b = Some d" "\<not> is_done d" by (auto simp: F split: if_splits)
    then show "pc_of ?st b = PcRequested \<or> pc_of ?st b = PcQueued \<or>
        rpc_contexts ?st (ProtoResp_msgid (resp d)) = Some b"
      using linv_unanswered [OF inv, of b d] k by (auto simp: F)
  next
    fix k' b assume "rpc_contexts ?st k' = Some b"
    then have *: "k' \<noteq> k" "rpc_contexts st k' = Some b" by (auto simp: F split: if_splits)
    then have "b \<noteq> a" using other by blast
    then show "k' \<in> issued ?st \<and> (\<exists>d. heap ?st b = Some d \<and> \<not> is_done d \<and> ProtoResp_msgid (resp d) = k') \<and>
        (pc_of ?st b = PcProducing \<and> k' \<notin> awaited K' ?st \<or> pc_of ?st b = PcReturned \<and> k' \<in> awaited K' ?st)"
      using linv_issued [OF inv *(2)] linv_registered [OF inv *(2)] linv_pc [OF inv *(2)] *(1)
      unfolding aw by (simp add: F)
  next
    fix b assume "pc_of ?st b \<in> {PcRequested, PcQueued, PcProducing}"
    then show "\<exists>d. heap ?st b = Some d \<and> \<not> is_done d"
      using linv_busy [OF inv, of b] by (auto simp: F split: if_splits)
  next
    fix b d assume "pc_of ?st b = PcProducing" "heap ?st b = Some d"
    then show "forwardable d" using linv_forwardable [OF inv, of b d] by (auto simp: F split: if_splits)
  next
    fix k' assume "k' \<in> awaited K' ?st"
    then show "rpc_contexts ?st k' \<noteq> None" using linv_awaited [OF inv, of k'] unfolding aw by (simp add: F)
  next
    fix b assume "pc_of ?st b = PcFree"
    then show "heap ?st b = None" using linv_free [OF inv, of b] by (auto simp: F split: if_splits)
  next
    fix b show "count_list (map fst (replies ?st)) b =
        (if pc_of ?st b = PcReturned \<and> (\<forall>c. heap ?st b = Some c \<longrightarrow> is_done c) then 1 else 0)"
      using linv_replies [OF inv, of b] c by (cases "b = a") (simp_all add: F)
  qed
qed

lemma Finish_in_flight [simp]: "in_flight (Finish a f st) = in_flight st"
  by (simp add: Finish_def Let_def split: option.split)

lemma dr_cb_linv:
  assumes inv: "linv (insert k K) st" and k: "k \<notin> K" "k \<notin> set (in_flight st)"
  shows "linv K (dr_cb (k, err) st)" and "in_flight (dr_cb (k, err) st) = in_flight st"
proof -
  obtain a where a: "rpc_contexts st k = Some a" using linv_awaited [OF inv, of k] by (auto simp: awaited_def)
  have "pc_of st a = PcReturned" using linv_pc [OF inv a] by (auto simp: awaited_def)
  then have pc: "(pc_of st)(a := PcReturned) = pc_of st" by auto
  have fin: "linv K (Finish a f (st\<lparr>rpc_contexts := (rpc_contexts st)(k := None)\<rparr>))" for f
    using finish_linv [OF inv a k(1) _ k(2), of f] k(2) k(1) by (auto simp: pc awaited_def)
  then show "linv K (dr_cb (k, err) st)" by (simp add: dr_cb_def a Let_def)
  show "in_flight (dr_cb (k, err) st) = in_flight st" by (simp add: dr_cb_def a Let_def)
qed

lemma poll_linv:
  "linv (fst ` set reports) st \<Longrightarrow> distinct (map fst reports) \<Longrightarrow> set (in_flight st) \<inter> fst ` set reports = {} \<Longrightarrow>
   linv {} (fold dr_cb reports st)"
proof (induction reports arbitrary: st)
  case (Cons r rs)
  obtain k e where r: "r = (k, e)" by (cases r)
  have "linv (insert k (fst ` set rs)) st" "k \<notin> fst ` set rs" "k \<notin> set (in_flight st)" using Cons.prems r by auto
  from dr_cb_linv [OF this] show ?case using Cons.IH [of "dr_cb r st"] Cons.prems r by auto
qed simp

text \<open>\<open>Produce\<close> has handed the message of \<open>a\<close> to librdkafka.\<close>

lemma produced_linv:
  assumes inv: "linv {} st" and c: "heap st a = Some c" and pc: "pc_of st a = PcProducing"
    and K: "set fl \<union> K = insert (ProtoResp_msgid (resp c)) (set (in_flight st))"
  shows "linv K (st\<lparr>pc_of := (pc_of st)(a := PcReturned), topic := t, in_flight := fl\<rparr>)" (is "linv K ?st")
proof -
  let ?k = "ProtoResp_msgid (resp c)"
  have live: "\<not> is_done c" using linv_busy [OF inv, of a] c pc by simp
  have k: "rpc_contexts st ?k = Some a" using linv_unanswered [OF inv c live] pc by simp
  have aw: "awaited K ?st = insert ?k (awaited {} st)" using K by (simp add: awaited_def)
  show ?thesis
  proof (rule linvI)
    show "\<not> crashed ?st" using linv_crashed [OF inv] by simp
  next
    fix b d assume "heap ?st b = Some d" "\<not> is_done d"
    then show "pc_of ?st b = PcRequested \<or> pc_of ?st b = PcQueued \<or>
        rpc_contexts ?st (ProtoResp_msgid (resp d)) = Some b"
      using linv_unanswered [OF inv, of b d] c k by auto
  next
    fix k' b assume "rpc_contexts ?st k' = Some b"
    then have *: "rpc_contexts st k' = Some b" by simp
    have "b = a \<longleftrightarrow> k' = ?k" using * k linv_key_unique [OF inv k, of k'] by fastforce
    then show "k' \<in> issued ?st \<and> (\<exists>d. heap ?st b = Some d \<and> \<not> is_done d \<and> ProtoResp_msgid (resp d) = k') \<and>
        (pc_of ?st b = PcProducing \<and> k' \<notin> awaited K ?st \<or> pc_of ?st b = PcReturned \<and> k' \<in> awaited K ?st)"
      using linv_issued [OF inv *] linv_registered [OF inv *] linv_pc [OF inv *] unfolding aw
      by (cases "k' = ?k") simp_all
  next
    fix b assume "pc_of ?st b \<in> {PcRequested, PcQueued, PcProducing}"
    then show "\<exists>d. heap ?st b = Some d \<and> \<not> is_done d" using linv_busy [OF inv, of b] by (auto split: if_splits)
  next
    fix b d assume "pc_of ?st b = PcProducing" "heap ?st b = Some d"
    then show "forwardable d" using linv_forwardable [OF inv, of b d] by (auto split: if_splits)
  next
    fix k' assume "k' \<in> awaited K ?st"
    then show "rpc_contexts ?st k' \<noteq> None" using linv_awaited [OF inv, of k'] k unfolding aw by auto
  next
    fix b assume "pc_of ?st b = PcFree"
    then show "heap ?st b = None" using linv_free [OF inv, of b] by (auto split: if_splits)
  next
    fix b show "count_list (map fst (replies ?st)) b =
        (if pc_of ?st b = PcReturned \<and> (\<forall>c. heap ?st b = Some c \<longrightarrow> is_done c) then 1 else 0)"
      using linv_replies [OF inv, of b] c live pc by (cases "b = a") simp_all
  qed
qed

lemma handle_produce_ok_linv:
  assumes inv: "linv {} st" and pc: "pc_of st a = PcProducing" and d: "distinct (map fst reports)"
    and r: "\<And>c. heap st a = Some c \<Longrightarrow> fst ` set reports \<subseteq> insert (ProtoResp_msgid (resp c)) (set (in_flight st))"
  shows "linv {} (handle_produce rt True reports a st)"
proof -
  obtain c where c: "heap st a = Some c" using linv_busy [OF inv, of a] pc by auto
  let ?k = "ProtoResp_msgid (resp c)"
  let ?fl = "filter (\<lambda>k. k \<notin> fst ` set reports) (in_flight st @ [?k])"
  have "set ?fl \<union> fst ` set reports = insert ?k (set (in_flight st))" using r [OF c] by auto
  then have "linv {} (fold dr_cb reports (st\<lparr>pc_of := (pc_of st)(a := PcReturned),
      topic := topic st @ [(?k, MqMessage_InternalSerialize rt (mq_of c))], in_flight := ?fl\<rparr>))"
    by (intro poll_linv produced_linv [OF inv c pc] d) auto
  then show ?thesis using c by (simp add: handle_produce_def Produce_def Let_def split: if_splits)
qed

lemma handle_produce_fail_linv:
  assumes inv: "linv {} st" and pc: "pc_of st a = PcProducing"
  shows "linv {} (handle_produce rt False [] a st)"
proof -
  obtain c where c: "heap st a = Some c" "\<not> is_done c" using linv_busy [OF inv, of a] pc by auto
  let ?k = "ProtoResp_msgid (resp c)"
  have k: "rpc_contexts st ?k = Some a" using linv_unanswered [OF inv c] pc by simp
  have n: "?k \<notin> set (in_flight st)" using linv_pc [OF inv k] pc by (simp add: awaited_def)
  have "awaited {} st - {?k} = awaited {} st" using n by (auto simp: awaited_def)
  from finish_linv [OF inv k _ this n, of "set_error ''Produce error''"]
  show ?thesis using c by (simp add: handle_produce_def Produce_def Let_def)
qed

lemma run_arrive_linv:
  assumes inv: "linv {} st" and a: "pc_of st a = PcRequested" and n: "pc_of st n = PcFree"
  shows "linv {} (run_iteration a q n st)" (is "linv {} ?st")
proof -
  obtain c where c: "heap st a = Some c" "\<not> is_done c" using linv_busy [OF inv, of a] a by auto
  have n': "heap st n = None" "n \<noteq> a" using linv_free [OF inv n] a n by auto
  have F: "?st = st\<lparr>heap := (heap st)(a \<mapsto> c\<lparr>req := q\<rparr>, n \<mapsto> new_context),
      pc_of := (pc_of st)(a := PcQueued, n := PcRequested)\<rparr>"
    using c by (simp add: run_iteration_def)
  have aw: "awaited {} ?st = awaited {} st" by (simp add: F awaited_def)
  show ?thesis
  proof (rule linvI)
    show "\<not> crashed ?st" using linv_crashed [OF inv] by (simp add: F)
  next
    fix b d assume "heap ?st b = Some d" "\<not> is_done d"
    then show "pc_of ?st b = PcRequested \<or> pc_of ?st b = PcQueued \<or>
        rpc_contexts ?st (ProtoResp_msgid (resp d)) = Some b"
      using linv_unanswered [OF inv, of b d] by (auto simp: F split: if_splits)
  next
    fix k' b assume "rpc_contexts ?st k' = Some b"
    then have *: "rpc_contexts st k' = Some b" by (simp add: F)
    have "b \<noteq> a" "b \<noteq> n" using linv_pc [OF inv *] a n by auto
    then show "k' \<in> issued ?st \<and> (\<exists>d. heap ?st b = Some d \<and> \<not> is_done d \<and> ProtoResp_msgid (resp d) = k') \<and>
        (pc_of ?st b = PcProducing \<and> k' \<notin> awaited {} ?st \<or> pc_of ?st b = PcReturned \<and> k' \<in> awaited {} ?st)"
      using linv_issued [OF inv *] linv_registered [OF inv *] linv_pc [OF inv *] unfolding aw by (simp add: F)
  next
    fix b assume "pc_of ?st b \<in> {PcRequested, PcQueued, PcProducing}"
    then show "\<exists>d. heap ?st b = Some d \<and> \<not> is_done d"
      using linv_busy [OF inv, of b] c by (auto simp: F new_context_def split: if_splits)
  next
    fix b d assume "pc_of ?st b = PcProducing" "heap ?st b = Some d"
    then show "forwardable d" using linv_forwardable [OF inv, of b d] by (auto simp: F split: if_splits)
  next
    fix k' assume "k' \<in> awaited {} ?st"
    then show "rpc_contexts ?st k' \<noteq> None" using linv_awaited [OF inv, of k'] unfolding aw by (simp add: F)
  next
    fix b assume "pc_of ?st b = PcFree"
    then show "heap ?st b = None" using linv_free [OF inv, of b] by (auto simp: F split: if_splits)
  next
    fix b show "count_list (map fst (replies ?st)) b =
        (if pc_of ?st b = PcReturned \<and> (\<forall>c. heap ?st b = Some c \<longrightarrow> is_done c) then 1 else 0)"
      using linv_replies [OF inv, of b] a n n' by (cases "b = a"; cases "b = n") (simp_all add: F)
  qed
qed

lemma run_complete_linv:
  assumes inv: "linv {} st" and c: "heap st a = Some c" "is_done c"
  shows "linv {} (run_iteration a q n st)" (is "linv {} ?st")
proof -
  have F: "?st = st\<lparr>heap := (heap st)(a := None)\<rparr>" using c by (simp add: run_iteration_def)
  have aw: "awaited {} ?st = awaited {} st" by (simp add: F awaited_def)
  have pc: "pc_of st a \<notin> {PcRequested, PcQueued, PcProducing}" using linv_busy [OF inv, of a] c by auto
  show ?thesis
  proof (rule linvI)
    show "\<not> crashed ?st" using linv_crashed [OF inv] by (simp add: F)
  next
    fix b d assume "heap ?st b = Some d" "\<not> is_done d"
    then show "pc_of ?st b = PcRequested \<or> pc_of ?st b = PcQueued \<or>
        rpc_contexts ?st (ProtoResp_msgid (resp d)) = Some b"
      using linv_unanswered [OF inv, of b d] by (auto simp: F split: if_splits)
  next
    fix k' b assume "rpc_contexts ?st k' = Some b"
    then have *: "rpc_contexts st k' = Some b" by (simp add: F)
    have "b \<noteq> a" using linv_registered [OF inv *] c by auto
    then show "k' \<in> issued ?st \<and> (\<exists>d. heap ?st b = Some d \<and> \<not> is_done d \<and> ProtoResp_msgid (resp d) = k') \<and>
        (pc_of ?st b = PcProducing \<and> k' \<notin> awaited {} ?st \<or> pc_of ?st b = PcReturned \<and> k' \<in> awaited {} ?st)"
      using linv_issued [OF inv *] linv_registered [OF inv *] linv_pc [OF inv *] unfolding aw by (simp add: F)
  next
    fix b assume "pc_of ?st b \<in> {PcRequested, PcQueued, PcProducing}"
    then show "\<exists>d. heap ?st b = Some d \<and> \<not> is_done d" using linv_busy [OF inv, of b] pc by (auto simp: F)
  next
    fix b d assume "pc_of ?st b = PcProducing" "heap ?st b = Some d"
    then show "forwardable d" using linv_forwardable [OF inv, of b d] by (auto simp: F split: if_splits)
  next
    fix k' assume "k' \<in> awaited {} ?st"
    then show "rpc_contexts ?st k' \<noteq> None" using linv_awaited [OF inv, of k'] unfolding aw by (simp add: F)
  next
    fix b assume "pc_of ?st b = PcFree"
    then show "heap ?st b = None" using linv_free [OF inv, of b] by (simp add: F)
  next
    fix b show "count_list (map fst (replies ?st)) b =
        (if pc_of ?st b = PcReturned \<and> (\<forall>c. heap ?st b = Some c \<longrightarrow> is_done c) then 1 else 0)"
      using linv_replies [OF inv, of b] c by (cases "b = a") (simp_all add: F)
  qed
qed

lemma handle_switch_Accept:
  "fst (handle_switch fl db q) = Accept \<Longrightarrow> ProtoReq_type q \<in> {TypeFriendCtrl, TypeFriendState, TypeFriendMsg, TypeGroupMsg}"
  by (auto simp: handle_switch_def Let_def GroupCtrlHandle_def split: if_splits prod.splits sum.splits)

text \<open>\<open>Handle\<close> has registered a context under a fresh id. A context it answers at once is seen as registered
  and reported in the same step, which is the instance \<open>p = PcReturned\<close>.\<close>

lemma register_linv:
  assumes inv: "linv {} st" and a: "pc_of st a = PcQueued" "heap st a = Some c" and k: "k \<notin> issued st"
    and r: "ProtoResp_msgid r = k" and p: "p = PcProducing \<and> K = {} \<and> forwardable (c\<lparr>resp := r\<rparr>) \<or> p = PcReturned \<and> K = {k}"
  shows "linv K (st\<lparr>heap := (heap st)(a \<mapsto> c\<lparr>resp := r\<rparr>), database := db', issued := insert k (issued st),
      rpc_contexts := (rpc_contexts st)(k \<mapsto> a), pc_of := (pc_of st)(a := p)\<rparr>)" (is "linv K ?st")
proof -
  have live: "\<not> is_done c" using linv_busy [OF inv, of a] a by simp
  have new: "rpc_contexts st k = None" using linv_issued [OF inv, of k] k by (cases "rpc_contexts st k") auto
  have aw: "awaited K ?st = K \<union> awaited {} st" by (auto simp: awaited_def)
  have kaw: "k \<notin> awaited {} st" using linv_awaited [OF inv, of k] new by blast
  have notreg: "rpc_contexts st k' \<noteq> Some a" for k' using linv_pc [OF inv, of k' a] a by auto
  show ?thesis
  proof (rule linvI)
    show "\<not> crashed ?st" using linv_crashed [OF inv] by simp
  next
    fix b d assume "heap ?st b = Some d" "\<not> is_done d"
    then show "pc_of ?st b = PcRequested \<or> pc_of ?st b = PcQueued \<or>
        rpc_contexts ?st (ProtoResp_msgid (resp d)) = Some b"
      using linv_unanswered [OF inv, of b d] new r by (cases "b = a") auto
  next
    fix k' b assume *: "rpc_contexts ?st k' = Some b"
    show "k' \<in> issued ?st \<and> (\<exists>d. heap ?st b = Some d \<and> \<not> is_done d \<and> ProtoResp_msgid (resp d) = k') \<and>
        (pc_of ?st b = PcProducing \<and> k' \<notin> awaited K ?st \<or> pc_of ?st b = PcReturned \<and> k' \<in> awaited K ?st)"
    proof (cases "k' = k")
      case True
      then show ?thesis using * kaw live r p unfolding aw by auto
    next
      case False
      then have **: "rpc_contexts st k' = Some b" using * by simp
      then have "b \<noteq> a" using notreg by blast
      then show ?thesis
        using linv_issued [OF inv **] linv_registered [OF inv **] linv_pc [OF inv **] p False unfolding aw
        by auto
    qed
  next
    fix b assume "pc_of ?st b \<in> {PcRequested, PcQueued, PcProducing}"
    then show "\<exists>d. heap ?st b = Some d \<and> \<not> is_done d"
      using linv_busy [OF inv, of b] live p by (cases "b = a") auto
  next
    fix b d assume "pc_of ?st b = PcProducing" "heap ?st b = Some d"
    then show "forwardable d" using linv_forwardable [OF inv, of b d] p by (cases "b = a") auto
  next
    fix k' assume "k' \<in> awaited K ?st"
    then show "rpc_contexts ?st k' \<noteq> None" using linv_awaited [OF inv, of k'] p unfolding aw by auto
  next
    fix b assume "pc_of ?st b = PcFree"
    then show "heap ?st b = None" using linv_free [OF inv, of b] p by (cases "b = a") auto
  next
    fix b show "count_list (map fst (replies ?st)) b =
        (if pc_of ?st b = PcReturned \<and> (\<forall>c. heap ?st b = Some c \<longrightarrow> is_done c) then 1 else 0)"
      using linv_replies [OF inv, of b] a live p by (cases "b = a") auto
  qed
qed

lemma handle_begin_linv:
  assumes inv: "linv {} st" and a: "pc_of st a = PcQueued" and dis: "\<And>i. dis i < 62"
    and fresh: "\<And>c. heap st a = Some c \<Longrightarrow> gen_msgid ms (ProtoReq_from_uid (req c)) dis \<notin> issued st"
  shows "linv {} (handle_begin ms dis fl a st)"
proof -
  obtain c where c: "heap st a = Some c" "\<not> is_done c" using linv_busy [OF inv, of a] a by auto
  let ?k = "gen_msgid ms (ProtoReq_from_uid (req c)) dis" and ?r = "GenProtoResp ms dis (ProtoReq_from_uid (req c))"
  obtain v db' where v: "handle_switch fl (database st) (req c) = (v, db')" by fastforce
  let ?reg = "\<lambda>p. st\<lparr>heap := (heap st)(a \<mapsto> c\<lparr>resp := ?r\<rparr>), database := db', issued := insert ?k (issued st),
      rpc_contexts := (rpc_contexts st)(?k \<mapsto> a), pc_of := (pc_of st)(a := p)\<rparr>"
  have new: "(rpc_contexts st)(?k := None) = rpc_contexts st"
    using linv_issued [OF inv, of ?k] fresh [OF c(1)] by (cases "rpc_contexts st ?k") auto
  have notfl: "?k \<notin> set (in_flight st)"
    using linv_awaited [OF inv, of ?k] new by (auto simp: awaited_def fun_upd_idem_iff)
  have ret: "linv {?k} (?reg PcReturned)"
    by (rule register_linv [OF inv a c(1) fresh [OF c(1)]]) simp_all
  have fin: "linv {} (Finish a f (st\<lparr>heap := (heap st)(a \<mapsto> c\<lparr>resp := ?r\<rparr>), database := db',
      issued := insert ?k (issued st), pc_of := (pc_of st)(a := PcReturned)\<rparr>))" for f
    using finish_linv [OF ret, of ?k a "{}" f] notfl by (simp add: awaited_def new)
  show ?thesis
  proof (cases v)
    case Accept
    then have "forwardable (c\<lparr>resp := ?r\<rparr>)" using handle_switch_Accept [of fl "database st" "req c"] v
      dis by (auto simp: forwardable_def)
    then have "linv {} (?reg PcProducing)" by (intro register_linv [OF inv a c(1) fresh [OF c(1)]]) simp_all
    then show ?thesis using Accept c v by (simp add: handle_begin_def Let_def)
  qed (use fin c v in \<open>simp_all add: handle_begin_def Let_def\<close>)
qed

lemma logic_step_linv:
  assumes "logic_step rt True l st st'" and "linv {} st"
  shows "linv {} st'"
  using assms(1)
proof cases
  case (ls_arrive a n q)
  then show ?thesis using run_arrive_linv [OF assms(2)] by simp
next
  case (ls_complete a c q n)
  then show ?thesis using run_complete_linv [OF assms(2)] by simp
next
  case (ls_begin a ms dis fl)
  then show ?thesis using handle_begin_linv [OF assms(2)] by simp
next
  case (ls_produce_ok a reports)
  then show ?thesis using handle_produce_ok_linv [OF assms(2)] by simp
next
  case (ls_produce_fail a)
  then show ?thesis using handle_produce_fail_linv [OF assms(2)] by simp
qed

lemma run_start_linv: "linv {} (run_start db)"
  by (rule linvI) (auto simp: run_start_def new_context_def awaited_def split: if_splits)

lemma logic_reach_linv: "(logic_any rt True)\<^sup>*\<^sup>* (run_start db) st \<Longrightarrow> linv {} st"
  by (induction rule: rtranclp_induct) (auto simp: run_start_linv logic_any_def intro: logic_step_linv)

section \<open>What is produced\<close>

text \<open>Every context whose call has arrived holds a request that was parsed from some bytes.\<close>

definition parsed :: "pb_rt \<Rightarrow> ProtoReq \<Rightarrow> bool" where
  "parsed rt q \<longleftrightarrow> (\<exists>bytes. ProtoReq_ParseFromArray rt bytes = Some q)"

definition reqs_parsed :: "pb_rt \<Rightarrow> logic_state \<Rightarrow> bool" where
  "reqs_parsed rt st \<longleftrightarrow> (\<forall>a c. heap st a = Some c \<and> (pc_of st a = PcQueued \<or> pc_of st a = PcProducing) \<longrightarrow> parsed rt (req c))"

text \<open>Every message in the topic is keyed by its id and carries a forwarded request with its answer.\<close>

definition topic_ok :: "pb_rt \<Rightarrow> logic_state \<Rightarrow> bool" where
  "topic_ok rt st \<longleftrightarrow> (\<forall>(k, p) \<in> set (topic st). \<exists>c. forwardable c \<and> parsed rt (req c) \<and>
     k = ProtoResp_msgid (resp c) \<and> p = MqMessage_InternalSerialize rt (mq_of c) \<and> length p \<le> 1000000)"

lemma Finish_topic [simp]: "topic (Finish a f st) = topic st" "pc_of (Finish a f st) = pc_of st"
  by (simp_all add: Finish_def Let_def split: option.split)

lemma dr_cb_topic [simp]: "topic (dr_cb r st) = topic st" "pc_of (dr_cb r st) = pc_of st"
  by (cases r; simp add: dr_cb_def Let_def split: option.split)+

lemma poll_topic [simp]: "topic (fold dr_cb rs st) = topic st" "pc_of (fold dr_cb rs st) = pc_of st"
  by (induction rs arbitrary: st) auto

lemma handle_begin_topic [simp]: "topic (handle_begin ms dis fl a st) = topic st"
  by (simp add: handle_begin_def Let_def split: option.split prod.split verdict.split)

lemma run_iteration_topic [simp]: "topic (run_iteration a q n st) = topic st"
  by (simp add: run_iteration_def split: option.split)

text \<open>Answering a context leaves its request as it was.\<close>

lemma set_error_req [simp]: "req (set_error txt c) = req c"
  by (simp add: set_error_def)

lemma Finish_req: "(\<And>c. req (f c) = req c) \<Longrightarrow> map_option req (heap (Finish a f st) b) = map_option req (heap st b)"
  by (simp add: Finish_def Let_def split: option.split)

lemma dr_cb_req: "map_option req (heap (dr_cb r st) b) = map_option req (heap st b)"
  by (cases r) (simp add: dr_cb_def Let_def Finish_req split: option.split)

lemma poll_req: "map_option req (heap (fold dr_cb rs st) b) = map_option req (heap st b)"
  by (induction rs arbitrary: st) (simp_all add: dr_cb_req)

lemma reqs_parsedI:
  assumes "reqs_parsed rt st"
    and "\<And>b. pc_of st' b = PcQueued \<or> pc_of st' b = PcProducing \<Longrightarrow> pc_of st b = PcQueued \<or> pc_of st b = PcProducing"
    and "\<And>b. map_option req (heap st' b) = map_option req (heap st b)"
  shows "reqs_parsed rt st'"
  unfolding reqs_parsed_def
proof (intro allI impI)
  fix b c assume *: "heap st' b = Some c \<and> (pc_of st' b = PcQueued \<or> pc_of st' b = PcProducing)"
  then obtain d where "heap st b = Some d" "req d = req c" using assms(3) [of b] by (metis (no_types) map_option_eq_Some option.simps(9))
  then show "parsed rt (req c)" using assms(1,2) * unfolding reqs_parsed_def by metis
qed

lemma handle_begin_req:
  assumes "heap st a = Some c"
  shows "map_option req (heap (handle_begin ms dis fl a st) b) = map_option req (heap st b)"
  using assms by (simp add: handle_begin_def Let_def Finish_req split: prod.split verdict.split)

lemma handle_produce_req:
  assumes "heap st a = Some c"
  shows "map_option req (heap (handle_produce rt ok rs a st) b) = map_option req (heap st b)"
  using assms by (simp add: handle_produce_def Produce_def Let_def Finish_req poll_req)

lemma handle_begin_pc:
  "pc_of st a = PcQueued \<Longrightarrow> pc_of (handle_begin ms dis fl a st) b = PcQueued \<or> pc_of (handle_begin ms dis fl a st) b = PcProducing \<Longrightarrow>
   pc_of st b = PcQueued \<or> pc_of st b = PcProducing"
  by (auto simp: handle_begin_def Let_def split: option.splits prod.splits verdict.splits if_splits)

lemma handle_produce_pc:
  "pc_of (handle_produce rt ok rs a st) b = PcQueued \<or> pc_of (handle_produce rt ok rs a st) b = PcProducing \<Longrightarrow>
   pc_of st b = PcQueued \<or> pc_of st b = PcProducing"
  by (auto simp: handle_produce_def Produce_def Let_def split: option.splits if_splits)

lemma logic_step_reqs:
  assumes "logic_step rt True l st st'" and inv: "linv {} st" and ok: "reqs_parsed rt st"
  shows "reqs_parsed rt st'"
  using assms(1)
proof cases
  case (ls_arrive a n bytes q)
  then show ?thesis using ok by (auto simp: reqs_parsed_def parsed_def run_iteration_def split: option.splits if_splits)
next
  case (ls_complete a c q n)
  then show ?thesis using ok by (auto simp: reqs_parsed_def run_iteration_def)
next
  case (ls_begin a dis ms fl)
  obtain c where c: "heap st a = Some c" using linv_busy [OF inv, of a] ls_begin(3) by auto
  show ?thesis unfolding ls_begin(2) by (rule reqs_parsedI [OF ok handle_begin_pc [OF ls_begin(3)] handle_begin_req [OF c]])
next
  case (ls_produce_ok a reports)
  obtain c where c: "heap st a = Some c" using linv_busy [OF inv, of a] ls_produce_ok(3) by auto
  show ?thesis unfolding ls_produce_ok(2) by (rule reqs_parsedI [OF ok handle_produce_pc handle_produce_req [OF c]])
next
  case (ls_produce_fail a)
  obtain c where c: "heap st a = Some c" using linv_busy [OF inv, of a] ls_produce_fail(3) by auto
  show ?thesis unfolding ls_produce_fail(2) by (rule reqs_parsedI [OF ok handle_produce_pc handle_produce_req [OF c]])
qed

lemma logic_step_topic:
  assumes "logic_step rt True l st st'" and inv: "linv {} st" and ok: "topic_ok rt st" and rs: "reqs_parsed rt st"
  shows "topic_ok rt st'"
  using assms(1)
proof cases
  case (ls_produce_ok a reports)
  obtain c where c: "heap st a = Some c" using linv_busy [OF inv, of a] ls_produce_ok by auto
  have "forwardable c" "parsed rt (req c)" "length (MqMessage_InternalSerialize rt (mq_of c)) \<le> 1000000"
    using linv_forwardable [OF inv _ c] rs c ls_produce_ok by (auto simp: reqs_parsed_def)
  then show ?thesis using ok c ls_produce_ok by (auto simp: topic_ok_def handle_produce_def Produce_def Let_def)
next
  case (ls_produce_fail a)
  then show ?thesis using ok by (simp add: topic_ok_def handle_produce_def Produce_def Let_def split: option.split)
qed (use ok in \<open>simp_all add: topic_ok_def\<close>)

lemma logic_reach_topic: "(logic_any rt True)\<^sup>*\<^sup>* (run_start db) st \<Longrightarrow> topic_ok rt st \<and> reqs_parsed rt st"
proof (induction rule: rtranclp_induct)
  case base
  then show ?case by (simp add: topic_ok_def reqs_parsed_def run_start_def)
next
  case (step y z)
  from step(2) obtain l where l: "logic_step rt True l y z" by (auto simp: logic_any_def)
  have inv: "linv {} y" using step(1) by (rule logic_reach_linv)
  show ?case using logic_step_topic [OF l inv] logic_step_reqs [OF l inv] step(3) by blast
qed

section \<open>Properties\<close>

lemma fmt_i64_no_sep: "CHR ''_'' \<notin> set (fmt_i64 n)"
  using dec_digits [of "nat (sint n)"] dec_digits [of "nat (- sint n)"] by (auto simp: fmt_i64_def is_digit_def)

lemma fmt_u64_no_sep: "CHR ''_'' \<notin> set (fmt_u64 n)"
  using dec_digits [of "unat n"] by (auto simp: fmt_u64_def is_digit_def)

text \<open>Two message ids are equal only when they were generated in the same millisecond for the same sender with the same
  eight random characters.\<close>

lemma gen_msgid_inject:
  "gen_msgid ms uid dis = gen_msgid ms' uid' dis' \<longleftrightarrow>
     ms = ms' \<and> uid = uid' \<and> GenRandString dis 8 = GenRandString dis' 8"
  using first_delim_unique [OF fmt_i64_no_sep [of ms] fmt_i64_no_sep [of ms'], of "fmt_u64 uid @ ''_'' @ GenRandString dis 8"
      "fmt_u64 uid' @ ''_'' @ GenRandString dis' 8"]
    first_delim_unique [OF fmt_u64_no_sep [of uid] fmt_u64_no_sep [of uid'], of "GenRandString dis 8" "GenRandString dis' 8"]
  by (simp add: gen_msgid_def)

lemma length_gen_msgid: "length (gen_msgid ms uid dis) \<le> 51"
proof -
  have "length (fmt_u64 uid) \<le> 20"
    unfolding fmt_u64_def by (rule length_dec_le [of _ 19, simplified], rule less_trans [OF unat_bound]) simp
  moreover have "length (fmt_i64 ms) \<le> 21"
  proof -
    have "- (2 ^ 63) \<le> sint ms" "sint ms < 2 ^ 63" using sint_range_size [of ms] by (simp_all add: word_size)
    then have "nat (sint ms) < 10 ^ Suc 19" "nat (- sint ms) < 10 ^ Suc 19" by simp_all
    from this [THEN length_dec_le] show ?thesis by (simp add: fmt_i64_def)
  qed
  ultimately show ?thesis by (simp add: gen_msgid_def GenRandString_def)
qed

lemma mq_of_size:
  assumes "pb_runtime rt" and "resp c = GenProtoResp ms dis uid" and "ProtoReq_ByteSizeLong rt (req c) \<le> 1000000"
  shows "MqMessage_ByteSizeLong rt (mq_of c) \<le> ProtoReq_ByteSizeLong rt (req c) + 200"
proof -
  let ?L = "length (gen_msgid ms uid dis)"
  have L: "length (varint ?L) \<le> 10" using length_gen_msgid [of ms uid dis] by (intro length_varint_le [of _ 9, simplified]) simp
  have r: "ProtoResp_ByteSizeLong rt (resp c) \<le> 73"
    using L length_gen_msgid [of ms uid dis] length_varint_word [of ms]
    by (simp add: assms(2) ProtoResp_ByteSizeLong_def GenProtoResp_def ProtoResp_set_timestamp_def ProtoResp_set_msgid_def
        ProtoResp_default_def pb_runtime.size_laws [OF assms(1)])
  have "length (varint (ProtoResp_ByteSizeLong rt (resp c))) \<le> 10" "length (varint (ProtoReq_ByteSizeLong rt (req c))) \<le> 10"
    using r assms(3) by (auto intro!: length_varint_le [of _ 9, simplified])
  then show ?thesis using r
    by (simp add: MqMessage_ByteSizeLong_def mq_of_def MqMessage_default_def pb_runtime.size_laws [OF assms(1)])
qed

text \<open>A server that has received one friend message, handled it and handed it to librdkafka.\<close>

definition one_sent :: "pb_rt \<Rightarrow> logic_state" where
  "one_sent rt = handle_produce rt True [] 0
     (handle_begin 1700000000000 (\<lambda>i. 0) (\<lambda>i. False) 0 (run_iteration 0 ex_req 1 (run_start two_users)))"

lemma ex_req_simps: "ProtoReq_type ex_req = TypeFriendMsg" "ProtoReq_from_uid ex_req = 7"
  by (simp_all add: ex_req_def)

lemma ex_payload_size:
  "length (MqMessage_InternalSerialize wire_rt (mq_of \<lparr>is_done = d, req = ex_req, resp = GenProtoResp ms dis uid\<rparr>)) \<le> 1000000"
proof -
  have "ProtoReq_ByteSizeLong wire_rt ex_req \<le> 100"
    by (simp add: ProtoReq_ByteSizeLong_def ProtoReq_data_size_def FriendMsg_ByteSizeLong_def ex_req_def wire_rt_def
        sext_def varint.simps)
  then have "MqMessage_ByteSizeLong wire_rt (mq_of \<lparr>is_done = d, req = ex_req, resp = GenProtoResp ms dis uid\<rparr>) \<le> 300"
    using mq_of_size [OF wire.pb_runtime_axioms, of "\<lparr>is_done = d, req = ex_req, resp = GenProtoResp ms dis uid\<rparr>" ms dis uid]
    by simp
  then show ?thesis using pb_runtime.MqMessage_size [OF wire.pb_runtime_axioms] by simp
qed

lemma one_sent_reachable: "(logic_any wire_rt True)\<^sup>*\<^sup>* (run_start two_users) (one_sent wire_rt)"
proof -
  let ?s0 = "run_start two_users" let ?s1 = "run_iteration 0 ex_req 1 ?s0"
  let ?s2 = "handle_begin 1700000000000 (\<lambda>i. 0) (\<lambda>i. False) 0 ?s1"
  have 1: "logic_any wire_rt True ?s0 ?s1"
    unfolding logic_any_def by (intro exI, rule ls_arrive [OF _ _ ex_req_bytes]) (simp_all add: run_start_def)
  have 2: "logic_any wire_rt True ?s1 ?s2"
    unfolding logic_any_def
    by (intro exI, rule ls_begin) (simp_all add: run_start_def run_iteration_def new_context_def)
  have 3: "logic_any wire_rt True ?s2 (one_sent wire_rt)"
    unfolding logic_any_def one_sent_def
    by (intro exI, rule ls_produce_ok) (simp_all add: run_start_def run_iteration_def new_context_def handle_begin_def
        handle_switch_def Let_def ex_req_simps ex_payload_size)
  from 1 2 3 show ?thesis by (meson converse_rtranclp_into_rtranclp r_into_rtranclp)
qed

text \<open>C6. As long as no message id is generated twice, however the completion queue, the pool threads and
  the delivery reports interleave: no context is used after its deletion or finished twice, each call is
  answered at most once, and a call that \<open>Handle\<close> has left unanswered is registered under its id with its
  message still in flight, so its report will answer it.\<close>

theorem logic_server_safe:
  assumes "(logic_any rt True)\<^sup>*\<^sup>* (run_start db) st"
  shows "\<not> crashed st \<and> count_list (map fst (replies st)) a \<le> 1 \<and>
    (\<forall>c. heap st a = Some c \<and> \<not> is_done c \<and> pc_of st a = PcReturned \<longrightarrow>
       rpc_contexts st (ProtoResp_msgid (resp c)) = Some a \<and> ProtoResp_msgid (resp c) \<in> set (in_flight st))"
proof -
  have inv: "linv {} st" using assms by (rule logic_reach_linv)
  have "rpc_contexts st (ProtoResp_msgid (resp c)) = Some a \<and> ProtoResp_msgid (resp c) \<in> set (in_flight st)"
    if c: "heap st a = Some c" "\<not> is_done c" and pc: "pc_of st a = PcReturned" for c
  proof -
    have k: "rpc_contexts st (ProtoResp_msgid (resp c)) = Some a" using linv_unanswered [OF inv c] pc by simp
    with linv_pc [OF inv k] pc show ?thesis by (simp add: awaited_def)
  qed
  then show ?thesis using linv_crashed [OF inv] linv_replies [OF inv, of a] by auto
qed

theorem logic_server_safe_witness:
  "\<not> crashed (one_sent wire_rt) \<and> count_list (map fst (replies (one_sent wire_rt))) 0 \<le> 1"
  using logic_server_safe [OF one_sent_reachable, of 0] by blast

definition error_resp :: "string \<Rightarrow> ProtoResp" where
  "error_resp txt = \<lparr>ProtoResp_res = kErrorCode 0, ProtoResp_txt = kErr txt, ProtoResp_unknown = []\<rparr>"



text \<open>A second message of the same sender has been received and registered.\<close>

definition two_sent :: "pb_rt \<Rightarrow> logic_state" where
  "two_sent rt = handle_begin 1700000000001 (\<lambda>i. 0) (\<lambda>i. False) 1 (run_iteration 1 ex_req 2 (one_sent rt))"

lemma two_sent_fields:
  "heap (two_sent rt) 0 = Some \<lparr>is_done = False, req = ex_req, resp = GenProtoResp 1700000000000 (\<lambda>i. 0) 7\<rparr>"
  "heap (two_sent rt) (Suc 0) = Some \<lparr>is_done = False, req = ex_req, resp = GenProtoResp 1700000000001 (\<lambda>i. 0) 7\<rparr>"
  "pc_of (two_sent rt) 0 = PcReturned" "pc_of (two_sent rt) (Suc 0) = PcProducing"
  "in_flight (two_sent rt) = [gen_msgid 1700000000000 7 (\<lambda>i. 0)]"
  "rpc_contexts (two_sent rt) (gen_msgid 1700000000000 7 (\<lambda>i. 0)) = Some 0"
  by (simp_all add: two_sent_def one_sent_def run_start_def run_iteration_def new_context_def handle_begin_def
      handle_switch_def handle_produce_def Produce_def Let_def ex_req_simps gen_msgid_inject)



text \<open>C35. Without that freshness the server is not safe: two calls of one sender that draw the same id can
  drive it to finish a context twice.\<close>

theorem msgid_reuse_crashes: "\<exists>st. (logic_any wire_rt False)\<^sup>*\<^sup>* (run_start db) st \<and> crashed st"
proof -
  let ?k = "gen_msgid 0 7 (\<lambda>i. 0)" and ?hbegin = "handle_begin 0 (\<lambda>i. 0) (\<lambda>i. False)"
  let ?s0 = "run_start db" let ?s1 = "run_iteration 0 ex_req 1 ?s0" let ?s2 = "run_iteration 1 ex_req 2 ?s1"
  let ?s3 = "?hbegin 0 ?s2" let ?s4 = "?hbegin 1 ?s3"
  let ?s5 = "handle_produce wire_rt True [(?k, False)] 0 ?s4" let ?s6 = "handle_produce wire_rt False [] 1 ?s5"
  let ?r = "GenProtoResp 0 (\<lambda>i. 0) 7"
  have 1: "logic_any wire_rt False ?s0 ?s1"
    unfolding logic_any_def by (intro exI, rule ls_arrive [OF _ _ ex_req_bytes]) (simp_all add: run_start_def del: One_nat_def)
  have s2: "?s2 = (run_start db)\<lparr>heap := [0 \<mapsto> new_context\<lparr>req := ex_req\<rparr>, 1 \<mapsto> new_context\<lparr>req := ex_req\<rparr>, 2 \<mapsto> new_context],
      pc_of := (\<lambda>a. PcFree)(0 := PcQueued, 1 := PcQueued, 2 := PcRequested)\<rparr>"
    by (auto simp: run_start_def run_iteration_def new_context_def fun_eq_iff simp del: One_nat_def)
  have 2: "logic_any wire_rt False ?s1 ?s2"
    unfolding logic_any_def
    by (intro exI, rule ls_arrive [OF _ _ ex_req_bytes]) (simp_all add: run_start_def run_iteration_def new_context_def del: One_nat_def)
  have 3: "logic_any wire_rt False ?s2 ?s3"
    unfolding logic_any_def
    by (intro exI, rule ls_begin) (simp_all add: run_start_def run_iteration_def new_context_def del: One_nat_def)
  have s3: "pc_of ?s3 1 = PcQueued"
    unfolding s2 by (simp add: handle_begin_def handle_switch_def Let_def ex_req_simps run_start_def new_context_def)
  have 4: "logic_any wire_rt False ?s3 ?s4"
    unfolding logic_any_def by (intro exI, rule ls_begin, rule s3) simp_all
  have s4: "?s4 = (run_start db)\<lparr>heap := [0 \<mapsto> new_context\<lparr>req := ex_req, resp := ?r\<rparr>,
        1 \<mapsto> new_context\<lparr>req := ex_req, resp := ?r\<rparr>, 2 \<mapsto> new_context],
      pc_of := (\<lambda>a. PcFree)(0 := PcProducing, 1 := PcProducing, 2 := PcRequested),
      rpc_contexts := [?k \<mapsto> 1], issued := {?k}\<rparr>"
    unfolding s2
    by (auto simp: handle_begin_def handle_switch_def Let_def ex_req_simps run_start_def new_context_def fun_eq_iff)
  have 5: "logic_any wire_rt False ?s4 ?s5"
    unfolding logic_any_def by (intro exI, rule ls_produce_ok) (unfold s4, simp_all add: run_start_def new_context_def ex_payload_size)
  have s5: "heap ?s5 1 = Some (new_context\<lparr>req := ex_req, resp := ?r, is_done := True\<rparr>)" "pc_of ?s5 1 = PcProducing"
    unfolding s4
    by (simp_all add: handle_produce_def Produce_def dr_cb_def Finish_def Let_def run_start_def new_context_def)
  have 6: "logic_any wire_rt False ?s5 ?s6"
    unfolding logic_any_def by (intro exI, rule ls_produce_fail) (rule s5)
  have "crashed ?s6" by (simp add: handle_produce_def [of wire_rt False] s5(1) Produce_def Finish_def Let_def new_context_def del: One_nat_def)
  moreover from 1 2 3 4 5 6 have "(logic_any wire_rt False)\<^sup>*\<^sup>* ?s0 ?s6"
    by (meson converse_rtranclp_into_rtranclp r_into_rtranclp)
  ultimately show ?thesis by blast
qed

end
