(* ===== verification/RpcSpec.thy ===== *)
theory RpcSpec
  imports Prelude
begin

text \<open>
  What an asynchronous gRPC server of the repository promises. \<open>LogicServer::Run\<close>, \<open>PushServer::Run\<close> and
  \<open>GateServer::Run\<close> share one scheme: a context is allocated and posted for the next call; when a call arrives in it,
  a new context is posted and the call is handed to a thread pool; sooner or later the call is answered with \<open>Finish\<close>.
  The specification forgets contexts, tasks and queues: a call is unborn, posted, active or answered, and the answers
  form a log. The locale \<open>rpc_server\<close> is a server that refines it by an abstraction function; the guarantees are proved
  once, from the specification, for every server that does.
\<close>

section \<open>The specification\<close>

datatype 'r call = Unborn | Posted | Active | Answered 'r

record 'r rpc_spec =
  call_of :: "nat \<Rightarrow> 'r call"
  answers :: "(nat \<times> 'r) list"

definition spec_start :: "'r rpc_spec" where
  "spec_start = \<lparr>call_of = (\<lambda>a. Unborn)(0 := Posted), answers = []\<rparr>"

definition spec_accept :: "nat \<Rightarrow> nat \<Rightarrow> 'r rpc_spec \<Rightarrow> 'r rpc_spec" where
  "spec_accept a n s = s\<lparr>call_of := (call_of s)(a := Active, n := Posted)\<rparr>"

definition spec_answer :: "nat \<Rightarrow> 'r \<Rightarrow> 'r rpc_spec \<Rightarrow> 'r rpc_spec" where
  "spec_answer a r s = s\<lparr>call_of := (call_of s)(a := Answered r), answers := answers s @ [(a, r)]\<rparr>"

inductive spec_step :: "'r rpc_spec \<Rightarrow> 'r rpc_spec \<Rightarrow> bool" where
  spec_accepts: "call_of s a = Posted \<Longrightarrow> call_of s n = Unborn \<Longrightarrow> spec_step s (spec_accept a n s)"
| spec_answers: "call_of s a = Active \<Longrightarrow> spec_step s (spec_answer a r s)"

text \<open>One context is posted at any time, and the log holds exactly the answered calls, each once.\<close>

definition spec_inv :: "'r rpc_spec \<Rightarrow> bool" where
  "spec_inv s \<longleftrightarrow> (\<exists>!a. call_of s a = Posted) \<and> distinct (map fst (answers s)) \<and>
     (\<forall>a r. call_of s a = Answered r \<longleftrightarrow> (a, r) \<in> set (answers s))"

lemma spec_inv_answered: "spec_inv s \<Longrightarrow> (a, r) \<in> set (answers s) \<longleftrightarrow> call_of s a = Answered r"
  by (simp add: spec_inv_def)

lemma spec_start_inv: "spec_inv spec_start"
  by (auto simp: spec_inv_def spec_start_def)

lemma spec_accept_inv:
  assumes "spec_inv s" and "call_of s a = Posted" and "call_of s n = Unborn"
  shows "spec_inv (spec_accept a n s)"
proof -
  have "b = a" if "call_of s b = Posted" for b using assms(1,2) that by (auto simp: spec_inv_def)
  then have "\<exists>!b. call_of (spec_accept a n s) b = Posted"
    by (intro ex1I [of _ n]) (simp_all add: spec_accept_def split: if_splits)
  moreover have "a \<noteq> n" using assms(2,3) by auto
  moreover have "(a, r) \<notin> set (answers s)" "(n, r) \<notin> set (answers s)" for r
    using assms by (simp_all add: spec_inv_answered)
  moreover have "distinct (map fst (answers s))" using assms(1) unfolding spec_inv_def by blast
  ultimately show ?thesis
    using spec_inv_answered [OF assms(1)] unfolding spec_inv_def by (simp add: spec_accept_def)
qed

lemma spec_answer_inv:
  assumes "spec_inv s" and "call_of s a = Active"
  shows "spec_inv (spec_answer a r s)"
proof -
  have new: "(a, q) \<notin> set (answers s)" for q using assms by (simp add: spec_inv_answered)
  obtain p where p: "call_of s p = Posted" "\<And>b. call_of s b = Posted \<Longrightarrow> b = p"
    using assms(1) by (auto simp: spec_inv_def)
  have "\<exists>!b. call_of (spec_answer a r s) b = Posted"
  proof (rule ex1I [of _ p])
    show "call_of (spec_answer a r s) p = Posted" using p(1) assms(2) by (auto simp: spec_answer_def)
    show "b = p" if "call_of (spec_answer a r s) b = Posted" for b
      using that by (intro p(2)) (simp add: spec_answer_def split: if_splits)
  qed
  moreover have "distinct (map fst (answers (spec_answer a r s)))"
  proof -
    have "a \<notin> fst ` set (answers s)" using new by force
    moreover have "distinct (map fst (answers s))" using assms(1) unfolding spec_inv_def by blast
    ultimately show ?thesis by (simp add: spec_answer_def)
  qed
  moreover have "call_of (spec_answer a r s) b = Answered q \<longleftrightarrow> (b, q) \<in> set (answers (spec_answer a r s))" for b q
    using new by (auto simp: spec_answer_def spec_inv_answered [OF assms(1)])
  ultimately show ?thesis by (simp add: spec_inv_def)
qed

lemma spec_step_inv: "spec_step s s' \<Longrightarrow> spec_inv s \<Longrightarrow> spec_inv s'"
  by (induction rule: spec_step.induct) (auto intro: spec_accept_inv spec_answer_inv)

lemma spec_steps_inv: "spec_step\<^sup>*\<^sup>* s s' \<Longrightarrow> spec_inv s \<Longrightarrow> spec_inv s'"
  by (induction rule: rtranclp_induct) (auto intro: spec_step_inv)

text \<open>An answer is final, and the log only grows.\<close>

lemma spec_step_final:
  assumes "spec_step s s'"
  shows "(\<exists>new. answers s' = answers s @ new) \<and> (call_of s a = Answered r \<longrightarrow> call_of s' a = Answered r)"
  using assms by cases (auto simp: spec_accept_def spec_answer_def)

lemma spec_steps_final:
  assumes "spec_step\<^sup>*\<^sup>* s s'"
  shows "(\<exists>new. answers s' = answers s @ new) \<and> (call_of s a = Answered r \<longrightarrow> call_of s' a = Answered r)"
  using assms
proof (induction rule: rtranclp_induct)
  case (step t u)
  from step(3) spec_step_final [OF step(2), of a r] show ?case by (metis append_assoc)
qed simp

section \<open>Abstraction from a log and program points\<close>

text \<open>The servers keep, for every context, how far they have come with it, and log each \<open>Finish\<close>; the call of a context
  is answered when it is in the log.\<close>

definition abs_of :: "(nat \<Rightarrow> 'r call) \<Rightarrow> (nat \<times> 'r) list \<Rightarrow> 'r rpc_spec" where
  "abs_of pt log = \<lparr>call_of = (\<lambda>a. case map_of log a of Some r \<Rightarrow> Answered r | None \<Rightarrow> pt a), answers = log\<rparr>"

lemma map_of_count_0: "count_list (map fst xs) a = 0 \<Longrightarrow> map_of xs a = None"
  by (simp add: map_of_eq_None_iff count_list_0_iff)

lemma abs_of_accept:
  assumes "map_of log a = None" and "map_of log n = None" and "pt a = Posted" and "pt n = Unborn"
  shows "spec_step (abs_of pt log) (abs_of (pt(a := Active, n := Posted)) log)"
proof -
  have "abs_of (pt(a := Active, n := Posted)) log = spec_accept a n (abs_of pt log)"
    using assms(1,2) by (auto simp: abs_of_def spec_accept_def fun_eq_iff split: option.split)
  then show ?thesis using assms spec_accepts [of "abs_of pt log" a n] by (simp add: abs_of_def)
qed

lemma abs_of_answer:
  assumes "map_of log a = None" and "pt a = Active" and "\<And>b. b \<noteq> a \<Longrightarrow> pt' b = pt b"
  shows "spec_step (abs_of pt log) (abs_of pt' (log @ [(a, r)]))"
proof -
  have "abs_of pt' (log @ [(a, r)]) = spec_answer a r (abs_of pt log)"
    using assms(1,3) by (auto simp: abs_of_def spec_answer_def fun_eq_iff map_add_def split: option.split)
  then show ?thesis using assms(1,2) spec_answers [of "abs_of pt log" a r] by (simp add: abs_of_def)
qed

lemma abs_of_cong: "(\<And>a. map_of log a = None \<Longrightarrow> pt a = pt' a) \<Longrightarrow> abs_of pt log = abs_of pt' log"
  by (auto simp: abs_of_def fun_eq_iff split: option.split)

section \<open>Servers that refine it\<close>

locale rpc_server =
  fixes step :: "'s \<Rightarrow> 's \<Rightarrow> bool"
    and start :: "'s"
    and I :: "'s \<Rightarrow> bool"
    and abstr :: "'s \<Rightarrow> 'r rpc_spec"
  assumes start_inv: "I start"
    and step_inv: "step s s' \<Longrightarrow> I s \<Longrightarrow> I s'"
    and start_abs: "abstr start = spec_start"
    and step_abs: "step s s' \<Longrightarrow> I s \<Longrightarrow> spec_step\<^sup>*\<^sup>* (abstr s) (abstr s')"
begin

lemma reach_inv: "step\<^sup>*\<^sup>* start s \<Longrightarrow> I s"
  by (induction rule: rtranclp_induct) (auto intro: start_inv step_inv)

lemma steps_abs: "step\<^sup>*\<^sup>* s s' \<Longrightarrow> I s \<Longrightarrow> I s' \<and> spec_step\<^sup>*\<^sup>* (abstr s) (abstr s')"
proof (induction rule: rtranclp_induct)
  case (step t u)
  then show ?case using step_inv step_abs by (meson rtranclp_trans)
qed simp

lemma reach_abs: "step\<^sup>*\<^sup>* start s \<Longrightarrow> spec_step\<^sup>*\<^sup>* spec_start (abstr s)"
  using steps_abs [of start s] start_inv start_abs by simp

lemma reach_spec_inv: "step\<^sup>*\<^sup>* start s \<Longrightarrow> spec_inv (abstr s)"
  by (rule spec_steps_inv [OF reach_abs spec_start_inv])

lemma one_posted: "step\<^sup>*\<^sup>* start s \<Longrightarrow> \<exists>!a. call_of (abstr s) a = Posted"
  using reach_spec_inv by (auto simp: spec_inv_def)

lemma answered_once: "step\<^sup>*\<^sup>* start s \<Longrightarrow> distinct (map fst (answers (abstr s)))"
  using reach_spec_inv by (auto simp: spec_inv_def)

lemma answer_final:
  assumes "step\<^sup>*\<^sup>* start s" and "step\<^sup>*\<^sup>* s s'" and "(a, r) \<in> set (answers (abstr s))"
  shows "\<exists>new. answers (abstr s') = answers (abstr s) @ new \<and> a \<notin> fst ` set new"
proof -
  obtain new where new: "answers (abstr s') = answers (abstr s) @ new"
    using spec_steps_final [of "abstr s" "abstr s'" a r] steps_abs [OF assms(2) reach_inv [OF assms(1)]] by blast
  have "distinct (map fst (answers (abstr s')))" using assms(1,2) by (intro answered_once) simp
  then show ?thesis using assms(3) by (intro exI [of _ new]) (force simp: new)
qed

end

end
