(* ===== verification/LogicRpc.thy ===== *)
theory LogicRpc
  imports Logic RpcSpec
begin

text \<open>
  The logic server refines the RPC specification of \<open>RpcSpec\<close> when message ids are fresh: its contexts, registrations,
  messages in flight and delivery reports are invisible to a client, who sees calls that are accepted one after the
  other and answered at most once, some of them inside the \<open>poll\<close> of another call.
\<close>

fun logic_point :: "pc \<Rightarrow> ProtoResp call" where
  "logic_point PcFree = Unborn"
| "logic_point PcRequested = Posted"
| "logic_point _ = Active"

definition logic_abs :: "logic_state \<Rightarrow> ProtoResp rpc_spec" where
  "logic_abs st = abs_of (\<lambda>a. logic_point (pc_of st a)) (replies st)"

lemma linv_unreplied: "linv K st \<Longrightarrow> heap st a = Some c \<Longrightarrow> \<not> is_done c \<Longrightarrow> map_of (replies st) a = None"
  by (rule map_of_count_0) (simp add: linv_replies)

lemma linv_unborn: "linv K st \<Longrightarrow> pc_of st a = PcFree \<Longrightarrow> map_of (replies st) a = None"
  by (rule map_of_count_0) (simp add: linv_replies)

lemma logic_abs_cong:
  "replies st' = replies st \<Longrightarrow> (\<And>a. logic_point (pc_of st' a) = logic_point (pc_of st a)) \<Longrightarrow> logic_abs st' = logic_abs st"
  by (simp add: logic_abs_def)

text \<open>A \<open>Finish\<close> on an unanswered context is the answer of an active call.\<close>

lemma Finish_abs:
  assumes "map_of (replies st) a = None" and "logic_point (pc_of st a) = Active"
    and "heap st' a = Some c" and "\<not> is_done c" and "replies st' = replies st" and "\<And>b. b \<noteq> a \<Longrightarrow> pc_of st' b = pc_of st b"
  shows "spec_step (logic_abs st) (logic_abs (Finish a f st'))"
  using abs_of_answer [of "replies st" a "\<lambda>b. logic_point (pc_of st b)" "\<lambda>b. logic_point (pc_of st' b)" "resp (f c)"]
    assms(1,2,6) by (simp add: logic_abs_def Finish_live [OF assms(3,4)] assms(5))

lemma dr_cb_abs:
  assumes inv: "linv (insert k K) st"
  shows "spec_step (logic_abs st) (logic_abs (dr_cb (k, err) st))"
proof -
  obtain a where a: "rpc_contexts st k = Some a" using linv_awaited [OF inv, of k] by (auto simp: awaited_def)
  obtain c where c: "heap st a = Some c" "\<not> is_done c" using linv_registered [OF inv a] by blast
  have pc: "logic_point (pc_of st a) = Active" using linv_pc [OF inv a] by auto
  have "spec_step (logic_abs st) (logic_abs (Finish a f (st\<lparr>rpc_contexts := (rpc_contexts st)(k := None)\<rparr>)))" for f
    by (rule Finish_abs [OF linv_unreplied [OF inv c] pc]) (use c in simp_all)
  then show ?thesis by (simp add: dr_cb_def a Let_def)
qed

lemma poll_abs:
  "linv (fst ` set reports) st \<Longrightarrow> distinct (map fst reports) \<Longrightarrow> set (in_flight st) \<inter> fst ` set reports = {} \<Longrightarrow>
   spec_step\<^sup>*\<^sup>* (logic_abs st) (logic_abs (fold dr_cb reports st))"
proof (induction reports arbitrary: st)
  case (Cons r rs)
  obtain k e where r: "r = (k, e)" by (cases r)
  have *: "linv (insert k (fst ` set rs)) st" "k \<notin> fst ` set rs" "k \<notin> set (in_flight st)" using Cons.prems r by auto
  have "spec_step\<^sup>*\<^sup>* (logic_abs (dr_cb r st)) (logic_abs (fold dr_cb rs (dr_cb r st)))"
    using Cons.IH [of "dr_cb r st"] Cons.prems dr_cb_linv [OF *] r by auto
  with dr_cb_abs [OF *(1), of e] show ?case by (simp add: r)
qed simp

lemma handle_produce_ok_abs:
  assumes inv: "linv {} st" and pc: "pc_of st a = PcProducing" and d: "distinct (map fst reports)"
    and r: "\<And>c. heap st a = Some c \<Longrightarrow> fst ` set reports \<subseteq> insert (ProtoResp_msgid (resp c)) (set (in_flight st))"
  shows "spec_step\<^sup>*\<^sup>* (logic_abs st) (logic_abs (handle_produce rt True reports a st))"
proof -
  obtain c where c: "heap st a = Some c" using linv_busy [OF inv, of a] pc by auto
  let ?k = "ProtoResp_msgid (resp c)"
  let ?fl = "filter (\<lambda>k. k \<notin> fst ` set reports) (in_flight st @ [?k])"
  let ?st = "st\<lparr>pc_of := (pc_of st)(a := PcReturned),
      topic := topic st @ [(?k, MqMessage_InternalSerialize rt (mq_of c))], in_flight := ?fl\<rparr>"
  have "set ?fl \<union> fst ` set reports = insert ?k (set (in_flight st))" using r [OF c] by auto
  then have "spec_step\<^sup>*\<^sup>* (logic_abs ?st) (logic_abs (fold dr_cb reports ?st))"
    by (intro poll_abs produced_linv [OF inv c pc] d) auto
  moreover have "logic_abs ?st = logic_abs st" by (rule logic_abs_cong) (simp_all add: pc)
  ultimately show ?thesis using c by (simp add: handle_produce_def Produce_def Let_def split: if_splits)
qed

lemma handle_produce_fail_abs:
  assumes inv: "linv {} st" and pc: "pc_of st a = PcProducing"
  shows "spec_step (logic_abs st) (logic_abs (handle_produce rt False [] a st))"
proof -
  obtain c where c: "heap st a = Some c" "\<not> is_done c" using linv_busy [OF inv, of a] pc by auto
  show ?thesis
    by (simp add: handle_produce_def Produce_def Let_def c)
      (rule Finish_abs [OF linv_unreplied [OF inv c]], use pc c in simp_all)
qed

lemma handle_begin_abs:
  assumes inv: "linv {} st" and a: "pc_of st a = PcQueued"
  shows "spec_step\<^sup>*\<^sup>* (logic_abs st) (logic_abs (handle_begin ms dis fl a st))"
proof -
  obtain c where c: "heap st a = Some c" "\<not> is_done c" using linv_busy [OF inv, of a] a by auto
  let ?r = "GenProtoResp ms dis (ProtoReq_from_uid (req c))"
  obtain v db' where v: "handle_switch fl (database st) (req c) = (v, db')" by fastforce
  let ?st = "st\<lparr>heap := (heap st)(a \<mapsto> c\<lparr>resp := ?r\<rparr>), database := db',
      issued := insert (ProtoResp_msgid ?r) (issued st)\<rparr>"
  have fin: "spec_step (logic_abs st) (logic_abs (Finish a f (?st\<lparr>pc_of := (pc_of ?st)(a := PcReturned)\<rparr>)))" for f
    by (rule Finish_abs [OF linv_unreplied [OF inv c], where c = "c\<lparr>resp := ?r\<rparr>"]) (use a c in simp_all)
  have reg: "logic_abs (?st\<lparr>rpc_contexts := (rpc_contexts ?st)(ProtoResp_msgid ?r \<mapsto> a),
      pc_of := (pc_of ?st)(a := PcProducing)\<rparr>) = logic_abs st"
    by (rule logic_abs_cong) (simp_all add: a)
  show ?thesis using fin reg by (cases v) (auto simp: handle_begin_def c v Let_def)
qed

lemma run_arrive_abs:
  assumes inv: "linv {} st" and a: "pc_of st a = PcRequested" and n: "pc_of st n = PcFree"
  shows "spec_step (logic_abs st) (logic_abs (run_iteration a q n st))"
proof -
  obtain c where c: "heap st a = Some c" "\<not> is_done c" using linv_busy [OF inv, of a] a by auto
  have "abs_of ((\<lambda>b. logic_point (pc_of st b))(a := Active, n := Posted)) (replies st) = logic_abs (run_iteration a q n st)"
    by (simp add: logic_abs_def run_iteration_def c, rule abs_of_cong) simp
  then show ?thesis
    using abs_of_accept [OF linv_unreplied [OF inv c] linv_unborn [OF inv n], of "\<lambda>b. logic_point (pc_of st b)"] a n
    by (simp add: logic_abs_def)
qed

lemma logic_step_abs:
  assumes "logic_any rt True st st'" and inv: "linv {} st"
  shows "spec_step\<^sup>*\<^sup>* (logic_abs st) (logic_abs st')"
proof -
  obtain l where "logic_step rt True l st st'" using assms(1) by (auto simp: logic_any_def)
  then show ?thesis
  proof cases
    case (ls_arrive a n bytes q)
    then show ?thesis using run_arrive_abs [OF inv] by (simp add: r_into_rtranclp)
  next
    case (ls_complete a c q n)
    then show ?thesis by (simp add: run_iteration_def logic_abs_def)
  next
    case (ls_begin a dis ms fl)
    then show ?thesis using handle_begin_abs [OF inv] by simp
  next
    case (ls_produce_ok a reports)
    then show ?thesis using handle_produce_ok_abs [OF inv] by simp
  next
    case (ls_produce_fail a)
    then show ?thesis using handle_produce_fail_abs [OF inv] by (simp add: r_into_rtranclp)
  qed
qed

interpretation logic_rpc: rpc_server "logic_any rt True" "run_start db" "linv {}" logic_abs
proof
  show "linv {} (run_start db)" by (rule run_start_linv)
  show "logic_abs (run_start db) = spec_start"
    by (auto simp: logic_abs_def abs_of_def run_start_def spec_start_def fun_eq_iff)
qed (auto simp: logic_any_def intro: logic_step_linv logic_step_abs [unfolded logic_any_def])

end
