(* ===== verification/Gate.thy ===== *)
theory Gate
  imports ConnPool RedisIf PbProps
begin

text \<open>
  The message gate: \<open>msg_gate/user_mgr.h\<close>, \<open>ws_app.cc\<close>, \<open>async_logic_client.cc\<close> and \<open>gate_server.cc\<close>. A
  WebSocket is a number; \<open>ws_uid\<close> is the \<open>uid\<close> in its \<open>UserData\<close>. \<open>sent\<close> logs \<open>ws->send\<close>, \<open>to_logic\<close> the requests
  handed to gRPC, \<open>jobs\<close> the Redis updates that \<open>UpgradeHandle\<close> leaves to the thread pool. The lambdas the
  callbacks enqueue capture their arguments by reference; the model runs them with the values they had
  when they were enqueued.
\<close>

section \<open>std::stoul\<close>

datatype stoul_error = InvalidArgument | OutOfRange

definition is_space :: "char \<Rightarrow> bool" where
  "is_space c \<longleftrightarrow> c = CHR '' '' \<or> 9 \<le> (of_char c :: nat) \<and> (of_char c :: nat) \<le> 13"

definition stoul :: "string \<Rightarrow> stoul_error + uint64" where
  "stoul s =
     (let t = dropWhile is_space s;
          neg = (t \<noteq> [] \<and> hd t = CHR ''-'');
          u = (if t \<noteq> [] \<and> (hd t = CHR ''-'' \<or> hd t = CHR ''+'') then tl t else t);
          ds = takeWhile is_digit u
      in if ds = [] then Inl InvalidArgument
         else if read_dec ds \<ge> 2 ^ 64 then Inl OutOfRange
         else Inr (if neg then - of_nat (read_dec ds) else of_nat (read_dec ds)))"

section \<open>State\<close>

record 'r gate_state =
  sockets :: "uid \<Rightarrow> nat option"
  ws_uid :: "nat \<Rightarrow> uid"
  sent :: "(nat \<times> string) list"
  to_logic :: "(uid \<times> ProtoReq) list"
  jobs :: "string list"
  store :: 'r
  stubs :: "nat ConnectionPool"

definition redis_user_prefix :: string where
  "redis_user_prefix = ''ychat::user::''"

definition redis_user_token_prefix :: string where
  "redis_user_token_prefix = ''ychat::user::token::''"

section \<open>UserManager\<close>

definition AddWS :: "uid \<Rightarrow> nat \<Rightarrow> 'r gate_state \<Rightarrow> 'r gate_state" where
  "AddWS uid ws st = st\<lparr>sockets := (sockets st)(uid \<mapsto> ws), ws_uid := (ws_uid st)(ws := uid)\<rparr>"

definition DelWS :: "uid \<Rightarrow> 'r gate_state \<Rightarrow> 'r gate_state" where
  "DelWS uid st = st\<lparr>sockets := (sockets st)(uid := None)\<rparr>"

definition GetWS :: "uid \<Rightarrow> 'r gate_state \<Rightarrow> nat option" where
  "GetWS uid st = sockets st uid"

definition IsLogin :: "uid \<Rightarrow> 'r gate_state \<Rightarrow> bool" where
  "IsLogin uid st \<longleftrightarrow> sockets st uid \<noteq> None"

definition ws_send :: "nat \<Rightarrow> string \<Rightarrow> 'r gate_state \<Rightarrow> 'r gate_state" where
  "ws_send ws data st = st\<lparr>sent := sent st @ [(ws, data)]\<rparr>"

section \<open>The WebSocket application\<close>

definition SendErrorResp :: "pb_rt \<Rightarrow> nat \<Rightarrow> int32 \<Rightarrow> string \<Rightarrow> 'r gate_state \<Rightarrow> 'r gate_state" where
  "SendErrorResp rt ws err_code err_str =
     (let resp = ProtoResp_set_err err_str (ProtoResp_set_error_code err_code ProtoResp_default)
      in ws_send ws (ProtoResp_InternalSerialize rt resp))"

datatype upgrade = UpgradeClose | UpgradeTo uid | UpgradeThrow stoul_error

definition UpgradeHandle :: "'r redis \<Rightarrow> string \<Rightarrow> string \<Rightarrow> 'r gate_state \<Rightarrow> upgrade \<times> 'r gate_state" where
  "UpgradeHandle R uid token st =
     (if uid = [] \<or> token = [] then (UpgradeClose, st)
      else case r_get R (store st) (redis_user_token_prefix @ uid) of
        None \<Rightarrow> (UpgradeClose, st)
      | Some value \<Rightarrow>
          if token \<noteq> value then (UpgradeClose, st)
          else let st' = st\<lparr>jobs := jobs st @ [uid]\<rparr> in
            case stoul uid of Inl e \<Rightarrow> (UpgradeThrow e, st') | Inr u \<Rightarrow> (UpgradeTo u, st'))"

text \<open>The lambda of \<open>UpgradeHandle\<close>, run by the pool for the oldest job.\<close>

definition publish_gate :: "'r redis \<Rightarrow> string \<Rightarrow> string \<Rightarrow> 'r \<Rightarrow> 'r" where
  "publish_gate R gate_location uid s =
     r_del R (r_hset R s (redis_user_prefix @ uid) ''gate'' gate_location) (redis_user_token_prefix @ uid)"

definition upgrade_job :: "'r redis \<Rightarrow> string \<Rightarrow> 'r gate_state \<Rightarrow> 'r gate_state" where
  "upgrade_job R gate_location st =
     (case jobs st of
        [] \<Rightarrow> st
      | uid # js \<Rightarrow> st\<lparr>jobs := js, store := publish_gate R gate_location uid (store st)\<rparr>)"

definition OpenHandle :: "nat \<Rightarrow> 'r gate_state \<Rightarrow> 'r gate_state" where
  "OpenHandle ws st = AddWS (ws_uid st ws) ws st"

text \<open>\<open>LogicClient::SendToLogic\<close>: \<open>None\<close> is a call that does not return, because it waits for a stub or dereferences
  the null stub of a stopped pool.\<close>

definition SendToLogic :: "ProtoReq \<Rightarrow> uid \<Rightarrow> 'r gate_state \<Rightarrow> 'r gate_state option" where
  "SendToLogic request uid st =
     (case Acquire (stubs st) of
        None \<Rightarrow> None
      | Some (None, p) \<Rightarrow> None
      | Some (Some stub, p) \<Rightarrow>
          Some (st\<lparr>to_logic := to_logic st @ [(uid, request)], stubs := Release p (Some stub)\<rparr>))"

definition MessageHandle :: "pb_rt \<Rightarrow> 'r redis \<Rightarrow> nat \<Rightarrow> string \<Rightarrow> bool \<Rightarrow> 'r gate_state \<Rightarrow> 'r gate_state option" where
  "MessageHandle rt R ws message binary st =
     (if \<not> binary then Some st
      else case ProtoReq_ParseFromArray rt message of
        None \<Rightarrow> Some st
      | Some req \<Rightarrow>
          if ProtoReq_type req = TypeEmpty then Some st
          else if ProtoReq_type req = TypePull then
            Some (if Pull_type (ProtoReq_pull req) = PULL_OFFLINE \<and>
                     r_hget R (store st) (redis_user_prefix @ fmt_u64 (ws_uid st ws)) ''seq'' = None
                  then SendErrorResp rt ws 1001 ''seq not found'' st else st)
          else SendToLogic req (ws_uid st ws) st)"

definition CloseHandle :: "'r redis \<Rightarrow> nat \<Rightarrow> 'r gate_state \<Rightarrow> 'r gate_state" where
  "CloseHandle R ws st =
     DelWS (ws_uid st ws)
       (st\<lparr>store := r_hdel R (store st) (redis_user_prefix @ fmt_u64 (ws_uid st ws)) ''gate''\<rparr>)"

section \<open>Answers and pushes\<close>

text \<open>One completion of \<open>LogicClient::AsyncRpcComplete\<close>, for the uid and answer in its call context.\<close>

definition AsyncRpcComplete :: "pb_rt \<Rightarrow> uid \<Rightarrow> ProtoResp \<Rightarrow> 'r gate_state \<Rightarrow> 'r gate_state" where
  "AsyncRpcComplete rt uid resp st =
     (case GetWS uid st of
        Some ws \<Rightarrow> ws_send ws (ProtoResp_InternalSerialize rt resp) st
      | None \<Rightarrow> st)"

datatype status = OK | NOT_FOUND | UNAVAILABLE | INTERNAL

text \<open>The task \<open>GateServer::Run\<close> enqueues for a push request.\<close>

definition gate_push :: "pb_rt \<Rightarrow> PushReq \<Rightarrow> 'r gate_state \<Rightarrow> status \<times> 'r gate_state" where
  "gate_push rt req st =
     (case GetWS (PushReq_to_uid req) st of
        Some ws \<Rightarrow> (OK, ws_send ws (PushReq_InternalSerialize rt req) st)
      | None \<Rightarrow> (NOT_FOUND, st))"

section \<open>The registry of sockets as an interface\<close>

locale socket_registry =
  fixes add :: "uid \<Rightarrow> nat \<Rightarrow> 's \<Rightarrow> 's"
    and del :: "uid \<Rightarrow> 's \<Rightarrow> 's"
    and get :: "uid \<Rightarrow> 's \<Rightarrow> nat option"
  assumes get_add: "get u (add v w s) = (if u = v then Some w else get u s)"
    and get_del: "get u (del v s) = (if u = v then None else get u s)"
begin

text \<open>A later registration of the same user replaces the earlier one, and one deletion removes it.\<close>

lemma get_add_add: "get u (add u w2 (add u w1 s)) = Some w2"
  by (simp add: get_add)

lemma get_add_del: "get u (del u (add u w s)) = None"
  by (simp add: get_del)

lemma get_other: "u \<noteq> v \<Longrightarrow> get u (del v (add v w s)) = get u s"
  by (simp add: get_add get_del)

end

interpretation um: socket_registry AddWS DelWS GetWS
  by unfold_locales (simp_all add: AddWS_def DelWS_def GetWS_def)

lemma GetWS_store [simp]: "GetWS u (st\<lparr>store := s\<rparr>) = GetWS u st"
  by (simp add: GetWS_def)

lemma DelWS_fields [simp]:
  "store (DelWS u st) = store st" "ws_uid (DelWS u st) = ws_uid st" "sent (DelWS u st) = sent st"
  by (simp_all add: DelWS_def)

lemma AddWS_fields [simp]:
  "store (AddWS u w st) = store st" "ws_uid (AddWS u w st) = (ws_uid st)(w := u)" "sent (AddWS u w st) = sent st"
  by (simp_all add: AddWS_def)

section \<open>Sessions\<close>

text \<open>The connection events of the gate in the order their handlers run.\<close>

datatype ws_event = EvOpen nat | EvClose nat

fun ws_run :: "'r redis \<Rightarrow> ws_event list \<Rightarrow> 'r gate_state \<Rightarrow> 'r gate_state" where
  "ws_run R [] st = st"
| "ws_run R (EvOpen w # es) st = ws_run R es (OpenHandle w st)"
| "ws_run R (EvClose w # es) st = ws_run R es (CloseHandle R w st)"

text \<open>The live sockets, and sequences in which a socket opens before it closes and a user has one live socket
  at a time; \<open>uid_of\<close> is the user each socket was upgraded for.\<close>

fun live_after :: "ws_event list \<Rightarrow> nat set \<Rightarrow> nat set" where
  "live_after [] L = L"
| "live_after (EvOpen w # es) L = live_after es (insert w L)"
| "live_after (EvClose w # es) L = live_after es (L - {w})"

fun one_per_user :: "(nat \<Rightarrow> uid) \<Rightarrow> ws_event list \<Rightarrow> nat set \<Rightarrow> bool" where
  "one_per_user uid_of [] L = True"
| "one_per_user uid_of (EvOpen w # es) L \<longleftrightarrow> uid_of w \<notin> uid_of ` L \<and> one_per_user uid_of es (insert w L)"
| "one_per_user uid_of (EvClose w # es) L \<longleftrightarrow> w \<in> L \<and> one_per_user uid_of es (L - {w})"

definition registered :: "(nat \<Rightarrow> uid) \<Rightarrow> nat set \<Rightarrow> 'r gate_state \<Rightarrow> bool" where
  "registered uid_of L st \<longleftrightarrow> ws_uid st = uid_of \<and> inj_on uid_of L \<and>
     (\<forall>u w. GetWS u st = Some w \<longleftrightarrow> w \<in> L \<and> uid_of w = u)"

lemma ws_run_registered:
  "registered uid_of L st \<Longrightarrow> one_per_user uid_of es L \<Longrightarrow> registered uid_of (live_after es L) (ws_run R es st)"
proof (induction es arbitrary: L st)
  case (Cons e es)
  show ?case
  proof (cases e)
    case (EvOpen w)
    have "registered uid_of (insert w L) (OpenHandle w st)"
      using Cons.prems EvOpen unfolding registered_def OpenHandle_def
      by (auto simp: um.get_add) (metis imageI)
    then show ?thesis using Cons EvOpen by simp
  next
    case (EvClose w)
    have "registered uid_of (L - {w}) (CloseHandle R w st)"
      using Cons.prems EvClose unfolding registered_def CloseHandle_def
      by (auto simp: um.get_del inj_on_def split: if_splits)
    then show ?thesis using Cons EvClose by simp
  qed
qed simp

section \<open>Properties\<close>

text \<open>A gate with one stub, no socket registered, sockets 1 and 2 upgraded for user 7, on the reference store.\<close>

definition gate0 :: "mem gate_state" where
  "gate0 = \<lparr>sockets = (\<lambda>u. None), ws_uid = (\<lambda>w. if w = 1 \<or> w = 2 then 7 else of_nat w), sent = [], to_logic = [], jobs = [],
     store = mem_empty, stubs = \<lparr>pool = [Some 0], is_stop = False\<rparr>\<rparr>"

text \<open>An upgrade succeeds only with the token stored for that uid; every refusal leaves the gate as it
  was, and a success leaves exactly the job that publishes the gate and spends the token.\<close>

theorem upgrade_authenticates:
  "case UpgradeHandle R uid token st of
     (UpgradeClose, st') \<Rightarrow> st' = st \<and> (uid = [] \<or> token = [] \<or> r_get R (store st) (redis_user_token_prefix @ uid) \<noteq> Some token)
   | (UpgradeTo u, st') \<Rightarrow> st' = st\<lparr>jobs := jobs st @ [uid]\<rparr> \<and> stoul uid = Inr u \<and>
       r_get R (store st) (redis_user_token_prefix @ uid) = Some token
   | (UpgradeThrow e, st') \<Rightarrow> stoul uid = Inl e \<and> r_get R (store st) (redis_user_token_prefix @ uid) = Some token"
  by (auto simp: UpgradeHandle_def Let_def split: option.split sum.split)

lemma gate0_token:
  "UpgradeHandle mem_redis ''7'' ''T'' (gate0\<lparr>store := r_setex mem_redis mem_empty ''ychat::user::token::7'' 60 ''T''\<rparr>) =
     (UpgradeTo 7, gate0\<lparr>store := r_setex mem_redis mem_empty ''ychat::user::token::7'' 60 ''T'', jobs := [''7'']\<rparr>)"
  by (simp add: UpgradeHandle_def redis_user_token_prefix_def mem.get_setex stoul_def is_space_def is_digit_def
      read_dec_def digit_val_def gate0_def Let_def)

theorem upgrade_authenticates_witness:
  "r_get mem_redis (r_setex mem_redis mem_empty ''ychat::user::token::7'' 60 ''T'') ''ychat::user::token::7'' = Some ''T'' \<and>
   stoul ''7'' = Inr 7"
  using upgrade_authenticates [where R = mem_redis and uid = "''7''" and token = "''T''" and
      st = "gate0\<lparr>store := r_setex mem_redis mem_empty ''ychat::user::token::7'' 60 ''T''\<rparr>"]
  by (simp add: gate0_token redis_user_token_prefix_def)

text \<open>Once the pool has run the job of an upgrade, the gate's address is published for the user and the
  token it used is refused.\<close>

theorem token_single_use:
  assumes "redis_server R" and "UpgradeHandle R uid token st = (UpgradeTo u, st1)" and "jobs st = []"
  shows "r_hget R (store (upgrade_job R loc st1)) (redis_user_prefix @ uid) ''gate'' = Some loc \<and>
    UpgradeHandle R uid token (upgrade_job R loc st1) = (UpgradeClose, upgrade_job R loc st1)"
proof -
  have st1: "st1 = st\<lparr>jobs := [uid]\<rparr>" "uid \<noteq> []" "token \<noteq> []"
    using assms(2,3) by (auto simp: UpgradeHandle_def Let_def split: if_splits option.splits sum.splits)
  have "redis_user_prefix @ uid \<noteq> redis_user_token_prefix @ uid"
    by (simp add: redis_user_prefix_def redis_user_token_prefix_def)
  then show ?thesis
    by (simp add: st1 upgrade_job_def publish_gate_def UpgradeHandle_def redis_server.get_del [OF assms(1)] redis_server.hget_del [OF assms(1)]
        redis_server.hget_hset [OF assms(1)])
qed

theorem token_single_use_witness:
  "let st = upgrade_job mem_redis ''g:1''
        (gate0\<lparr>store := r_setex mem_redis mem_empty ''ychat::user::token::7'' 60 ''T'', jobs := [''7'']\<rparr>)
   in r_hget mem_redis (store st) ''ychat::user::7'' ''gate'' = Some ''g:1'' \<and>
      UpgradeHandle mem_redis ''7'' ''T'' st = (UpgradeClose, st)"
  using token_single_use [OF mem.redis_server_axioms gate0_token, of "''g:1''"]
  by (simp add: redis_user_prefix_def redis_user_token_prefix_def gate0_def Let_def)



text \<open>When a user reconnects before the old socket is closed, closing the old socket logs the user out:
  the new socket stays open, unregistered, with the gate's address removed from Redis.\<close>

theorem stale_close_logs_out:
  assumes "redis_server R" and "ws_uid st w1 = u" and "ws_uid st w2 = u" and "w1 \<noteq> w2"
  shows "let st' = ws_run R [EvOpen w1, EvOpen w2, EvClose w1] st in
    live_after [EvOpen w1, EvOpen w2, EvClose w1] {} = {w2} \<and> GetWS u st' = None \<and>
    r_hget R (store st') (redis_user_prefix @ fmt_u64 u) ''gate'' = None"
  using assms(2-4) by (auto simp: OpenHandle_def CloseHandle_def um.get_del Let_def redis_server.hget_hdel [OF assms(1)])

theorem stale_close_logs_out_witness:
  "GetWS 7 (ws_run mem_redis [EvOpen 1, EvOpen 2, EvClose 1] gate0) = None"
  using stale_close_logs_out [OF mem.redis_server_axioms, of gate0 1 7 2] by (simp add: gate0_def Let_def)

text \<open>The gate forwards a request with whatever \<open>from_uid\<close> the client wrote into it: a client can send in
  another user's name.\<close>

theorem sender_not_checked:
  assumes "pb_runtime rt" and "ProtoReq_wf rt q" and "ProtoReq_ByteSizeLong rt q < pb_max"
    and "ProtoReq_type q \<notin> {TypeEmpty, TypePull}" and "pool_live (stubs st)" and "pool (stubs st) \<noteq> []"
  shows "\<exists>st'. MessageHandle rt R ws (ProtoReq_InternalSerialize rt q) True st = Some st' \<and>
    to_logic st' = to_logic st @ [(ws_uid st ws, q)] \<and> owned (stubs st') = owned (stubs st)"
proof -
  have p: "ProtoReq_ParseFromArray rt (ProtoReq_InternalSerialize rt q) = Some q"
    using pb_runtime.ProtoReq_roundtrip [OF assms(1-3)] by (simp add: ProtoReq_ParseFromArray_def)
  obtain c s where c: "Acquire (stubs st) = Some (Some c, s)" using pool_live_Acquire [OF assms(5)] assms(6) by blast
  show ?thesis using assms(4) c cp.take_and_return [OF c] p
    by (simp add: MessageHandle_def SendToLogic_def)
qed

theorem sender_not_checked_witness:
  "\<exists>st'. MessageHandle wire_rt mem_redis 3 (ProtoReq_InternalSerialize wire_rt ex_req) True gate0 = Some st' \<and>
    to_logic st' = [(3, ex_req)] \<and> ProtoReq_from_uid ex_req = 7"
  using sender_not_checked [OF wire.pb_runtime_axioms ex_req_wf ex_req_size, of gate0 mem_redis 3]
  by (auto simp: gate0_def ex_req_def pool_live_def)

end
