(* ===== verification/GateProc.thy ===== *)
theory GateProc
  imports Gate ThreadPool RpcSpec
begin

text \<open>
  The gate as a process: \<open>msg_gate/main.cc\<close>, \<open>RunWsApp\<close> of \<open>ws_app.cc\<close>, \<open>GateServer::Run\<close> of \<open>gate_server.cc\<close> and the
  call contexts of \<open>LogicClient\<close> in \<open>async_logic_client.cc\<close>. One thread pool runs everything: the event loop of uWS
  occupies a worker for good (\<open>RunWsTask\<close>), every WebSocket callback and every push becomes a task. \<open>gate_step\<close>
  interleaves the event loop, the workers, the completion queue of the push service, and the completion thread of
  the logic client. A handler takes effect when its task ends. \<open>live\<close> are the sockets uWS has open, \<open>ws_events\<close> is the
  ghost log of openings and closings in the order uWS reports them; using a deleted context, or answering one twice, sets
  \<open>g_crashed\<close>. An exception of \<open>std::stoul\<close> leaves the event loop through the packaged task and ends it.
\<close>

section \<open>State\<close>

datatype gate_task =
    RunWsTask
  | OpenTask nat
  | MessageTask nat string bool
  | DroppedTask nat
  | DrainTask nat
  | CloseTask nat
  | PublishTask string
  | PushTask nat

record gate_context =
  g_done :: bool
  g_req :: PushReq

datatype gate_pc = GFree | GPosted | GQueued | GReturned

record 'r gate_proc =
  gate :: "'r gate_state"
  threads :: "gate_task ThreadPool"
  g_ctx :: "nat \<Rightarrow> gate_context option"
  g_pc :: "nat \<Rightarrow> gate_pc"
  g_finishes :: "(nat \<times> status) list"
  rpc_ctx :: "nat \<Rightarrow> uid option"
  rpc_next :: nat
  live :: "nat set"
  next_ws :: nat
  ws_events :: "ws_event list"
  g_crashed :: bool

definition gate_context_new :: gate_context where
  "gate_context_new = \<lparr>g_done = False, g_req = PushReq_default\<rparr>"

text \<open>\<open>LogicStubs::LogicStubs\<close>: \<open>new_stub i\<close> says whether the \<open>i\<close>-th \<open>NewStub\<close> yields a stub; a null stub exits.\<close>

definition LogicStubs :: "(nat \<Rightarrow> bool) \<Rightarrow> nat \<Rightarrow> nat ConnectionPool option" where
  "LogicStubs new_stub n = fill_pool new_stub n"

definition max_clients :: nat where
  "max_clients = 4"

text \<open>An \<open>Enqueue\<close> of the event loop or of the push service. The pool is not destroyed while they run.\<close>

definition enqueue :: "gate_task \<Rightarrow> 'r gate_proc \<Rightarrow> 'r gate_proc" where
  "enqueue t p =
     (case Enqueue (threads p) t of
        Inl e \<Rightarrow> p\<lparr>g_crashed := True\<rparr>
      | Inr tp \<Rightarrow> p\<lparr>threads := tp\<rparr>)"

text \<open>\<open>main\<close> up to the loop of \<open>GateServer::Run\<close>: the singletons, the pool, the event loop as its first task, and the
  first push context.\<close>

definition gate_start :: "nat \<Rightarrow> 'r \<Rightarrow> nat ConnectionPool \<Rightarrow> 'r gate_proc" where
  "gate_start n r sp =
     enqueue RunWsTask
       \<lparr>gate = \<lparr>sockets = (\<lambda>u. None), ws_uid = (\<lambda>w. 0), sent = [], to_logic = [], jobs = [], store = r, stubs = sp\<rparr>,
        threads = ThreadPool_new n, g_ctx = [0 \<mapsto> gate_context_new], g_pc = (\<lambda>a. GFree)(0 := GPosted), g_finishes = [],
        rpc_ctx = (\<lambda>a. None), rpc_next = 0, live = {}, next_ws = 0, ws_events = [], g_crashed = False\<rparr>"

section \<open>The event loop\<close>

definition ws_running :: "nat \<Rightarrow> 'r gate_proc \<Rightarrow> bool" where
  "ws_running i p \<longleftrightarrow> i < length (workers (threads p)) \<and> workers (threads p) ! i = Running RunWsTask"

text \<open>An upgrade request in the event loop of worker \<open>i\<close>: \<open>UpgradeHandle\<close> enqueues the Redis update before it parses the
  uid; after a successful upgrade uWS opens the socket, and the \<open>.open\<close> callback enqueues \<open>OpenHandle\<close>.\<close>

definition ws_upgrade :: "'r redis \<Rightarrow> nat \<Rightarrow> string \<Rightarrow> string \<Rightarrow> 'r gate_proc \<Rightarrow> 'r gate_proc" where
  "ws_upgrade R i uid token p =
     (case UpgradeHandle R uid token (gate p) of
        (UpgradeClose, g) \<Rightarrow> p
      | (UpgradeThrow e, g) \<Rightarrow>
          let p1 = enqueue (PublishTask uid) (p\<lparr>gate := g\<rparr>) in
          p1\<lparr>threads := worker_done (threads p1) i RunWsTask\<rparr>
      | (UpgradeTo u, g) \<Rightarrow>
          let w = next_ws p;
              p1 = enqueue (PublishTask uid) (p\<lparr>gate := g\<rparr>);
              p2 = p1\<lparr>gate := g\<lparr>ws_uid := (ws_uid g)(w := u)\<rparr>, live := insert w (live p), next_ws := Suc w,
                      ws_events := ws_events p @ [EvOpen w]\<rparr>
          in enqueue (OpenTask w) p2)"

definition ws_close :: "nat \<Rightarrow> 'r gate_proc \<Rightarrow> 'r gate_proc" where
  "ws_close w p =
     enqueue (CloseTask w) (p\<lparr>live := live p - {w}, ws_events := ws_events p @ [EvClose w]\<rparr>)"

section \<open>Tasks\<close>

text \<open>A message that is forwarded allocates a call context with the uid of its socket.\<close>

definition run_message :: "pb_rt \<Rightarrow> 'r redis \<Rightarrow> nat \<Rightarrow> string \<Rightarrow> bool \<Rightarrow> 'r gate_proc \<Rightarrow> 'r gate_proc option" where
  "run_message rt R w m b p =
     (case MessageHandle rt R w m b (gate p) of
        None \<Rightarrow> None
      | Some g \<Rightarrow>
          Some (if length (to_logic (gate p)) < length (to_logic g)
                then p\<lparr>gate := g, rpc_ctx := (rpc_ctx p)(rpc_next p \<mapsto> ws_uid (gate p) w), rpc_next := Suc (rpc_next p)\<rparr>
                else p\<lparr>gate := g\<rparr>))"

definition run_push :: "pb_rt \<Rightarrow> nat \<Rightarrow> 'r gate_proc \<Rightarrow> 'r gate_proc" where
  "run_push rt tag p =
     (case g_ctx p tag of
        None \<Rightarrow> p\<lparr>g_crashed := True\<rparr>
      | Some c \<Rightarrow>
          if g_done c then p\<lparr>g_crashed := True\<rparr>
          else let (s, g) = gate_push rt (g_req c) (gate p) in
            p\<lparr>gate := g, g_ctx := (g_ctx p)(tag \<mapsto> c\<lparr>g_done := True\<rparr>), g_pc := (g_pc p)(tag := GReturned),
              g_finishes := g_finishes p @ [(tag, s)]\<rparr>)"

text \<open>What a task has done when it returns; \<open>None\<close> when it does not, as the event loop and a handler that waits for a
  stub.\<close>

fun run_gate_task :: "pb_rt \<Rightarrow> 'r redis \<Rightarrow> string \<Rightarrow> gate_task \<Rightarrow> 'r gate_proc \<Rightarrow> 'r gate_proc option" where
  "run_gate_task rt R loc RunWsTask p = None"
| "run_gate_task rt R loc (OpenTask w) p = Some (p\<lparr>gate := OpenHandle w (gate p)\<rparr>)"
| "run_gate_task rt R loc (MessageTask w m b) p = run_message rt R w m b p"
| "run_gate_task rt R loc (DroppedTask w) p = Some p"
| "run_gate_task rt R loc (DrainTask w) p = Some p"
| "run_gate_task rt R loc (CloseTask w) p = Some (p\<lparr>gate := CloseHandle R w (gate p)\<rparr>)"
| "run_gate_task rt R loc (PublishTask uid) p =
     Some (p\<lparr>gate := (gate p)\<lparr>jobs := remove1 uid (jobs (gate p)), store := publish_gate R loc uid (store (gate p))\<rparr>\<rparr>)"
| "run_gate_task rt R loc (PushTask tag) p = Some (run_push rt tag p)"

definition finish_task :: "nat \<Rightarrow> gate_task \<Rightarrow> 'r gate_proc \<Rightarrow> 'r gate_proc" where
  "finish_task i t p = p\<lparr>threads := worker_done (threads p) i t\<rparr>"

section \<open>Completion queues\<close>

text \<open>One iteration of the loop of \<open>GateServer::Run\<close>.\<close>

definition gate_iteration :: "nat \<Rightarrow> PushReq \<Rightarrow> nat \<Rightarrow> 'r gate_proc \<Rightarrow> 'r gate_proc" where
  "gate_iteration tag q new_ctx p =
     (case g_ctx p tag of
        None \<Rightarrow> p\<lparr>g_crashed := True\<rparr>
      | Some c \<Rightarrow>
          if g_done c then p\<lparr>g_ctx := (g_ctx p)(tag := None)\<rparr>
          else enqueue (PushTask tag)
                 (p\<lparr>g_ctx := (g_ctx p)(tag \<mapsto> c\<lparr>g_req := q\<rparr>, new_ctx \<mapsto> gate_context_new),
                    g_pc := (g_pc p)(tag := GQueued, new_ctx := GPosted)\<rparr>))"

text \<open>One iteration of \<open>LogicClient::AsyncRpcComplete\<close>: the answer of a failed call is the empty \<open>ProtoResp\<close> it was
  constructed with. The context is deleted.\<close>

definition logic_complete :: "pb_rt \<Rightarrow> nat \<Rightarrow> ProtoResp option \<Rightarrow> 'r gate_proc \<Rightarrow> 'r gate_proc" where
  "logic_complete rt a answer p =
     (case rpc_ctx p a of
        None \<Rightarrow> p\<lparr>g_crashed := True\<rparr>
      | Some u \<Rightarrow>
          p\<lparr>gate := AsyncRpcComplete rt u (case answer of Some r \<Rightarrow> r | None \<Rightarrow> ProtoResp_default) (gate p),
            rpc_ctx := (rpc_ctx p)(a := None)\<rparr>)"

section \<open>Interleavings\<close>

text \<open>With \<open>single\<close> set, no user opens a socket while another one of the same user is open.\<close>

inductive gate_step :: "pb_rt \<Rightarrow> 'r redis \<Rightarrow> string \<Rightarrow> bool \<Rightarrow> 'r gate_proc \<Rightarrow> 'r gate_proc \<Rightarrow> bool"
  for rt :: pb_rt and R :: "'r redis" and loc :: string and single :: bool where
  gs_upgrade: "ws_running i p \<Longrightarrow> (\<And>u. single \<Longrightarrow> stoul uid = Inr u \<Longrightarrow> u \<notin> ws_uid (gate p) ` live p) \<Longrightarrow>
     gate_step rt R loc single p (ws_upgrade R i uid token p)"
| gs_message: "ws_running i p \<Longrightarrow> w \<in> live p \<Longrightarrow> gate_step rt R loc single p (enqueue (MessageTask w m b) p)"
| gs_dropped: "ws_running i p \<Longrightarrow> w \<in> live p \<Longrightarrow> gate_step rt R loc single p (enqueue (DroppedTask w) p)"
| gs_drain: "ws_running i p \<Longrightarrow> w \<in> live p \<Longrightarrow> gate_step rt R loc single p (enqueue (DrainTask w) p)"
| gs_close: "ws_running i p \<Longrightarrow> w \<in> live p \<Longrightarrow> gate_step rt R loc single p (ws_close w p)"
| gs_take: "i < length (workers (threads p)) \<Longrightarrow> workers (threads p) ! i = Looping \<Longrightarrow>
     worker_take (threads p) i = Some tp \<Longrightarrow> gate_step rt R loc single p (p\<lparr>threads := tp\<rparr>)"
| gs_task: "i < length (workers (threads p)) \<Longrightarrow> workers (threads p) ! i = Running t \<Longrightarrow>
     run_gate_task rt R loc t p = Some p' \<Longrightarrow> gate_step rt R loc single p (finish_task i t p')"
| gs_arrive: "g_pc p a = GPosted \<Longrightarrow> g_pc p n = GFree \<Longrightarrow> gate_step rt R loc single p (gate_iteration a q n p)"
| gs_done: "g_ctx p a = Some c \<Longrightarrow> g_done c \<Longrightarrow> gate_step rt R loc single p (gate_iteration a q n p)"
| gs_reply: "rpc_ctx p a = Some u \<Longrightarrow> gate_step rt R loc single p (logic_complete rt a answer p)"
| gs_store: "gate_step rt R loc single p (p\<lparr>gate := (gate p)\<lparr>store := r\<rparr>\<rparr>)"

section \<open>Contexts and tasks\<close>

text \<open>The tasks that are queued or running.\<close>

definition pend :: "'r gate_proc \<Rightarrow> gate_task multiset" where
  "pend p = mset (concat (map running (workers (threads p)))) + mset (tasks (threads p))"

lemma enqueue_live:
  "\<not> stop (threads p) \<Longrightarrow>
   enqueue t p = p\<lparr>threads := (threads p)\<lparr>tasks := tasks (threads p) @ [t], accepted := accepted (threads p) @ [t]\<rparr>\<rparr>"
  by (simp add: enqueue_def Enqueue_def)

lemma pend_enqueue: "\<not> stop (threads p) \<Longrightarrow> pend (enqueue t p) = add_mset t (pend p)"
  by (simp add: enqueue_live pend_def)

lemma enqueue_fields [simp]:
  "gate (enqueue t p) = gate p" "g_ctx (enqueue t p) = g_ctx p" "g_pc (enqueue t p) = g_pc p"
  "g_finishes (enqueue t p) = g_finishes p" "live (enqueue t p) = live p" "ws_events (enqueue t p) = ws_events p"
  "next_ws (enqueue t p) = next_ws p"
  by (simp_all add: enqueue_def split: sum.split)

lemma enqueue_flags [simp]:
  "\<not> stop (threads p) \<Longrightarrow> \<not> stop (threads (enqueue t p))" "\<not> stop (threads p) \<Longrightarrow> g_crashed (enqueue t p) = g_crashed p"
  by (simp_all add: enqueue_live)

lemma take_live:
  assumes "worker_take tp i = Some tp'" and "\<not> stop tp"
  obtains t ts where "tasks tp = t # ts"
    "tp' = tp\<lparr>workers := (workers tp)[i := Running t], tasks := ts, started := started tp @ [t]\<rparr>"
  using assms by (cases "tasks tp") (auto simp: worker_take_def)

lemma pend_take:
  assumes "i < length (workers (threads p))" and "workers (threads p) ! i = Looping"
    and "worker_take (threads p) i = Some tp" and "\<not> stop (threads p)"
  shows "pend (p\<lparr>threads := tp\<rparr>) = pend p"
proof -
  obtain t ts where t: "tasks (threads p) = t # ts"
    "tp = (threads p)\<lparr>workers := (workers (threads p))[i := Running t], tasks := ts, started := started (threads p) @ [t]\<rparr>"
    using take_live [OF assms(3,4)] .
  show ?thesis using mset_running_update [OF assms(1), of "Running t"] assms(2) by (simp add: pend_def t)
qed

lemma pend_done:
  assumes "i < length (workers (threads p))" and "workers (threads p) ! i = Running t"
  shows "add_mset t (pend (finish_task i t p)) = pend p"
  using mset_running_update [OF assms(1), of Looping] assms(2)
  by (simp add: pend_def finish_task_def worker_done_def flip: add_mset_add_single union_mset_add_mset_left)

lemma run_gate_task_threads: "run_gate_task rt R loc t p = Some p' \<Longrightarrow> threads p' = threads p"
  by (induction rt R loc t p rule: run_gate_task.induct)
    (auto simp: run_message_def run_push_def Let_def split: option.splits if_splits prod.splits)

lemma run_gate_task_push:
  "run_gate_task rt R loc t p = Some p' \<Longrightarrow> (\<And>a. t \<noteq> PushTask a) \<Longrightarrow>
   g_ctx p' = g_ctx p \<and> g_pc p' = g_pc p \<and> g_finishes p' = g_finishes p \<and> g_crashed p' = g_crashed p"
  by (induction rt R loc t p rule: run_gate_task.induct) (auto simp: run_message_def split: option.splits if_splits)

section \<open>Invariant of the push contexts\<close>

definition ginv :: "'r gate_proc \<Rightarrow> bool" where
  "ginv p \<longleftrightarrow> \<not> g_crashed p \<and> \<not> stop (threads p) \<and>
     (\<forall>a. g_pc p a = GFree \<longrightarrow> g_ctx p a = None) \<and>
     (\<forall>a. g_pc p a \<in> {GPosted, GQueued} \<longrightarrow> (\<exists>c. g_ctx p a = Some c \<and> \<not> g_done c)) \<and>
     (\<forall>a c. g_ctx p a = Some c \<and> g_done c \<longrightarrow> g_pc p a = GReturned) \<and>
     (\<forall>a. count_list (map fst (g_finishes p)) a = (if g_pc p a = GReturned then 1 else 0)) \<and>
     (\<forall>a. count (pend p) (PushTask a) = (if g_pc p a = GQueued then 1 else 0))"

lemma ginvI:
  assumes "\<not> g_crashed p" and "\<not> stop (threads p)" and "\<And>a. g_pc p a = GFree \<Longrightarrow> g_ctx p a = None"
    and "\<And>a. g_pc p a \<in> {GPosted, GQueued} \<Longrightarrow> \<exists>c. g_ctx p a = Some c \<and> \<not> g_done c"
    and "\<And>a c. g_ctx p a = Some c \<Longrightarrow> g_done c \<Longrightarrow> g_pc p a = GReturned"
    and "\<And>a. count_list (map fst (g_finishes p)) a = (if g_pc p a = GReturned then 1 else 0)"
    and "\<And>a. count (pend p) (PushTask a) = (if g_pc p a = GQueued then 1 else 0)"
  shows "ginv p"
  using assms unfolding ginv_def by blast

lemma ginvD:
  assumes "ginv p"
  shows ginv_crashed: "\<not> g_crashed p" and ginv_stop: "\<not> stop (threads p)"
    and ginv_free: "g_pc p a = GFree \<Longrightarrow> g_ctx p a = None"
    and ginv_busy: "g_pc p a \<in> {GPosted, GQueued} \<Longrightarrow> \<exists>c. g_ctx p a = Some c \<and> \<not> g_done c"
    and ginv_done: "g_ctx p a = Some c \<Longrightarrow> g_done c \<Longrightarrow> g_pc p a = GReturned"
    and ginv_finishes: "count_list (map fst (g_finishes p)) a = (if g_pc p a = GReturned then 1 else 0)"
    and ginv_pend: "count (pend p) (PushTask a) = (if g_pc p a = GQueued then 1 else 0)"
  using assms unfolding ginv_def by blast+

text \<open>A step that keeps the contexts and the queued pushes keeps the invariant.\<close>

lemma ginv_cong:
  assumes "ginv p" and "g_crashed p' = g_crashed p" and "\<not> stop (threads p')" and "g_ctx p' = g_ctx p" and "g_pc p' = g_pc p"
    and "g_finishes p' = g_finishes p" and "\<And>a. count (pend p') (PushTask a) = count (pend p) (PushTask a)"
  shows "ginv p'"
  by (rule ginvI) (use assms(2-) ginvD [OF assms(1)] in simp_all)

lemma ginv_enqueue: "ginv p \<Longrightarrow> (\<And>a. t \<noteq> PushTask a) \<Longrightarrow> ginv (enqueue t p)"
  by (rule ginv_cong) (auto simp: pend_enqueue ginv_stop)

lemma ginv_fields:
  "ginv (p\<lparr>gate := g\<rparr>) = ginv p" "ginv (p\<lparr>live := l\<rparr>) = ginv p" "ginv (p\<lparr>ws_events := es\<rparr>) = ginv p"
  "ginv (p\<lparr>next_ws := n\<rparr>) = ginv p" "ginv (p\<lparr>rpc_ctx := r\<rparr>) = ginv p"
  by (simp_all add: ginv_def pend_def)

lemma ginv_ws_done:
  assumes "ginv p" and "ws_running i p"
  shows "ginv (finish_task i RunWsTask p)"
proof (rule ginv_cong [OF assms(1)])
  have "add_mset RunWsTask (pend (finish_task i RunWsTask p)) = pend p"
    using assms(2) by (intro pend_done) (simp_all add: ws_running_def)
  then have "count (add_mset RunWsTask (pend (finish_task i RunWsTask p))) (PushTask a) = count (pend p) (PushTask a)" for a
    by simp
  then show "count (pend (finish_task i RunWsTask p)) (PushTask a) = count (pend p) (PushTask a)" for a by simp
qed (use ginv_stop [OF assms(1)] in \<open>simp_all add: finish_task_def worker_done_def\<close>)

lemma ws_running_enqueue: "ws_running i p \<Longrightarrow> ws_running i (enqueue t p)"
  by (simp add: ws_running_def enqueue_def Enqueue_def)

lemma ginv_upgrade:
  assumes "ginv p" and "ws_running i p"
  shows "ginv (ws_upgrade R i uid token p)"
proof -
  obtain v g where v: "UpgradeHandle R uid token (gate p) = (v, g)" by fastforce
  let ?p = "enqueue (PublishTask uid) (p\<lparr>gate := g\<rparr>)"
  have 1: "ginv ?p" using assms(1) by (intro ginv_enqueue) (simp_all add: ginv_fields)
  have "ws_running i ?p" using assms(2) by (intro ws_running_enqueue) (simp add: ws_running_def)
  from ginv_ws_done [OF 1 this] have 2: "ginv (?p\<lparr>threads := worker_done (threads ?p) i RunWsTask\<rparr>)"
    by (simp add: finish_task_def)
  show ?thesis
  proof (cases v)
    case (UpgradeTo u)
    let ?g = "g\<lparr>ws_uid := (ws_uid g)(next_ws p := u)\<rparr>"
    have "ginv (enqueue (OpenTask (next_ws p)) (?p\<lparr>gate := ?g, live := insert (next_ws p) (live p),
        next_ws := Suc (next_ws p), ws_events := ws_events p @ [EvOpen (next_ws p)]\<rparr>))"
      by (rule ginv_enqueue) (simp_all add: ginv_fields 1)
    then show ?thesis using UpgradeTo by (simp add: ws_upgrade_def v Let_def)
  qed (use assms(1) 2 in \<open>simp_all add: ws_upgrade_def v Let_def\<close>)
qed

lemma ginv_take:
  assumes "ginv p" and "i < length (workers (threads p))" and "workers (threads p) ! i = Looping"
    and "worker_take (threads p) i = Some tp"
  shows "ginv (p\<lparr>threads := tp\<rparr>)"
proof (rule ginv_cong [OF assms(1)])
  show "\<not> stop (threads (p\<lparr>threads := tp\<rparr>))"
    by (rule take_live [OF assms(4) ginv_stop [OF assms(1)]]) (use ginv_stop [OF assms(1)] in simp)
qed (simp_all add: pend_take [OF assms(2-4) ginv_stop [OF assms(1)]])

lemma run_push_live:
  assumes "ginv p" and "g_pc p a = GQueued"
  obtains c s g where "g_ctx p a = Some c" "\<not> g_done c" "gate_push rt (g_req c) (gate p) = (s, g)"
    "run_push rt a p = p\<lparr>gate := g, g_ctx := (g_ctx p)(a \<mapsto> c\<lparr>g_done := True\<rparr>), g_pc := (g_pc p)(a := GReturned),
       g_finishes := g_finishes p @ [(a, s)]\<rparr>"
proof -
  obtain c where c: "g_ctx p a = Some c" "\<not> g_done c" using ginv_busy [OF assms(1), of a] assms(2) by auto
  obtain s g where "gate_push rt (g_req c) (gate p) = (s, g)" by fastforce
  with c show thesis by (intro that [of c s g]) (simp_all add: run_push_def)
qed

lemma count_pend_done:
  assumes "i < length (workers (threads p))" and "workers (threads p) ! i = Running t" and "threads p' = threads p"
  shows "count (pend (finish_task i t p')) x + (if x = t then 1 else 0) = count (pend p) x"
proof -
  have "pend (finish_task i t p') = pend (finish_task i t p)" by (simp add: pend_def finish_task_def assms(3))
  then show ?thesis using arg_cong [OF pend_done [OF assms(1,2)], of "\<lambda>m. count m x"] by (simp split: if_splits)
qed

lemma running_push_queued:
  assumes "ginv p" and "i < length (workers (threads p))" and "workers (threads p) ! i = Running (PushTask a)"
  shows "g_pc p a = GQueued"
  using count_pend_done [OF assms(2,3) refl, of "PushTask a"] ginv_pend [OF assms(1), of a] by (simp split: if_splits)

lemma ginv_push:
  assumes inv: "ginv p" and i: "i < length (workers (threads p))" "workers (threads p) ! i = Running (PushTask a)"
  shows "ginv (finish_task i (PushTask a) (run_push rt a p))"
proof -
  have q: "g_pc p a = GQueued" by (rule running_push_queued [OF assms])
  obtain c s g where c: "g_ctx p a = Some c" "\<not> g_done c" "run_push rt a p = p\<lparr>gate := g,
      g_ctx := (g_ctx p)(a \<mapsto> c\<lparr>g_done := True\<rparr>), g_pc := (g_pc p)(a := GReturned), g_finishes := g_finishes p @ [(a, s)]\<rparr>"
    using run_push_live [OF inv q] by metis
  have pend: "count (pend (finish_task i (PushTask a) (run_push rt a p))) (PushTask b) =
      (if b \<noteq> a \<and> g_pc p b = GQueued then 1 else 0)" for b
    using count_pend_done [OF i, of "run_push rt a p" "PushTask b"] ginv_pend [OF inv, of b] q
    by (simp add: c(3) split: if_splits)
  show ?thesis
  proof (rule ginvI)
    fix b assume "g_pc (finish_task i (PushTask a) (run_push rt a p)) b \<in> {GPosted, GQueued}"
    then show "\<exists>c. g_ctx (finish_task i (PushTask a) (run_push rt a p)) b = Some c \<and> \<not> g_done c"
      using ginv_busy [OF inv, of b] by (auto simp: c(3) finish_task_def split: if_splits)
  next
    fix b d assume "g_ctx (finish_task i (PushTask a) (run_push rt a p)) b = Some d" "g_done d"
    then show "g_pc (finish_task i (PushTask a) (run_push rt a p)) b = GReturned"
      using ginv_done [OF inv, of b d] by (auto simp: c(3) finish_task_def split: if_splits)
  next
    fix b show "count (pend (finish_task i (PushTask a) (run_push rt a p))) (PushTask b) =
        (if g_pc (finish_task i (PushTask a) (run_push rt a p)) b = GQueued then 1 else 0)"
      by (simp add: pend) (simp add: c(3) finish_task_def)
  qed (use ginvD [OF inv] q in \<open>simp_all add: c(3) finish_task_def worker_done_def split: if_splits\<close>)
qed

lemma ginv_other_task:
  assumes inv: "ginv p" and i: "i < length (workers (threads p))" "workers (threads p) ! i = Running t"
    and t: "\<And>a. t \<noteq> PushTask a" and r: "run_gate_task rt R loc t p = Some p'"
  shows "ginv (finish_task i t p')"
proof (rule ginv_cong [OF inv])
  note th = run_gate_task_threads [OF r]
  show "\<not> stop (threads (finish_task i t p'))" using ginv_stop [OF inv] by (simp add: finish_task_def worker_done_def th)
  show "count (pend (finish_task i t p')) (PushTask a) = count (pend p) (PushTask a)" for a
    using count_pend_done [OF i th, of "PushTask a"] t [of a] by (auto split: if_splits)
qed (use run_gate_task_push [OF r t] in \<open>simp_all add: finish_task_def\<close>)

lemma gate_iteration_arrive:
  assumes inv: "ginv p" and a: "g_pc p a = GPosted"
  obtains c where "g_ctx p a = Some c" "\<not> g_done c" "gate_iteration a q n p = enqueue (PushTask a)
      (p\<lparr>g_ctx := (g_ctx p)(a \<mapsto> c\<lparr>g_req := q\<rparr>, n \<mapsto> gate_context_new), g_pc := (g_pc p)(a := GQueued, n := GPosted)\<rparr>)"
proof -
  obtain c where c: "g_ctx p a = Some c" "\<not> g_done c" using ginv_busy [OF inv, of a] a by auto
  then show thesis by (intro that) (simp_all add: gate_iteration_def)
qed

lemma ginv_arrive:
  assumes inv: "ginv p" and a: "g_pc p a = GPosted" and n: "g_pc p n = GFree"
  shows "ginv (gate_iteration a q n p)"
proof -
  obtain c where c: "g_ctx p a = Some c" "\<not> g_done c" and F: "gate_iteration a q n p = enqueue (PushTask a)
      (p\<lparr>g_ctx := (g_ctx p)(a \<mapsto> c\<lparr>g_req := q\<rparr>, n \<mapsto> gate_context_new), g_pc := (g_pc p)(a := GQueued, n := GPosted)\<rparr>)"
    by (rule gate_iteration_arrive [OF inv a])
  have an: "a \<noteq> n" using a n by auto
  have pend: "pend (gate_iteration a q n p) = add_mset (PushTask a) (pend p)"
    unfolding F using ginv_stop [OF inv] by (subst pend_enqueue) (simp_all add: pend_def)
  show ?thesis
  proof (rule ginvI)
    show "\<not> g_crashed (gate_iteration a q n p)" "\<not> stop (threads (gate_iteration a q n p))"
      using ginv_crashed [OF inv] ginv_stop [OF inv] by (simp_all add: F)
  next
    fix b assume "g_pc (gate_iteration a q n p) b = GFree"
    then show "g_ctx (gate_iteration a q n p) b = None" using ginv_free [OF inv, of b] by (simp add: F split: if_splits)
  next
    fix b assume "g_pc (gate_iteration a q n p) b \<in> {GPosted, GQueued}"
    then show "\<exists>c. g_ctx (gate_iteration a q n p) b = Some c \<and> \<not> g_done c"
      using ginv_busy [OF inv, of b] c by (auto simp: F gate_context_new_def split: if_splits)
  next
    fix b d assume "g_ctx (gate_iteration a q n p) b = Some d" "g_done d"
    then show "g_pc (gate_iteration a q n p) b = GReturned"
      using ginv_done [OF inv, of b d] c by (auto simp: F gate_context_new_def split: if_splits)
  next
    fix b show "count_list (map fst (g_finishes (gate_iteration a q n p))) b =
        (if g_pc (gate_iteration a q n p) b = GReturned then 1 else 0)"
      using ginv_finishes [OF inv, of b] a n by (simp add: F)
  next
    fix b show "count (pend (gate_iteration a q n p)) (PushTask b) =
        (if g_pc (gate_iteration a q n p) b = GQueued then 1 else 0)"
      using ginv_pend [OF inv, of b] a n an unfolding pend by (auto simp: F)
  qed
qed

lemma ginv_delete:
  assumes inv: "ginv p" and c: "g_ctx p a = Some c" "g_done c"
  shows "ginv (gate_iteration a q n p)"
proof -
  have F: "gate_iteration a q n p = p\<lparr>g_ctx := (g_ctx p)(a := None)\<rparr>" using c by (simp add: gate_iteration_def)
  have ret: "g_pc p a = GReturned" by (rule ginv_done [OF inv c])
  have pend: "pend (gate_iteration a q n p) = pend p" by (simp add: F pend_def)
  show ?thesis
  proof (rule ginvI)
    fix b assume "g_pc (gate_iteration a q n p) b \<in> {GPosted, GQueued}"
    then show "\<exists>c. g_ctx (gate_iteration a q n p) b = Some c \<and> \<not> g_done c"
      using ginv_busy [OF inv, of b] ret by (auto simp: F)
  next
    fix b d assume "g_ctx (gate_iteration a q n p) b = Some d" "g_done d"
    then show "g_pc (gate_iteration a q n p) b = GReturned" using ginv_done [OF inv, of b d] by (simp add: F split: if_splits)
  next
    fix b assume "g_pc (gate_iteration a q n p) b = GFree"
    then show "g_ctx (gate_iteration a q n p) b = None" using ginv_free [OF inv, of b] by (simp add: F)
  qed (unfold pend, use ginvD [OF inv] in \<open>simp_all add: F\<close>)
qed

lemma ginv_close: "ginv p \<Longrightarrow> ginv (ws_close w p)"
  unfolding ws_close_def by (rule ginv_enqueue) (simp_all add: ginv_fields)

lemma gate_step_ginv:
  assumes "gate_step rt R loc single p p'" and inv: "ginv p"
  shows "ginv p'"
  using assms(1)
proof cases
  case (gs_upgrade i uid token)
  then show ?thesis using ginv_upgrade [OF inv] by simp
next
  case (gs_close i w)
  then show ?thesis using ginv_close [OF inv] by simp
next
  case (gs_take i tp)
  then show ?thesis using ginv_take [OF inv] by simp
next
  case (gs_task i t q)
  show ?thesis
  proof (cases "\<exists>a. t = PushTask a")
    case True
    then show ?thesis using gs_task ginv_push [OF inv] by auto
  next
    case False
    then show ?thesis using gs_task ginv_other_task [OF inv gs_task(2,3)] by auto
  qed
next
  case (gs_arrive a n q)
  then show ?thesis using ginv_arrive [OF inv] by simp
next
  case (gs_done a c q n)
  then show ?thesis using ginv_delete [OF inv] by simp
next
  case (gs_reply a u answer)
  then show ?thesis using inv by (simp add: logic_complete_def ginv_fields)
next
  case (gs_store r)
  then show ?thesis using inv by (simp add: ginv_fields)
qed (simp_all add: inv ginv_enqueue)

lemma gate_start_live:
  "gate_start n r sp =
    \<lparr>gate = \<lparr>sockets = (\<lambda>u. None), ws_uid = (\<lambda>w. 0), sent = [], to_logic = [], jobs = [], store = r, stubs = sp\<rparr>,
     threads = (ThreadPool_new n)\<lparr>tasks := [RunWsTask], accepted := [RunWsTask]\<rparr>, g_ctx = [0 \<mapsto> gate_context_new],
     g_pc = (\<lambda>a. GFree)(0 := GPosted), g_finishes = [], rpc_ctx = (\<lambda>a. None), rpc_next = 0, live = {}, next_ws = 0,
     ws_events = [], g_crashed = False\<rparr>"
  by (simp add: gate_start_def enqueue_def Enqueue_def ThreadPool_new_def)

lemma gate_start_ginv: "ginv (gate_start n r sp)"
  by (rule ginvI) (auto simp: gate_start_live ThreadPool_new_def pend_def concat_running_replicate gate_context_new_def
      split: if_splits)

section \<open>Refinement of the RPC specification\<close>

fun gate_point :: "gate_pc \<Rightarrow> status call" where
  "gate_point GFree = Unborn"
| "gate_point GPosted = Posted"
| "gate_point _ = Active"

definition gate_abs :: "'r gate_proc \<Rightarrow> status rpc_spec" where
  "gate_abs p = abs_of (\<lambda>a. gate_point (g_pc p a)) (g_finishes p)"

lemma ginv_log: "ginv p \<Longrightarrow> g_pc p a \<noteq> GReturned \<Longrightarrow> map_of (g_finishes p) a = None"
  by (rule map_of_count_0) (simp add: ginv_finishes)

lemma gate_abs_cong: "g_pc p' = g_pc p \<Longrightarrow> g_finishes p' = g_finishes p \<Longrightarrow> gate_abs p' = gate_abs p"
  by (simp add: gate_abs_def)

lemma gate_push_abs:
  assumes "ginv p" and "g_pc p a = GQueued"
  shows "spec_step (gate_abs p) (gate_abs (finish_task i (PushTask a) (run_push rt a p)))"
proof -
  obtain c s g where "run_push rt a p = p\<lparr>gate := g, g_ctx := (g_ctx p)(a \<mapsto> c\<lparr>g_done := True\<rparr>),
      g_pc := (g_pc p)(a := GReturned), g_finishes := g_finishes p @ [(a, s)]\<rparr>"
    using run_push_live [OF assms] by metis
  then show ?thesis
    using abs_of_answer [of "g_finishes p" a "\<lambda>b. gate_point (g_pc p b)"] ginv_log [OF assms(1), of a] assms(2)
    by (simp add: gate_abs_def finish_task_def)
qed

lemma gate_arrive_abs:
  assumes "ginv p" and "g_pc p a = GPosted" and "g_pc p n = GFree"
  shows "spec_step (gate_abs p) (gate_abs (gate_iteration a q n p))"
proof -
  obtain c where F: "gate_iteration a q n p = enqueue (PushTask a)
      (p\<lparr>g_ctx := (g_ctx p)(a \<mapsto> c\<lparr>g_req := q\<rparr>, n \<mapsto> gate_context_new), g_pc := (g_pc p)(a := GQueued, n := GPosted)\<rparr>)"
    by (rule gate_iteration_arrive [OF assms(1,2)])
  have "abs_of ((\<lambda>b. gate_point (g_pc p b))(a := Active, n := Posted)) (g_finishes p) = gate_abs (gate_iteration a q n p)"
    by (simp add: F gate_abs_def, rule abs_of_cong) simp
  then show ?thesis
    using abs_of_accept [of "g_finishes p" a n "\<lambda>b. gate_point (g_pc p b)"] ginv_log [OF assms(1), of a]
      ginv_log [OF assms(1), of n] assms(2,3) by (simp add: gate_abs_def)
qed

lemma ws_upgrade_push: "g_pc (ws_upgrade R i uid token p) = g_pc p" "g_finishes (ws_upgrade R i uid token p) = g_finishes p"
  by (simp_all add: ws_upgrade_def Let_def split: prod.split upgrade.split)

lemma gate_step_abs:
  assumes "gate_step rt R loc single p p'" and inv: "ginv p"
  shows "spec_step\<^sup>*\<^sup>* (gate_abs p) (gate_abs p')"
  using assms(1)
proof cases
  case (gs_task i t q)
  show ?thesis
  proof (cases "\<exists>a. t = PushTask a")
    case True
    then obtain a where a: "t = PushTask a" by blast
    from gate_push_abs [OF inv running_push_queued [OF inv gs_task(2) gs_task(3) [unfolded a]], of i rt] gs_task(1,4)
    show ?thesis by (auto simp: a)
  next
    case False
    then have "gate_abs p' = gate_abs p" using run_gate_task_push [OF gs_task(4)] gs_task(1)
      by (auto simp: finish_task_def gate_abs_def)
    then show ?thesis by simp
  qed
next
  case (gs_arrive a n q)
  then show ?thesis using gate_arrive_abs [OF inv] by (simp add: r_into_rtranclp)
qed (simp_all add: gate_abs_def ws_upgrade_push ws_close_def gate_iteration_def logic_complete_def)

interpretation gate_rpc: rpc_server "gate_step rt R loc single" "gate_start n r sp" ginv gate_abs
proof
  show "gate_abs (gate_start n r sp) = spec_start"
    by (auto simp: gate_abs_def abs_of_def gate_start_live spec_start_def fun_eq_iff)
qed (auto intro: gate_start_ginv gate_step_ginv gate_step_abs)

end
