(* ===== verification/GateOrder.thy ===== *)
theory GateOrder
  imports GateProc
begin

text \<open>
  What the number of workers does to the gate. The callbacks of one socket are separate tasks, so their order is only kept
  when at most one worker runs handlers. With two workers (one of them lost to the event loop) the registry follows
  the sockets; with a third one, \<open>OpenHandle\<close> and \<open>CloseHandle\<close> of a socket can run in the wrong order; with one worker
  no handler ever runs.
\<close>

section \<open>Sequences of events\<close>

lemma live_after_append [simp]: "live_after (es @ es') L = live_after es' (live_after es L)"
  by (induction es L rule: live_after.induct) auto

lemma one_per_user_append [simp]:
  "one_per_user f (es @ es') L \<longleftrightarrow> one_per_user f es L \<and> one_per_user f es' (live_after es L)"
  by (induction es L rule: live_after.induct) auto

fun ws_of :: "ws_event \<Rightarrow> nat" where
  "ws_of (EvOpen w) = w"
| "ws_of (EvClose w) = w"

lemma live_after_subset: "live_after es L \<subseteq> L \<union> ws_of ` set es"
  by (induction es L rule: live_after.induct) auto

lemma one_per_user_cong:
  "(\<And>w. w \<in> L \<union> ws_of ` set es \<Longrightarrow> f w = g w) \<Longrightarrow> one_per_user f es L = one_per_user g es L"
proof (induction es arbitrary: L)
  case (Cons e es)
  show ?case
  proof (cases e)
    case (EvOpen w)
    have "f ` L = g ` L" by (rule image_cong) (simp_all add: Cons.prems)
    moreover have "one_per_user f es (insert w L) = one_per_user g es (insert w L)"
      by (rule Cons.IH) (use Cons.prems EvOpen in auto)
    ultimately show ?thesis using Cons.prems [of w] EvOpen by simp
  next
    case (EvClose w)
    have "one_per_user f es (L - {w}) = one_per_user g es (L - {w})" by (rule Cons.IH) (use Cons.prems in auto)
    then show ?thesis using EvClose by simp
  qed
qed simp

text \<open>The events a task reports to the registry.\<close>

fun ev_of :: "gate_task \<Rightarrow> ws_event list" where
  "ev_of (OpenTask w) = [EvOpen w]"
| "ev_of (CloseTask w) = [EvClose w]"
| "ev_of _ = []"

definition evs :: "gate_task list \<Rightarrow> ws_event list" where
  "evs ts = concat (map ev_of ts)"

lemma evs_simps [simp]: "evs [] = []" "evs (t # ts) = ev_of t @ evs ts" "evs (ts @ ts') = evs ts @ evs ts'"
  by (simp_all add: evs_def)

section \<open>Handlers and the registry\<close>

lemma registered_cong:
  assumes "sockets g' = sockets g" and "ws_uid g' = ws_uid g"
  shows "registered f L g' = registered f L g"
  using assms by (simp add: registered_def GetWS_def)

lemma registered_relabel:
  assumes "registered (ws_uid g) L g" and "w \<notin> L"
  shows "registered ((ws_uid g)(w := u)) L (g\<lparr>ws_uid := (ws_uid g)(w := u)\<rparr>)"
proof -
  have "inj_on ((ws_uid g)(w := u)) L" using assms by (auto simp: registered_def inj_on_def)
  moreover have "GetWS v (g\<lparr>ws_uid := (ws_uid g)(w := u)\<rparr>) = Some x \<longleftrightarrow> x \<in> L \<and> ((ws_uid g)(w := u)) x = v" for v x
  proof -
    have "GetWS v g = Some x \<longleftrightarrow> x \<in> L \<and> ws_uid g x = v" using assms(1) unfolding registered_def by blast
    then show ?thesis using assms(2) by (auto simp: GetWS_def)
  qed
  ultimately show ?thesis by (simp add: registered_def)
qed

lemma UpgradeHandle_registry:
  assumes "UpgradeHandle R uid token g = (v, g')"
  shows "sockets g' = sockets g" "ws_uid g' = ws_uid g"
  using assms by (auto simp: UpgradeHandle_def Let_def split: if_splits option.splits sum.splits)

lemma MessageHandle_registry:
  assumes "MessageHandle rt R w m b g = Some g'"
  shows "sockets g' = sockets g" "ws_uid g' = ws_uid g"
  using assms by (auto simp: MessageHandle_def SendToLogic_def SendErrorResp_def ws_send_def Let_def
      split: if_splits option.splits)

lemma other_task_registry:
  assumes "run_gate_task rt R loc t p = Some p'" and "ev_of t = []"
  shows "sockets (gate p') = sockets (gate p) \<and> ws_uid (gate p') = ws_uid (gate p)"
  using assms
proof (cases t)
  case (MessageTask w m b)
  then show ?thesis using assms(1) MessageHandle_registry [of rt R w m b "gate p"]
    by (auto simp: run_message_def split: option.splits if_splits)
next
  case (PushTask a)
  then show ?thesis using assms(1)
    by (auto simp: run_push_def gate_push_def ws_send_def Let_def split: option.splits if_splits prod.splits)
qed auto

lemma task_registered:
  assumes "run_gate_task rt R loc t p = Some p'" and "registered (ws_uid (gate p)) L (gate p)"
    and "one_per_user (ws_uid (gate p)) (ev_of t) L"
  shows "ws_uid (gate p') = ws_uid (gate p)" "registered (ws_uid (gate p)) (live_after (ev_of t) L) (gate p')"
proof -
  have run: "registered (ws_uid (gate p)) (live_after (ev_of t) L) (ws_run R (ev_of t) (gate p))"
    by (rule ws_run_registered [OF assms(2,3)])
  show "registered (ws_uid (gate p)) (live_after (ev_of t) L) (gate p')"
  proof (cases "ev_of t = []")
    case True
    then show ?thesis using other_task_registry [OF assms(1)] registered_cong assms(2) by fastforce
  next
    case False
    then show ?thesis using run assms(1) by (cases t) auto
  qed
  then show "ws_uid (gate p') = ws_uid (gate p)" by (simp add: registered_def)
qed

section \<open>Two workers\<close>

text \<open>The two workers before the event loop has started, and while it runs beside at most one handler.\<close>

definition two_workers :: "gate_task ThreadPool \<Rightarrow> bool" where
  "two_workers tp \<longleftrightarrow> \<not> stop tp \<and>
     (workers tp = [Looping, Looping] \<and> (\<exists>ts. tasks tp = RunWsTask # ts \<and> RunWsTask \<notin> set ts) \<or>
      RunWsTask \<notin> set (tasks tp) \<and>
      (\<exists>x. x \<noteq> Running RunWsTask \<and> x \<noteq> Exited \<and>
         (workers tp = [Running RunWsTask, x] \<or> workers tp = [x, Running RunWsTask])))"

definition waiting :: "gate_task ThreadPool \<Rightarrow> gate_task list" where
  "waiting tp = concat (map running (workers tp)) @ tasks tp"

lemma two_workers_add:
  assumes "two_workers tp" and "t \<noteq> RunWsTask" and "Enqueue tp t = Inr tp'"
  shows "two_workers tp'" "waiting tp' = waiting tp @ [t]" "finished tp' = finished tp"
  using assms by (auto simp: two_workers_def waiting_def Enqueue_def split: if_splits)

lemma two_workers_take:
  assumes "two_workers tp" and "i < length (workers tp)" and "workers tp ! i = Looping" and "worker_take tp i = Some tp'"
  shows "two_workers tp'" "evs (waiting tp') = evs (waiting tp)" "finished tp' = finished tp"
proof -
  have stop: "\<not> stop tp" using assms(1) by (simp add: two_workers_def)
  obtain t ts where t: "tasks tp = t # ts"
    and tp': "tp' = tp\<lparr>workers := (workers tp)[i := Running t], tasks := ts, started := started tp @ [t]\<rparr>"
    by (rule take_live [OF assms(4) stop])
  consider (start) "workers tp = [Looping, Looping]" "t = RunWsTask" "RunWsTask \<notin> set ts"
    | (left) x where "workers tp = [Running RunWsTask, x]" "t \<noteq> RunWsTask" "RunWsTask \<notin> set ts"
    | (right) x where "workers tp = [x, Running RunWsTask]" "t \<noteq> RunWsTask" "RunWsTask \<notin> set ts"
    using assms(1) by (auto simp: two_workers_def t)
  then show "two_workers tp'" "evs (waiting tp') = evs (waiting tp)" "finished tp' = finished tp"
    using assms(2,3) stop by (cases; auto simp: two_workers_def waiting_def tp' t less_Suc_eq numeral_2_eq_2)+
qed

lemma two_workers_done:
  assumes "two_workers tp" and "i < length (workers tp)" and "workers tp ! i = Running t" and "t \<noteq> RunWsTask"
  shows "two_workers (worker_done tp i t)" "evs (waiting tp) = ev_of t @ evs (waiting (worker_done tp i t))"
    "finished (worker_done tp i t) = finished tp @ [t]"
proof -
  have w: "workers tp = [Running RunWsTask, Running t] \<and> i = 1 \<or> workers tp = [Running t, Running RunWsTask] \<and> i = 0"
    "RunWsTask \<notin> set (tasks tp)" "\<not> stop tp"
    using assms by (auto simp: two_workers_def less_Suc_eq numeral_2_eq_2)
  have "workers (worker_done tp i t) = [Running RunWsTask, Looping] \<or>
      workers (worker_done tp i t) = [Looping, Running RunWsTask]"
    using w(1) by (auto simp: worker_done_def)
  then show "two_workers (worker_done tp i t)"
    using w(2,3) by (auto simp: two_workers_def worker_done_def)
  show "evs (waiting tp) = ev_of t @ evs (waiting (worker_done tp i t))" using w(1) by (auto simp: waiting_def worker_done_def)
qed (simp add: worker_done_def)

text \<open>As long as the event loop runs: the registry is what the handled prefix of the events leaves, the rest of the events
  is waiting in order, and the events are those of the open sockets.\<close>

definition in_order :: "'r gate_proc \<Rightarrow> bool" where
  "in_order p \<longleftrightarrow> two_workers (threads p) \<and> (\<forall>e \<in> set (ws_events p). ws_of e < next_ws p) \<and>
     one_per_user (ws_uid (gate p)) (ws_events p) {} \<and> live p = live_after (ws_events p) {} \<and>
     (\<exists>done. ws_events p = done @ evs (waiting (threads p)) \<and>
        registered (ws_uid (gate p)) (live_after done {}) (gate p))"

lemma in_orderI:
  assumes "two_workers (threads p)" and "\<forall>e \<in> set (ws_events p). ws_of e < next_ws p"
    and "one_per_user (ws_uid (gate p)) (ws_events p) {}" and "live p = live_after (ws_events p) {}"
    and "ws_events p = es @ evs (waiting (threads p))" and "registered (ws_uid (gate p)) (live_after es {}) (gate p)"
  shows "in_order p"
  using assms unfolding in_order_def by blast

lemma in_orderE:
  assumes "in_order p"
  obtains es where "two_workers (threads p)" "\<forall>e \<in> set (ws_events p). ws_of e < next_ws p"
    "one_per_user (ws_uid (gate p)) (ws_events p) {}" "live p = live_after (ws_events p) {}"
    "ws_events p = es @ evs (waiting (threads p))" "registered (ws_uid (gate p)) (live_after es {}) (gate p)"
  using assms unfolding in_order_def by blast

text \<open>Steps that neither report an event nor touch the registry.\<close>

lemma in_order_cong:
  assumes "in_order p" and "two_workers (threads p')" and "evs (waiting (threads p')) = evs (waiting (threads p))"
    and "ws_events p' = ws_events p" and "next_ws p' = next_ws p" and "live p' = live p"
    and "sockets (gate p') = sockets (gate p)" and "ws_uid (gate p') = ws_uid (gate p)"
  shows "in_order p'"
proof -
  obtain es where es: "two_workers (threads p)" "\<forall>e \<in> set (ws_events p). ws_of e < next_ws p"
    "one_per_user (ws_uid (gate p)) (ws_events p) {}" "live p = live_after (ws_events p) {}"
    "ws_events p = es @ evs (waiting (threads p))" "registered (ws_uid (gate p)) (live_after es {}) (gate p)"
    using assms(1) by (rule in_orderE)
  show ?thesis by (rule in_orderI [OF assms(2)]) (use es assms registered_cong [OF assms(7,8)] in simp_all)
qed

lemma enqueue_Enqueue: "\<not> stop (threads p) \<Longrightarrow> Enqueue (threads p) t = Inr (threads (enqueue t p))"
  by (simp add: enqueue_live Enqueue_def)

lemma two_workers_stop: "two_workers tp \<Longrightarrow> \<not> stop tp"
  by (simp add: two_workers_def)

lemmas two_workers_enqueue = two_workers_add [OF _ _ enqueue_Enqueue [OF two_workers_stop]]

lemma in_order_enqueue:
  assumes "in_order p" and "t \<noteq> RunWsTask" and "ev_of t = []"
  shows "in_order (enqueue t p)"
proof -
  have tw: "two_workers (threads p)" using assms(1) by (simp add: in_order_def)
  show ?thesis
    by (rule in_order_cong [OF assms(1) two_workers_enqueue(1) [OF tw assms(2) tw]])
      (simp_all add: two_workers_enqueue(2) [OF tw assms(2) tw] assms(3))
qed

text \<open>A new socket: its number is fresh, so the label it gets is new, and its opening is queued last.\<close>

lemma in_order_open:
  assumes "in_order p" and w: "w = next_ws p" and u: "u \<notin> ws_uid (gate p) ` live p"
  shows "in_order (enqueue (OpenTask w) (p\<lparr>gate := (gate p)\<lparr>ws_uid := (ws_uid (gate p))(w := u)\<rparr>,
      live := insert w (live p), next_ws := Suc w, ws_events := ws_events p @ [EvOpen w]\<rparr>))" (is "in_order (enqueue _ ?p)")
proof -
  obtain es where tw: "two_workers (threads p)" and lt: "\<forall>e \<in> set (ws_events p). ws_of e < next_ws p"
    and one: "one_per_user (ws_uid (gate p)) (ws_events p) {}" and live: "live p = live_after (ws_events p) {}"
    and es: "ws_events p = es @ evs (waiting (threads p))" and reg: "registered (ws_uid (gate p)) (live_after es {}) (gate p)"
    using assms(1) by (rule in_orderE)
  let ?f = "(ws_uid (gate p))(w := u)"
  have fresh: "w \<notin> ws_of ` set (ws_events p)" using lt w by auto
  then have nl: "w \<notin> live p" using live_after_subset [of "ws_events p" "{}"] live by auto
  have nes: "w \<notin> live_after es {}" using live_after_subset [of es "{}"] fresh es by auto
  have tw': "two_workers (threads ?p)" using tw by simp
  note enq = two_workers_enqueue [OF tw' _ tw', where t = "OpenTask w"]
  have ou: "one_per_user ?f (ws_events p) {}" using one fresh by (subst one_per_user_cong [where g = "ws_uid (gate p)"]) auto
  have im: "?f w \<notin> ?f ` live p" using u nl by auto
  show ?thesis
  proof (rule in_orderI [OF enq(1)])
    show "\<forall>e \<in> set (ws_events (enqueue (OpenTask w) ?p)). ws_of e < next_ws (enqueue (OpenTask w) ?p)"
      using lt w by auto
    show "one_per_user (ws_uid (gate (enqueue (OpenTask w) ?p))) (ws_events (enqueue (OpenTask w) ?p)) {}"
      using ou im by (simp add: live)
    show "live (enqueue (OpenTask w) ?p) = live_after (ws_events (enqueue (OpenTask w) ?p)) {}" by (simp add: live)
    show "ws_events (enqueue (OpenTask w) ?p) = es @ evs (waiting (threads (enqueue (OpenTask w) ?p)))"
      using enq(2) es by simp
    show "registered (ws_uid (gate (enqueue (OpenTask w) ?p))) (live_after es {}) (gate (enqueue (OpenTask w) ?p))"
      using registered_relabel [OF reg nes, of u] by simp
  qed simp
qed

lemma in_order_close:
  assumes "in_order p" and w: "w \<in> live p"
  shows "in_order (ws_close w p)"
proof -
  let ?p = "p\<lparr>live := live p - {w}, ws_events := ws_events p @ [EvClose w]\<rparr>"
  obtain es where tw: "two_workers (threads p)" and lt: "\<forall>e \<in> set (ws_events p). ws_of e < next_ws p"
    and one: "one_per_user (ws_uid (gate p)) (ws_events p) {}" and live: "live p = live_after (ws_events p) {}"
    and es: "ws_events p = es @ evs (waiting (threads p))" and reg: "registered (ws_uid (gate p)) (live_after es {}) (gate p)"
    using assms(1) by (rule in_orderE)
  have tw': "two_workers (threads ?p)" using tw by simp
  note enq = two_workers_enqueue [OF tw' _ tw', where t = "CloseTask w"]
  have "w < next_ws p" using w live live_after_subset [of "ws_events p" "{}"] lt by auto
  then show ?thesis unfolding ws_close_def
    by (intro in_orderI [OF enq(1), of es]) (use lt one live es reg w enq(2) in auto)
qed

lemma in_order_upgrade:
  assumes "in_order p" and "ws_running i p" and "\<And>u. stoul uid = Inr u \<Longrightarrow> u \<notin> ws_uid (gate p) ` live p"
  shows "RunWsTask \<in> set (finished (threads (ws_upgrade R i uid token p))) \<or> in_order (ws_upgrade R i uid token p)"
proof -
  obtain v g where v: "UpgradeHandle R uid token (gate p) = (v, g)" by fastforce
  note reg = UpgradeHandle_registry [OF v]
  have "in_order (p\<lparr>gate := g\<rparr>)"
    using assms(1) by (rule in_order_cong) (use assms(1) reg in \<open>simp_all add: in_order_def\<close>)
  then have 1: "in_order (enqueue (PublishTask uid) (p\<lparr>gate := g\<rparr>))" by (rule in_order_enqueue) simp_all
  show ?thesis
  proof (cases v)
    case (UpgradeTo u)
    then have "stoul uid = Inr u" using v by (auto simp: UpgradeHandle_def Let_def split: if_splits option.splits sum.splits)
    then have "u \<notin> ws_uid (gate (enqueue (PublishTask uid) (p\<lparr>gate := g\<rparr>))) ` live (enqueue (PublishTask uid) (p\<lparr>gate := g\<rparr>))"
      using assms(3) by (simp add: reg)
    from in_order_open [OF 1 refl this] show ?thesis by (simp add: ws_upgrade_def v UpgradeTo Let_def)
  qed (use assms(1) in \<open>simp_all add: ws_upgrade_def v Let_def worker_done_def\<close>)
qed

lemma in_order_task:
  assumes "in_order p" and i: "i < length (workers (threads p))" "workers (threads p) ! i = Running t"
    and r: "run_gate_task rt R loc t p = Some p'"
  shows "in_order (finish_task i t p')"
proof -
  obtain es where tw: "two_workers (threads p)" and lt: "\<forall>e \<in> set (ws_events p). ws_of e < next_ws p"
    and one: "one_per_user (ws_uid (gate p)) (ws_events p) {}" and live: "live p = live_after (ws_events p) {}"
    and es: "ws_events p = es @ evs (waiting (threads p))" and reg: "registered (ws_uid (gate p)) (live_after es {}) (gate p)"
    using assms(1) by (rule in_orderE)
  have t: "t \<noteq> RunWsTask" using r by auto
  note th = run_gate_task_threads [OF r] and wd = two_workers_done [OF tw i t]
  have keep: "ws_events p' = ws_events p" "next_ws p' = next_ws p" "live p' = live p"
    using r by (cases t; auto simp: run_message_def run_push_def split: option.splits if_splits prod.splits)+
  have "one_per_user (ws_uid (gate p)) (ev_of t) (live_after es {})" using one es wd(2) by simp
  note h = task_registered [OF r reg this]
  show ?thesis
  proof (rule in_orderI [of _ "es @ ev_of t"])
    show "two_workers (threads (finish_task i t p'))" using wd(1) by (simp add: finish_task_def th)
    show "ws_events (finish_task i t p') = (es @ ev_of t) @ evs (waiting (threads (finish_task i t p')))"
      using es wd(2) by (simp add: finish_task_def th keep)
  qed (use lt one live h in \<open>simp_all add: finish_task_def keep\<close>)
qed

lemma in_order_quiet:
  assumes "in_order p" and "threads p' = threads p" and "ws_events p' = ws_events p" and "next_ws p' = next_ws p"
    and "live p' = live p" and "sockets (gate p') = sockets (gate p)" and "ws_uid (gate p') = ws_uid (gate p)"
  shows "in_order p'"
  by (rule in_order_cong [OF assms(1) _ _ assms(3-)]) (use assms(1,2) in \<open>simp_all add: in_order_def\<close>)

lemma in_order_iteration:
  assumes "in_order p"
  shows "in_order (gate_iteration a q n p)"
proof (cases "g_ctx p a")
  case None
  then show ?thesis by (simp add: gate_iteration_def) (rule in_order_quiet [OF assms], simp_all)
next
  case (Some c)
  have "in_order (p\<lparr>g_ctx := f, g_pc := h\<rparr>)" for f h by (rule in_order_quiet [OF assms]) simp_all
  then have "in_order (enqueue (PushTask a) (p\<lparr>g_ctx := f, g_pc := h\<rparr>))" for f h by (rule in_order_enqueue) simp_all
  moreover have "in_order (p\<lparr>g_ctx := f\<rparr>)" for f by (rule in_order_quiet [OF assms]) simp_all
  ultimately show ?thesis using Some by (simp add: gate_iteration_def)
qed

lemma in_order_step:
  assumes "gate_step rt R loc True p p'" and o: "in_order p"
  shows "RunWsTask \<in> set (finished (threads p')) \<or> in_order p'"
  using assms(1)
proof cases
  case (gs_upgrade i uid token)
  then show ?thesis using in_order_upgrade [OF o] by simp
next
  case (gs_close i w)
  then show ?thesis using in_order_close [OF o] by simp
next
  case (gs_take i tp)
  have tw: "two_workers (threads p)" using o by (simp add: in_order_def)
  note t = two_workers_take [OF tw gs_take(2-4)]
  have "in_order p'" unfolding gs_take(1) by (rule in_order_cong [OF o]) (simp_all add: t)
  then show ?thesis ..
next
  case (gs_task i t q)
  then show ?thesis using in_order_task [OF o] by simp
next
  case (gs_reply a u answer)
  have "in_order p'" unfolding gs_reply(1)
    by (rule in_order_quiet [OF o])
      (use gs_reply(2) in \<open>simp_all add: logic_complete_def AsyncRpcComplete_def ws_send_def split: option.split\<close>)
  then show ?thesis ..
next
  case (gs_store r)
  have "in_order p'" unfolding gs_store by (rule in_order_quiet [OF o]) simp_all
  then show ?thesis ..
qed (use in_order_enqueue [OF o] in_order_iteration [OF o] in simp_all)

text \<open>The pool never forgets a finished task.\<close>

lemma gate_step_finished:
  assumes "gate_step rt R loc single p p'" and "t \<in> set (finished (threads p))"
  shows "t \<in> set (finished (threads p'))"
proof -
  have e: "finished (threads (enqueue x q)) = finished (threads q)" for x and q :: "'a gate_proc"
    by (simp add: enqueue_def Enqueue_def)
  from assms(1) show ?thesis
  proof cases
    case (gs_task i s q)
    then show ?thesis using assms(2) run_gate_task_threads [OF gs_task(4)] by (simp add: finish_task_def worker_done_def)
  next
    case (gs_take i tp)
    then show ?thesis using assms(2) by (auto simp: worker_take_def split: if_splits)
  qed (use assms(2) in \<open>auto simp: e ws_upgrade_def ws_close_def gate_iteration_def logic_complete_def worker_done_def Let_def
      split: option.split prod.split upgrade.split\<close>)
qed

lemma gate_start_in_order: "in_order (gate_start 2 r sp)"
proof (rule in_orderI [where es = "[]"])
  show "two_workers (threads (gate_start 2 r sp))"
    by (simp add: gate_start_live ThreadPool_new_def two_workers_def numeral_2_eq_2)
  show "registered (ws_uid (gate (gate_start 2 r sp))) (live_after [] {}) (gate (gate_start 2 r sp))"
    by (simp add: gate_start_live registered_def GetWS_def)
qed (simp_all add: gate_start_live ThreadPool_new_def waiting_def numeral_2_eq_2)

lemma two_workers_order:
  assumes "(gate_step rt R loc True)\<^sup>*\<^sup>* (gate_start 2 r sp) p"
  shows "RunWsTask \<in> set (finished (threads p)) \<or> in_order p"
  using assms
proof (induction rule: rtranclp_induct)
  case (step q p)
  then show ?case using in_order_step [OF step(2)] gate_step_finished [OF step(2)] by blast
qed (simp add: gate_start_in_order)

section \<open>Schedules\<close>

text \<open>An executable scheduler: it fails on a step that is not enabled, so a schedule that runs is a run of the gate.\<close>

datatype gate_action = AUpgrade nat string string | AClose nat nat | ATake nat | ATask nat | AArrive nat PushReq nat

fun do_action :: "pb_rt \<Rightarrow> 'r redis \<Rightarrow> string \<Rightarrow> gate_action \<Rightarrow> 'r gate_proc \<Rightarrow> 'r gate_proc option" where
  "do_action rt R loc (AUpgrade i uid token) p =
     (if ws_running i p \<and> live p = {} then Some (ws_upgrade R i uid token p) else None)"
| "do_action rt R loc (AClose i w) p = (if ws_running i p \<and> w \<in> live p then Some (ws_close w p) else None)"
| "do_action rt R loc (ATake i) p =
     (if i < length (workers (threads p)) \<and> workers (threads p) ! i = Looping
      then map_option (\<lambda>tp. p\<lparr>threads := tp\<rparr>) (worker_take (threads p) i) else None)"
| "do_action rt R loc (ATask i) p =
     (if i < length (workers (threads p)) then
        case workers (threads p) ! i of
          Running t \<Rightarrow> map_option (finish_task i t) (run_gate_task rt R loc t p)
        | _ \<Rightarrow> None
      else None)"
| "do_action rt R loc (AArrive a q n) p =
     (if g_pc p a = GPosted \<and> g_pc p n = GFree then Some (gate_iteration a q n p) else None)"

fun do_actions :: "pb_rt \<Rightarrow> 'r redis \<Rightarrow> string \<Rightarrow> gate_action list \<Rightarrow> 'r gate_proc \<Rightarrow> 'r gate_proc option" where
  "do_actions rt R loc [] p = Some p"
| "do_actions rt R loc (a # as) p =
     (case do_action rt R loc a p of None \<Rightarrow> None | Some p' \<Rightarrow> do_actions rt R loc as p')"

lemma do_action_step: "do_action rt R loc a p = Some p' \<Longrightarrow> gate_step rt R loc single p p'"
proof (cases a)
  case (AUpgrade i uid token)
  assume "do_action rt R loc a p = Some p'"
  then show ?thesis using AUpgrade gs_upgrade [of i p single uid rt R loc token] by (auto split: if_splits)
next
  case (ATask i)
  assume "do_action rt R loc a p = Some p'"
  then show ?thesis using ATask by (auto split: if_splits worker.splits intro: gs_task)
next
  case (ATake i)
  assume "do_action rt R loc a p = Some p'"
  then show ?thesis using ATake by (auto split: if_splits intro: gs_take)
qed (auto split: if_splits intro: gs_close gs_arrive)

lemma do_actions_steps: "do_actions rt R loc as p = Some p' \<Longrightarrow> (gate_step rt R loc single)\<^sup>*\<^sup>* p p'"
proof (induction "as" arbitrary: p)
  case (Cons a "as")
  then obtain q where q: "do_action rt R loc a p = Some q" "do_actions rt R loc as q = Some p'"
    by (auto split: option.splits)
  show ?case using do_action_step [OF q(1)] Cons.IH [OF q(2)] by (rule converse_rtranclp_into_rtranclp)
qed simp

text \<open>A store with a token for user 7, and stubs.\<close>

definition token_store :: mem where
  "token_store = r_setex mem_redis mem_empty ''ychat::user::token::7'' 60 ''T''"

definition stubs4 :: "nat ConnectionPool" where
  "stubs4 = \<lparr>pool = [Some 0, Some 1, Some 2, Some 3], is_stop = False\<rparr>"

text \<open>Socket 0 opens and closes; the worker that runs \<open>CloseHandle\<close> ends first.\<close>

definition reordered :: "gate_action list" where
  "reordered = [ATake 0, AUpgrade 0 ''7'' ''T'', AClose 0 0, ATake 1, ATask 1, ATake 1, ATake 2, ATask 2, ATask 1]"

lemma token_upgrade:
  "ws_uid g = f \<Longrightarrow> store g = token_store \<Longrightarrow> UpgradeHandle mem_redis ''7'' ''T'' g = (UpgradeTo 7, g\<lparr>jobs := jobs g @ [''7'']\<rparr>)"
  by (simp add: UpgradeHandle_def redis_user_token_prefix_def mem.get_setex stoul_def is_space_def is_digit_def
      read_dec_def digit_val_def token_store_def Let_def)

lemma reordered_run:
  "\<exists>p. do_actions rt mem_redis loc reordered (gate_start 3 token_store stubs4) = Some p \<and> GetWS 7 (gate p) = Some 0 \<and>
     live p = {} \<and> tasks (threads p) = [] \<and> workers (threads p) = [Running RunWsTask, Looping, Looping]"
  by (simp add: reordered_def gate_start_live ThreadPool_new_def numeral_3_eq_3 worker_take_def ws_running_def ws_upgrade_def
      token_upgrade enqueue_live ws_close_def worker_done_def finish_task_def OpenHandle_def CloseHandle_def um.get_add GetWS_def
      AddWS_def DelWS_def Let_def)

section \<open>One worker\<close>

text \<open>The only worker has not taken the event loop yet, or runs it.\<close>

definition starved :: "'r gate_proc \<Rightarrow> bool" where
  "starved p \<longleftrightarrow> \<not> stop (threads p) \<and> finished (threads p) = [] \<and> g_finishes p = [] \<and> sockets (gate p) = (\<lambda>u. None) \<and>
     (workers (threads p) = [Looping] \<and> (\<exists>ts. tasks (threads p) = RunWsTask # ts) \<or> workers (threads p) = [Running RunWsTask])"

lemma starved_enqueue: "starved p \<Longrightarrow> starved (enqueue t p)"
  by (auto simp: starved_def enqueue_live)

lemma starved_quiet:
  "starved p \<Longrightarrow> threads p' = threads p \<Longrightarrow> g_finishes p' = g_finishes p \<Longrightarrow> sockets (gate p') = sockets (gate p) \<Longrightarrow> starved p'"
  by (simp add: starved_def)

lemma starved_upgrade:
  assumes "starved p"
  shows "RunWsTask \<in> set (finished (threads (ws_upgrade R i uid token p))) \<or> starved (ws_upgrade R i uid token p)"
proof -
  obtain v g where v: "UpgradeHandle R uid token (gate p) = (v, g)" by fastforce
  have "starved (p\<lparr>gate := g\<rparr>)" using assms by (rule starved_quiet) (simp_all add: UpgradeHandle_registry [OF v])
  then have 1: "starved (enqueue (PublishTask uid) (p\<lparr>gate := g\<rparr>))" by (rule starved_enqueue)
  show ?thesis
  proof (cases v)
    case (UpgradeTo u)
    let ?q = "(enqueue (PublishTask uid) (p\<lparr>gate := g\<rparr>))\<lparr>gate := g\<lparr>ws_uid := (ws_uid g)(next_ws p := u)\<rparr>,
      live := insert (next_ws p) (live p), next_ws := Suc (next_ws p), ws_events := ws_events p @ [EvOpen (next_ws p)]\<rparr>"
    have "starved ?q" by (rule starved_quiet [OF 1]) simp_all
    then show ?thesis using starved_enqueue [of ?q] by (simp add: ws_upgrade_def v UpgradeTo Let_def)
  qed (use assms in \<open>simp_all add: ws_upgrade_def v Let_def worker_done_def\<close>)
qed

lemma starved_step:
  assumes "gate_step rt R loc single p p'" and s: "starved p"
  shows "RunWsTask \<in> set (finished (threads p')) \<or> starved p'"
  using assms(1)
proof cases
  case (gs_upgrade i uid token)
  then show ?thesis using starved_upgrade [OF s] by simp
next
  case (gs_close i w)
  have "starved (p\<lparr>live := live p - {w}, ws_events := ws_events p @ [EvClose w]\<rparr>)" by (rule starved_quiet [OF s]) simp_all
  from starved_enqueue [OF this] show ?thesis using gs_close by (simp add: ws_close_def)
next
  case (gs_take i tp)
  then show ?thesis using s by (auto simp: starved_def worker_take_def)
next
  case (gs_task i t q)
  then show ?thesis using s by (auto simp: starved_def)
next
  case (gs_arrive a n q)
  have "starved (p\<lparr>g_ctx := f, g_pc := h\<rparr>)" "starved (p\<lparr>g_ctx := f\<rparr>)" "starved (p\<lparr>g_crashed := True\<rparr>)" for f h
    by (rule starved_quiet [OF s]; simp)+
  then show ?thesis using gs_arrive by (simp add: gate_iteration_def starved_enqueue split: option.split)
next
  case (gs_done a c q n)
  have "starved (p\<lparr>g_ctx := f\<rparr>)" for f by (rule starved_quiet [OF s]) simp_all
  then show ?thesis using gs_done by (simp add: gate_iteration_def)
next
  case (gs_reply a u answer)
  have "starved p'" unfolding gs_reply(1) by (rule starved_quiet [OF s])
      (use gs_reply(2) in \<open>simp_all add: logic_complete_def AsyncRpcComplete_def ws_send_def split: option.split\<close>)
  then show ?thesis ..
next
  case (gs_store r)
  have "starved p'" unfolding gs_store by (rule starved_quiet [OF s]) simp_all
  then show ?thesis ..
qed (use starved_enqueue [OF s] in simp_all)

lemma one_worker_starved:
  assumes "(gate_step rt R loc single)\<^sup>*\<^sup>* (gate_start 1 r sp) p"
  shows "RunWsTask \<in> set (finished (threads p)) \<or> starved p"
  using assms
proof (induction rule: rtranclp_induct)
  case base
  show ?case by (simp add: gate_start_live starved_def ThreadPool_new_def)
next
  case (step q p)
  then show ?case using starved_step [OF step(2)] gate_step_finished [OF step(2)] by blast
qed

section \<open>Properties\<close>


text \<open>Socket 0 of user 7 is opened and its handler has run.\<close>

definition opened :: "gate_action list" where
  "opened = [ATake 0, AUpgrade 0 ''7'' ''T'', ATake 1, ATask 1, ATake 1, ATask 1]"

lemma opened_run:
  "\<exists>p. do_actions rt mem_redis loc opened (gate_start 2 token_store stubs4) = Some p \<and> live p = {0} \<and> ws_uid (gate p) 0 = 7 \<and>
     tasks (threads p) = [] \<and> workers (threads p) = [Running RunWsTask, Looping] \<and> RunWsTask \<notin> set (finished (threads p))"
  by (simp add: opened_def gate_start_live ThreadPool_new_def numeral_2_eq_2 worker_take_def ws_running_def ws_upgrade_def
      token_upgrade enqueue_live worker_done_def finish_task_def OpenHandle_def AddWS_def Let_def)


text \<open>C31. With three workers the handlers of one socket can overtake each other: there is a run after which nothing
  waits or is being handled, no socket is open, and a closed socket is registered, so that every later push to its user is
  answered \<open>OK\<close> and sent to the closed socket.\<close>

theorem close_overtakes_open:
  "\<exists>p. (gate_step rt mem_redis loc True)\<^sup>*\<^sup>* (gate_start 3 token_store stubs4) p \<and> evs (waiting (threads p)) = [] \<and> live p = {} \<and>
     GetWS 7 (gate p) = Some 0 \<and>
     (\<forall>req. PushReq_to_uid req = 7 \<longrightarrow>
        gate_push rt req (gate p) = (OK, ws_send 0 (PushReq_InternalSerialize rt req) (gate p)))"
proof -
  obtain p where p: "do_actions rt mem_redis loc reordered (gate_start 3 token_store stubs4) = Some p" "GetWS 7 (gate p) = Some 0"
     "live p = {}" "tasks (threads p) = []" "workers (threads p) = [Running RunWsTask, Looping, Looping]"
    using reordered_run by blast
  have "evs (waiting (threads p)) = []" by (simp add: waiting_def p)
  then show ?thesis using do_actions_steps [OF p(1)] p by (intro exI [of _ p]) (simp add: gate_push_def)
qed

theorem close_overtakes_open_witness:
  "\<exists>p. (gate_step wire_rt mem_redis ''g:1'' True)\<^sup>*\<^sup>* (gate_start 3 token_store stubs4) p \<and> live p = {} \<and> GetWS 7 (gate p) = Some 0"
  using close_overtakes_open [of wire_rt "''g:1''"] by blast

text \<open>C32. With one worker the gate is dead: as long as its event loop runs, no task has ended, no socket is
  registered and no push has been answered, however many upgrades and pushes arrive.\<close>

theorem one_worker_gate_dead:
  assumes "(gate_step rt R loc single)\<^sup>*\<^sup>* (gate_start 1 r sp) p" and "RunWsTask \<notin> set (finished (threads p))"
  shows "finished (threads p) = [] \<and> (\<forall>u. GetWS u (gate p) = None) \<and> answers (gate_abs p) = []"
  using one_worker_starved [OF assms(1)] assms(2) by (auto simp: starved_def GetWS_def gate_abs_def abs_of_def)

definition one_push :: "gate_action list" where
  "one_push = [ATake 0, AArrive 0 ex_push 1]"

theorem one_worker_gate_dead_witness:
  "\<exists>p. do_actions wire_rt mem_redis ''g:1'' one_push (gate_start 1 token_store stubs4) = Some p \<and>
     tasks (threads p) = [PushTask 0] \<and> answers (gate_abs p) = []"
proof -
  obtain p where p: "do_actions wire_rt mem_redis ''g:1'' one_push (gate_start 1 token_store stubs4) = Some p"
    "tasks (threads p) = [PushTask 0]" "finished (threads p) = []"
    by (simp add: one_push_def gate_start_live ThreadPool_new_def worker_take_def gate_iteration_def gate_context_new_def enqueue_live)
  with one_worker_gate_dead [OF do_actions_steps [OF p(1)]] show ?thesis by simp
qed

end
