(* ===== verification/Route.thy ===== *)
theory Route
  imports TokenVerify Gate
begin

text \<open>
  The route service, \<open>route/route_service_impl.cc\<close>. The \<open>shared_ptr<MsgServer>\<close> objects of the two maps are
  shared, so they live at addresses of \<open>servers\<close>. \<open>observed_to\<close> is the unordered map from observed address to
  server in its iteration order, which the standard leaves open; new keys are appended. Dereferencing
  \<open>end()\<close> is the outcome \<open>RouteUB\<close>.
\<close>

section \<open>Definitions\<close>

record MsgServer =
  reported :: string
  observed :: string
  users :: "uid set"
  load :: uint64

definition MsgServer_new :: MsgServer where
  "MsgServer_new = \<lparr>reported = [], observed = [], users = {}, load = 0\<rparr>"

record 'r route_state =
  servers :: "nat \<Rightarrow> MsgServer"
  next_server :: nat
  uid_to :: "uid \<Rightarrow> nat option"
  observed_to :: "(string \<times> nat) list"
  verifier :: TokenVerifier
  route_store :: 'r

text \<open>\<open>find_last_of(':')\<close> with \<open>npos\<close> as \<open>None\<close>.\<close>

fun find_last_of :: "char \<Rightarrow> string \<Rightarrow> nat option" where
  "find_last_of c [] = None"
| "find_last_of c (a # s) =
     (case find_last_of c s of Some i \<Rightarrow> Some (Suc i) | None \<Rightarrow> if a = c then Some 0 else None)"

definition TryGetHostPort :: "string \<Rightarrow> (string \<times> string) option" where
  "TryGetHostPort location =
     (case find_last_of (CHR '':'') location of
        None \<Rightarrow> None
      | Some pos \<Rightarrow> if pos = 0 then None else Some (take pos location, drop (pos + 1) location))"

datatype observed_result = ObservedThrow | ObservedNone | ObservedAt string

text \<open>\<open>peer.substr(5)\<close> throws on a shorter peer string.\<close>

definition GetObserved :: "string \<Rightarrow> string \<Rightarrow> observed_result" where
  "GetObserved peer rep =
     (case TryGetHostPort rep of
        None \<Rightarrow> ObservedNone
      | Some r \<Rightarrow>
          if length peer < 5 then ObservedThrow
          else case TryGetHostPort (drop 5 peer) of
            None \<Rightarrow> ObservedNone
          | Some p \<Rightarrow> if fst r \<noteq> fst p then ObservedNone else ObservedAt (fst p @ fst r))"

definition characters :: string where
  "characters = ''0123456789ABCDEFGHIJKLMNOPQRSTUVWXYZabcdefghijklmnopqrstuvwxyz''"

definition GenerateRandomToken :: "(nat \<Rightarrow> nat) \<Rightarrow> nat \<Rightarrow> string" where
  "GenerateRandomToken distribution len = map (\<lambda>i. characters ! distribution i) [0..<len]"

text \<open>\<open>m[k] = v\<close> on the map kept as a list.\<close>

fun assoc_set :: "string \<Rightarrow> nat \<Rightarrow> (string \<times> nat) list \<Rightarrow> (string \<times> nat) list" where
  "assoc_set k v [] = [(k, v)]"
| "assoc_set k v ((k', v') # m) = (if k' = k then (k, v) # m else (k', v') # assoc_set k v m)"

definition add_server :: "string \<Rightarrow> 'r route_state \<Rightarrow> 'r route_state" where
  "add_server location st =
     st\<lparr>servers := (servers st)(next_server st := MsgServer_new\<lparr>reported := location, observed := location\<rparr>),
        observed_to := assoc_set location (next_server st) (observed_to st),
        next_server := Suc (next_server st)\<rparr>"

definition RouteServiceImpl :: "string \<Rightarrow> string \<Rightarrow> 'r \<Rightarrow> exit_code + 'r route_state" where
  "RouteServiceImpl msg_server_token msg_gate_servers r =
     (case MakeTokenVerifier msg_server_token of
        Inl e \<Rightarrow> Inl e
      | Inr v \<Rightarrow>
          (case Split_char msg_gate_servers (CHR ''|'') False of
             Inl e \<Rightarrow> Inl e
           | Inr locations \<Rightarrow>
               Inr (fold add_server locations
                 \<lparr>servers = (\<lambda>a. MsgServer_new), next_server = 0, uid_to = (\<lambda>u. None), observed_to = [],
                  verifier = v, route_store = r\<rparr>)))"

definition Login :: "'r route_state \<Rightarrow> uid \<Rightarrow> string \<Rightarrow> status \<times> 'r route_state" where
  "Login st uid token = (OK, st)"

text \<open>The loop of \<open>DispatchMsgServer\<close>: the minimum so far and the server that has it.\<close>

definition pick_server :: "'r route_state \<Rightarrow> uint64 \<times> nat option" where
  "pick_server st =
     fold (\<lambda>(k, a) (min_load, target).
             if load (servers st a) < min_load then (load (servers st a), Some a) else (min_load, target))
       (observed_to st) (- 1, None)"

definition DispatchMsgServer ::
  "'r redis \<Rightarrow> (nat \<Rightarrow> nat) \<Rightarrow> uid \<Rightarrow> 'r route_state \<Rightarrow> status \<times> (string \<times> string) option \<times> 'r route_state" where
  "DispatchMsgServer R distribution uid st =
     (case snd (pick_server st) of
        Some target \<Rightarrow>
          let token = GenerateRandomToken distribution 32 in
          (OK, Some (observed (servers st target), token),
           st\<lparr>route_store := r_setex R (route_store st) (redis_user_token_prefix @ fmt_u64 uid) 60 token\<rparr>)
      | None \<Rightarrow> (NOT_FOUND, None, st))"

datatype 'a route_result = RouteUB | RouteRet 'a

text \<open>\<open>observed\<close> is the empty string on every path of \<open>MsgServerHeartBeat\<close>; \<open>iter\<close> is looked up before the
  insertion of a missing node.\<close>

definition MsgServerHeartBeat :: "uid list \<Rightarrow> 'r route_state \<Rightarrow> (status \<times> 'r route_state) route_result" where
  "MsgServerHeartBeat uids st =
     (let obs = [];
          iter = map_of (observed_to st) obs;
          st1 = (case iter of
                   None \<Rightarrow> st\<lparr>servers := (servers st)(next_server st := MsgServer_new),
                              observed_to := assoc_set obs (next_server st) (observed_to st),
                              next_server := Suc (next_server st)\<rparr>
                 | Some a \<Rightarrow> st)
      in if iter = None \<and> uids \<noteq> [] then RouteUB
         else let st2 = st1\<lparr>uid_to := fold (\<lambda>u m. m(u := iter)) uids (uid_to st1)\<rparr> in
           case map_of (observed_to st2) obs of
             None \<Rightarrow> RouteUB
           | Some a \<Rightarrow> RouteRet (OK, st2\<lparr>servers := (servers st2)(a := (servers st2 a)\<lparr>users := set uids\<rparr>)\<rparr>))"

definition GetMsgServer :: "uid \<Rightarrow> 'r route_state \<Rightarrow> status \<times> string list" where
  "GetMsgServer uid st =
     (case uid_to st uid of
        Some a \<Rightarrow> (OK, [observed (servers st a)])
      | None \<Rightarrow> (OK, map fst (observed_to st)))"

text \<open>The calls the service answers.\<close>

inductive route_call :: "'r redis \<Rightarrow> 'r route_state \<Rightarrow> 'r route_state \<Rightarrow> bool" for R where
  rc_login: "Login st u t = (s, st') \<Longrightarrow> route_call R st st'"
| rc_dispatch: "DispatchMsgServer R d u st = (s, ans, st') \<Longrightarrow> route_call R st st'"
| rc_heartbeat: "MsgServerHeartBeat uids st = RouteRet (s, st') \<Longrightarrow> route_call R st st'"

section \<open>Lemmas\<close>

lemma find_last_of_Some:
  "find_last_of c s = Some i \<longleftrightarrow> i < length s \<and> s ! i = c \<and> c \<notin> set (drop (Suc i) s)"
proof (induction s arbitrary: i)
  case (Cons a s)
  show ?case
  proof (cases i)
    case 0
    have "find_last_of c s = None \<longleftrightarrow> c \<notin> set s"
    proof
      assume "find_last_of c s = None"
      then have no: "\<not> (i < length s \<and> s ! i = c \<and> c \<notin> set (drop (Suc i) s))" for i using Cons.IH by simp
      show "c \<notin> set s"
      proof
        assume "c \<in> set s"
        then obtain ys zs where "s = ys @ c # zs" "c \<notin> set zs" by (meson split_list_last)
        then show False using no [of "length ys"] by simp
      qed
    next
      assume "c \<notin> set s"
      then show "find_last_of c s = None" using Cons.IH by (metis nth_mem option.exhaust)
    qed
    then show ?thesis using 0 by (auto split: option.splits)
  next
    case (Suc j)
    then show ?thesis using Cons.IH [of j] by (auto split: option.splits)
  qed
qed simp

lemma fold_pick:
  fixes f :: "nat \<Rightarrow> uint64"
  assumes "fold (\<lambda>(k, a) (m, t). if f a < m then (f a, Some a) else (m, t)) xs (m0, t0) = (m, t)"
  shows "(t = t0 \<and> m = m0 \<or> (\<exists>a \<in> snd ` set xs. t = Some a \<and> m = f a)) \<and> m \<le> m0 \<and> (\<forall>a \<in> snd ` set xs. m \<le> f a)"
  using assms
proof (induction xs arbitrary: m0 t0)
  case (Cons x xs)
  obtain k a where x: "x = (k, a)" by (cases x)
  show ?case
  proof (cases "f a < m0")
    case True
    then show ?thesis using Cons.IH [of "f a" "Some a"] Cons.prems x by auto
  next
    case False
    then show ?thesis using Cons.IH [of m0 t0] Cons.prems x by (auto dest: leI)
  qed
qed simp

lemma assoc_set_keys: "fst ` set (assoc_set k v m) = insert k (fst ` set m)"
  by (induction k v m rule: assoc_set.induct) auto

lemma assoc_set_entries: "x \<in> set (assoc_set k v m) \<Longrightarrow> x = (k, v) \<or> x \<in> set m"
  by (induction k v m rule: assoc_set.induct) (auto split: if_splits)

lemma assoc_set_map_of: "map_of (assoc_set k v m) k' = (if k' = k then Some v else map_of m k')"
  by (induction k v m rule: assoc_set.induct) auto

text \<open>Every entry of the map leads to a server that was observed under the entry's key.\<close>

definition route_inv :: "'r route_state \<Rightarrow> bool" where
  "route_inv st \<longleftrightarrow> (\<forall>(k, a) \<in> set (observed_to st). a < next_server st \<and> observed (servers st a) = k)"

lemma add_server_inv: "route_inv st \<Longrightarrow> route_inv (add_server k st)"
  by (fastforce simp: route_inv_def add_server_def dest!: assoc_set_entries)

lemma fold_add_server:
  "route_inv st \<Longrightarrow> route_inv (fold add_server ks st) \<and>
     fst ` set (observed_to (fold add_server ks st)) = set ks \<union> fst ` set (observed_to st)"
proof (induction ks arbitrary: st)
  case (Cons k ks)
  then show ?case using add_server_inv [of st k] Cons.IH [of "add_server k st"]
    by (simp add: add_server_def assoc_set_keys)
qed simp

lemma RouteServiceImpl_inv:
  assumes "RouteServiceImpl tok gates r = Inr st"
  shows "route_inv st \<and> fst ` set (observed_to st) = {l. field_of (CHR ''|'') gates l \<and> l \<noteq> []}"
proof -
  obtain v ls where ls: "Split_char gates (CHR ''|'') False = Inr ls"
    and st: "st = fold add_server ls \<lparr>servers = (\<lambda>a. MsgServer_new), next_server = 0, uid_to = (\<lambda>u. None),
        observed_to = [], verifier = v, route_store = r\<rparr>"
    using assms by (auto simp: RouteServiceImpl_def split: sum.splits)
  have "set ls = {l. field_of (CHR ''|'') gates l \<and> l \<noteq> []}"
  proof (cases "gates = []")
    case True
    then show ?thesis using ls field_of_free [of "CHR ''|''" "[]"] by (auto simp: Split_char_def Split_def)
  next
    case False
    then show ?thesis using ls by (auto simp: Split_char_def Split_def split_loop_filter split_loop_fields)
  qed
  then show ?thesis unfolding st by (subst fold_add_server) (simp_all add: route_inv_def fold_add_server)
qed

section \<open>Properties\<close>

text \<open>C18. Dispatch answers with a registered server of least load and a 32-character token that it stores
  for the user for 60 seconds; it answers \<open>NOT_FOUND\<close>, changing nothing, only when every server has the
  largest load value or there is none.\<close>

theorem dispatch_least_loaded:
  "case DispatchMsgServer R d uid st of
     (OK, Some (location, token), st') \<Rightarrow>
       (\<exists>a \<in> snd ` set (observed_to st). location = observed (servers st a) \<and>
          (\<forall>b \<in> snd ` set (observed_to st). load (servers st a) \<le> load (servers st b))) \<and>
       length token = 32 \<and>
       st' = st\<lparr>route_store := r_setex R (route_store st) (redis_user_token_prefix @ fmt_u64 uid) 60 token\<rparr>
   | (s, answer, st') \<Rightarrow> s = NOT_FOUND \<and> answer = None \<and> st' = st \<and>
       (\<forall>b \<in> snd ` set (observed_to st). load (servers st b) = - 1)"
proof -
  obtain m t where p: "pick_server st = (m, t)" by fastforce
  note F = fold_pick [of "\<lambda>a. load (servers st a)" "observed_to st" "- 1" None m t, OF p [unfolded pick_server_def]]
  show ?thesis
  proof (cases t)
    case None
    then have "m = - 1" using F by auto
    then have "\<forall>b \<in> snd ` set (observed_to st). load (servers st b) = - 1"
      using F by (simp add: word_order.extremum_unique)
    then show ?thesis using None by (simp add: DispatchMsgServer_def p)
  next
    case (Some a)
    then show ?thesis using F by (simp add: DispatchMsgServer_def p Let_def GenerateRandomToken_def) blast
  qed
qed

definition ex_route :: "mem route_state" where
  "ex_route = \<lparr>servers = (\<lambda>a. MsgServer_new\<lparr>observed := (if a = 0 then ''a:1'' else ''b:2''), load := (if a = 0 then 5 else 2)\<rparr>),
     next_server = 2, uid_to = (\<lambda>u. None), observed_to = [(''a:1'', 0), (''b:2'', 1)],
     verifier = \<lparr>recognized_tokens = {}\<rparr>, route_store = mem_empty\<rparr>"

theorem dispatch_least_loaded_witness:
  "\<exists>token st'. DispatchMsgServer mem_redis (\<lambda>i. 0) 7 ex_route = (OK, Some (''b:2'', token), st') \<and> length token = 32"
  using dispatch_least_loaded [where R = mem_redis and d = "\<lambda>i. 0" and uid = 7 and st = ex_route]
  by (simp add: DispatchMsgServer_def pick_server_def ex_route_def Let_def)

lemma route_example: "\<exists>st. RouteServiceImpl ''k'' ''a:1|b:2'' mem_empty = Inr st"
  by (simp add: RouteServiceImpl_def MakeTokenVerifier_def Split_char_def Split_def)

text \<open>The service starts exactly when its token list is not empty, and then knows exactly the non-empty
  fields of the configured server list, each under its own address.\<close>

theorem route_starts:
  "case RouteServiceImpl tok gates r of
     Inl e \<Rightarrow> tok = []
   | Inr st \<Rightarrow> tok \<noteq> [] \<and> fst ` set (observed_to st) = {l. field_of (CHR ''|'') gates l \<and> l \<noteq> []} \<and>
       (\<forall>(k, a) \<in> set (observed_to st). observed (servers st a) = k)"
proof (cases "RouteServiceImpl tok gates r")
  case (Inl e)
  then show ?thesis
    by (auto simp: RouteServiceImpl_def MakeTokenVerifier_def Split_char_def Split_def split: sum.splits if_splits)
next
  case (Inr st)
  then have "tok \<noteq> []" by (auto simp: RouteServiceImpl_def MakeTokenVerifier_def)
  then show ?thesis using RouteServiceImpl_inv [OF Inr] Inr by (auto simp: route_inv_def)
qed

theorem route_starts_witness:
  "\<exists>st. RouteServiceImpl ''k'' ''a:1|b:2'' mem_empty = Inr st \<and>
     fst ` set (observed_to st) = {l. field_of (CHR ''|'') ''a:1|b:2'' l \<and> l \<noteq> []}"
proof -
  obtain st where st: "RouteServiceImpl ''k'' ''a:1|b:2'' mem_empty = Inr st" using route_example by blast
  from route_starts [of "''k''" "''a:1|b:2''" mem_empty] st show ?thesis by auto
qed



text \<open>A location splits into host and port at its last colon, exactly when the host is not empty; the
  observed address built from a reported address and a matching peer is the host written twice.\<close>

theorem host_port_spec:
  "(TryGetHostPort location = Some (host, port) \<longleftrightarrow>
      location = host @ '':'' @ port \<and> host \<noteq> [] \<and> CHR '':'' \<notin> set port) \<and>
   (GetObserved peer location = ObservedAt r \<longrightarrow>
      (\<exists>h p q. location = h @ '':'' @ p \<and> drop 5 peer = h @ '':'' @ q \<and> r = h @ h))"
proof -
  have split: "TryGetHostPort l = Some (h, p) \<longleftrightarrow> l = h @ '':'' @ p \<and> h \<noteq> [] \<and> CHR '':'' \<notin> set p" for l h p
  proof
    assume "TryGetHostPort l = Some (h, p)"
    then obtain i where i: "find_last_of (CHR '':'') l = Some i" "i \<noteq> 0" "h = take i l" "p = drop (Suc i) l"
      by (auto simp: TryGetHostPort_def split: option.splits if_splits)
    then show "l = h @ '':'' @ p \<and> h \<noteq> [] \<and> CHR '':'' \<notin> set p"
      using id_take_nth_drop [of i l] by (auto simp: find_last_of_Some)
  next
    assume l: "l = h @ '':'' @ p \<and> h \<noteq> [] \<and> CHR '':'' \<notin> set p"
    then have "find_last_of (CHR '':'') l = Some (length h)" by (simp add: find_last_of_Some nth_append)
    then show "TryGetHostPort l = Some (h, p)" using l by (simp add: TryGetHostPort_def)
  qed
  show ?thesis using split by (auto simp: GetObserved_def split: option.splits if_splits)
qed

theorem host_port_spec_witness:
  "GetObserved ''ipv4:10.0.0.1:555'' ''10.0.0.1:80'' = ObservedAt ''10.0.0.110.0.0.1'' \<and>
   (\<exists>h p q. ''10.0.0.1:80'' = h @ '':'' @ p \<and> drop 5 ''ipv4:10.0.0.1:555'' = h @ '':'' @ q \<and> ''10.0.0.110.0.0.1'' = h @ h)"
proof -
  have "GetObserved ''ipv4:10.0.0.1:555'' ''10.0.0.1:80'' = ObservedAt ''10.0.0.110.0.0.1''"
    by (simp add: GetObserved_def TryGetHostPort_def)
  then show ?thesis using host_port_spec by blast
qed

lemma MsgServer_new_load [simp]: "load MsgServer_new = 0"
  by (simp add: MsgServer_new_def)

lemma heartbeat_loads:
  assumes "MsgServerHeartBeat uids st = RouteRet (s, st')" and "\<forall>a. load (servers st a) = 0"
  shows "\<forall>a. load (servers st' a) = 0"
  using assms by (auto simp: MsgServerHeartBeat_def Let_def split: if_splits option.splits)

lemma route_call_loads: "route_call R st st' \<Longrightarrow> \<forall>a. load (servers st a) = 0 \<Longrightarrow> \<forall>a. load (servers st' a) = 0"
proof (induction rule: route_call.induct)
  case (rc_heartbeat uids st s st')
  from heartbeat_loads [OF rc_heartbeat] show ?case .
qed (auto simp: Login_def DispatchMsgServer_def Let_def split: option.splits)

lemma RouteServiceImpl_loads:
  assumes "RouteServiceImpl tok gates r = Inr st"
  shows "\<forall>a. load (servers st a) = 0"
proof -
  have "\<forall>a. load (servers (fold add_server ls s) a) = 0" if "\<forall>a. load (servers s a) = 0" for ls and s :: "'a route_state"
    using that by (induction ls arbitrary: s) (simp_all add: add_server_def)
  then show ?thesis using assms by (auto simp: RouteServiceImpl_def split: sum.splits)
qed

lemma fold_pick_none: "\<forall>x \<in> set xs. \<not> f (snd x) < m \<Longrightarrow>
    fold (\<lambda>(k, a) (min_load, target). if f a < min_load then (f a, Some a) else (min_load, target)) xs (m, t) = (m, t)"
  by (induction xs) auto

text \<open>The load of a server is never written: after any calls to a service as constructed every load is 0, so dispatch
  sends every user to the first server in iteration order, however many users it reports.\<close>

theorem dispatch_ignores_load:
  assumes "RouteServiceImpl tok gates r = Inr st0" and "(route_call R)\<^sup>*\<^sup>* st0 st" and "observed_to st = (k, a) # rest"
  shows "\<exists>token st'. DispatchMsgServer R d u st = (OK, Some (observed (servers st a), token), st')"
proof -
  have 0: "\<forall>b. load (servers st b) = 0"
    using assms(2) RouteServiceImpl_loads [OF assms(1)] by (induction rule: rtranclp_induct) (blast dest: route_call_loads)+
  have "pick_server st = (0, Some a)"
    using fold_pick_none [of rest "\<lambda>b. load (servers st b)" 0 "Some a"] 0 by (simp add: pick_server_def assms(3) word_gt_0)
  then show ?thesis by (simp add: DispatchMsgServer_def Let_def)
qed

theorem dispatch_ignores_load_witness:
  "\<exists>st st' a token st''. RouteServiceImpl ''k'' ''a:1|b:2'' mem_empty = Inr st \<and>
     MsgServerHeartBeat [] st = RouteRet (OK, st') \<and> observed_to st' = [(''a:1'', 0), (''b:2'', 1), ([], 2)] \<and>
     DispatchMsgServer mem_redis (\<lambda>i. 0) 7 st' = (OK, Some (observed (servers st' 0), token), st'')"
proof -
  obtain st where st: "RouteServiceImpl ''k'' ''a:1|b:2'' mem_empty = Inr st" using route_example by blast
  have p: "split_loop (CHR ''|'') [] False ''a:1|b:2'' = [''a:1'', ''b:2'']" by code_simp
  have o: "observed_to st = [(''a:1'', 0), (''b:2'', 1)]" "next_server st = 2"
    using st by (auto simp: RouteServiceImpl_def MakeTokenVerifier_def Split_char_def Split_def add_server_def p)
  then obtain st' where hb: "MsgServerHeartBeat [] st = RouteRet (OK, st')"
    and o': "observed_to st' = [(''a:1'', 0), (''b:2'', 1), ([], 2)]"
    by (auto simp: MsgServerHeartBeat_def Let_def)
  have call: "(route_call mem_redis)\<^sup>*\<^sup>* st st'" using rc_heartbeat [OF hb] by blast
  from dispatch_ignores_load [OF st call o', of "\<lambda>i. 0" 7] st hb o' show ?thesis by blast
qed

end
