(* ===== verification/Varify.thy ===== *)
theory Varify
  imports Gate
begin

text \<open>
  The mail verification service: \<open>varify/redis_pool.cpp\<close>, \<open>varify/smtp.cc\<close> and
  \<open>varify/varify_service_impl.cc\<close>. Both pools are \<open>ConnectionPool\<close>s; a call that waits for a connection is
  the outcome \<open>Blocked\<close>, and \<open>exit(1)\<close> is \<open>Exited1\<close>. What the mail server answers to each attempt, whether a new
  session can be made, and the drawn code are arguments. The pools are not stopped while the service runs, so
  the null pointer a stopped pool would return (\<open>NullSession\<close>) does not arise from \<open>varify_live\<close> states.
\<close>

section \<open>Definitions\<close>

record 'r varify_state =
  smtp_pool :: "nat ConnectionPool"
  redis_clients :: "nat ConnectionPool"
  vstore :: 'r
  mails :: "(string \<times> string) list"

datatype 'a vres = Blocked | Exited1 | NullSession | Ret 'a

definition key_prefix :: string where
  "key_prefix = ''ychat::email::''"

definition GenKey :: "string \<Rightarrow> string" where
  "GenKey key = key_prefix @ key"

definition TryGetKey :: "'r redis \<Rightarrow> string \<Rightarrow> 'r varify_state \<Rightarrow> (string option \<times> 'r varify_state) vres" where
  "TryGetKey R key st =
     (case Acquire (redis_clients st) of
        None \<Rightarrow> Blocked
      | Some (None, p) \<Rightarrow> NullSession
      | Some (Some client, p) \<Rightarrow>
          let result = r_get R (vstore st) (GenKey key) in
          Ret (result, st\<lparr>redis_clients := Release p (Some client)\<rparr>))"

definition SetEx :: "'r redis \<Rightarrow> string \<Rightarrow> string \<Rightarrow> nat \<Rightarrow> 'r varify_state \<Rightarrow> (bool \<times> 'r varify_state) vres" where
  "SetEx R key value seconds st =
     (case Acquire (redis_clients st) of
        None \<Rightarrow> Blocked
      | Some (None, p) \<Rightarrow> NullSession
      | Some (Some client, p) \<Rightarrow>
          Ret (True, st\<lparr>vstore := r_setex R (vstore st) (GenKey key) seconds value,
                        redis_clients := Release p (Some client)\<rparr>))"

datatype attempt = Delivered | SMTPException | OtherException

datatype loop_result = LoopSent nat | LoopFailed | LoopExit

text \<open>The retry loop of \<open>Send\<close> from attempt \<open>i\<close> on: \<open>att i\<close> is the outcome of \<open>sendMessage\<close>, \<open>mk i\<close> the session
  \<open>CreateConnection\<close> makes then, \<open>None\<close> when it exits.\<close>

fun send_loop :: "(nat \<Rightarrow> attempt) \<Rightarrow> (nat \<Rightarrow> nat option) \<Rightarrow> nat \<Rightarrow> nat \<Rightarrow> nat \<Rightarrow> loop_result" where
  "send_loop att mk 0 i session = LoopFailed"
| "send_loop att mk (Suc n) i session =
     (case att i of
        Delivered \<Rightarrow> LoopSent session
      | SMTPException \<Rightarrow> (case mk i of None \<Rightarrow> LoopExit | Some session' \<Rightarrow> send_loop att mk n (Suc i) session')
      | OtherException \<Rightarrow> send_loop att mk n (Suc i) session)"

definition Send :: "(nat \<Rightarrow> attempt) \<Rightarrow> (nat \<Rightarrow> nat option) \<Rightarrow> string \<Rightarrow> string \<Rightarrow> 'r varify_state \<Rightarrow>
    (bool \<times> 'r varify_state) vres" where
  "Send att mk recipient content st =
     (case Acquire (smtp_pool st) of
        None \<Rightarrow> Blocked
      | Some (None, p) \<Rightarrow> NullSession
      | Some (Some session, p) \<Rightarrow>
          (case send_loop att mk 3 0 session of
             LoopSent session' \<Rightarrow> Ret (True, st\<lparr>smtp_pool := Release p (Some session'),
                                               mails := mails st @ [(recipient, content)]\<rparr>)
           | LoopFailed \<Rightarrow> Ret (False, st\<lparr>smtp_pool := p\<rparr>)
           | LoopExit \<Rightarrow> Exited1))"

text \<open>The pools as their constructors fill them. A mail session that cannot be opened or logged in exits, a Redis client that
  cannot be pinged throws: \<open>None\<close>.\<close>

definition SmtpPoll_new :: "(nat \<Rightarrow> bool) \<Rightarrow> nat \<Rightarrow> nat ConnectionPool option" where
  "SmtpPoll_new login max_smtp_seesions = fill_pool login max_smtp_seesions"

definition RedisPool_new :: "(nat \<Rightarrow> bool) \<Rightarrow> nat \<Rightarrow> nat ConnectionPool option" where
  "RedisPool_new ping max_redis_clients = fill_pool ping max_redis_clients"

text \<open>\<open>GenVarifyCode\<close> for a drawn number.\<close>

definition GenVarifyCode :: "nat \<Rightarrow> string" where
  "GenVarifyCode drawn = dec drawn"

definition GetVarifyCode :: "'r redis \<Rightarrow> (nat \<Rightarrow> attempt) \<Rightarrow> (nat \<Rightarrow> nat option) \<Rightarrow> nat \<Rightarrow> string \<Rightarrow> bool \<Rightarrow> 'r varify_state \<Rightarrow>
    (status \<times> string option \<times> 'r varify_state) vres" where
  "GetVarifyCode R att mk drawn email if_send st =
     (case TryGetKey R email st of
        Blocked \<Rightarrow> Blocked | Exited1 \<Rightarrow> Exited1 | NullSession \<Rightarrow> NullSession
      | Ret (Some value, st1) \<Rightarrow> Ret (OK, Some value, st1)
      | Ret (None, st1) \<Rightarrow>
          if \<not> if_send then Ret (NOT_FOUND, None, st1)
          else let code = GenVarifyCode drawn in
            case Send att mk email code st1 of
              Blocked \<Rightarrow> Blocked | Exited1 \<Rightarrow> Exited1 | NullSession \<Rightarrow> NullSession
            | Ret (False, st2) \<Rightarrow> Ret (INTERNAL, None, st2)
            | Ret (True, st2) \<Rightarrow>
                (case SetEx R email code 180 st2 of
                   Blocked \<Rightarrow> Blocked | Exited1 \<Rightarrow> Exited1 | NullSession \<Rightarrow> NullSession
                 | Ret (ok, st3) \<Rightarrow> Ret (OK, Some code, st3)))"

section \<open>Lemmas\<close>

definition varify_live :: "'r varify_state \<Rightarrow> bool" where
  "varify_live st \<longleftrightarrow> pool_live (smtp_pool st) \<and> pool_live (redis_clients st) \<and> pool (redis_clients st) \<noteq> []"

lemma TryGetKey_live:
  assumes "varify_live st"
  shows "\<exists>p. TryGetKey R key st = Ret (r_get R (vstore st) (GenKey key), st\<lparr>redis_clients := p\<rparr>) \<and>
    pool_live p \<and> length (pool p) = length (pool (redis_clients st))"
proof -
  from assms have "pool_live (redis_clients st)" "pool (redis_clients st) \<noteq> []" by (auto simp: varify_live_def)
  with pool_live_Acquire obtain c cs where c: "pool (redis_clients st) = Some c # cs"
    "Acquire (redis_clients st) = Some (Some c, (redis_clients st)\<lparr>pool := cs\<rparr>)"
    "pool_live ((redis_clients st)\<lparr>pool := cs\<rparr>)" by blast
  then show ?thesis using pool_live_Release [OF c(3), of c]
    by (intro exI [of _ "Release ((redis_clients st)\<lparr>pool := cs\<rparr>) (Some c)"])
      (simp add: TryGetKey_def Let_def Release_def)
qed

lemma SetEx_live:
  assumes "varify_live st"
  shows "\<exists>p. SetEx R key v t st = Ret (True, st\<lparr>vstore := r_setex R (vstore st) (GenKey key) t v, redis_clients := p\<rparr>) \<and>
    pool_live p \<and> length (pool p) = length (pool (redis_clients st))"
proof -
  from assms have "pool_live (redis_clients st)" "pool (redis_clients st) \<noteq> []" by (auto simp: varify_live_def)
  with pool_live_Acquire obtain c cs where c: "pool (redis_clients st) = Some c # cs"
    "Acquire (redis_clients st) = Some (Some c, (redis_clients st)\<lparr>pool := cs\<rparr>)"
    "pool_live ((redis_clients st)\<lparr>pool := cs\<rparr>)" by blast
  then show ?thesis using pool_live_Release [OF c(3), of c]
    by (intro exI [of _ "Release ((redis_clients st)\<lparr>pool := cs\<rparr>) (Some c)"]) (simp add: SetEx_def Release_def)
qed

lemma Send_live:
  assumes "varify_live st"
  shows "case Send att mk rcpt txt st of
      Blocked \<Rightarrow> pool (smtp_pool st) = []
    | Exited1 \<Rightarrow> True
    | NullSession \<Rightarrow> False
    | Ret (ok, st') \<Rightarrow> pool_live (smtp_pool st') \<and>
        length (pool (smtp_pool st)) = length (pool (smtp_pool st')) + (if ok then 0 else 1) \<and>
        redis_clients st' = redis_clients st \<and> vstore st' = vstore st \<and>
        mails st' = mails st @ (if ok then [(rcpt, txt)] else [])"
proof -
  from assms have "pool_live (smtp_pool st)" by (auto simp: varify_live_def)
  from pool_live_Acquire [OF this] show ?thesis
  proof
    assume "pool (smtp_pool st) = [] \<and> Acquire (smtp_pool st) = None"
    then show ?thesis by (simp add: Send_def)
  next
    assume "\<exists>c cs. pool (smtp_pool st) = Some c # cs \<and>
        Acquire (smtp_pool st) = Some (Some c, (smtp_pool st)\<lparr>pool := cs\<rparr>) \<and> pool_live ((smtp_pool st)\<lparr>pool := cs\<rparr>)"
    then show ?thesis by (auto simp: Send_def pool_live_Release Release_def pool_live_def split: loop_result.split)
  qed
qed

section \<open>Properties\<close>

definition varify0 :: "mem varify_state" where
  "varify0 = \<lparr>smtp_pool = the (SmtpPoll_new (\<lambda>i. True) 4), redis_clients = the (RedisPool_new (\<lambda>i. True) 4), vstore = mem_empty, mails = []\<rparr>"

lemma new_pools:
  "the (SmtpPoll_new (\<lambda>i. True) n) = \<lparr>pool = map Some [0..<n], is_stop = False\<rparr>"
  "the (RedisPool_new (\<lambda>i. True) n) = \<lparr>pool = map Some [0..<n], is_stop = False\<rparr>"
  by (simp_all add: SmtpPoll_new_def RedisPool_new_def fill_pool_eq)

lemma varify0_live: "varify_live varify0"
  by (auto simp: varify0_def varify_live_def pool_live_def new_pools)


lemma varify0_send:
  "\<exists>st. GetVarifyCode mem_redis (\<lambda>i. Delivered) (\<lambda>i. None) 123456 ''a@b'' True varify0 =
     Ret (OK, Some (GenVarifyCode 123456), st)"
  by (simp add: GetVarifyCode_def TryGetKey_def SetEx_def Send_def varify0_def new_pools Acquire_def
      Release_def mem_redis_def mem_empty_def Let_def upt_rec numeral_3_eq_3)


text \<open>Sending mails that all fail, \<open>n\<close> in a row.\<close>

fun failing_sends :: "nat \<Rightarrow> 'r varify_state \<Rightarrow> 'r varify_state option" where
  "failing_sends 0 st = Some st"
| "failing_sends (Suc n) st =
     (case Send (\<lambda>i. OtherException) (\<lambda>i. None) [] [] st of Ret (False, st') \<Rightarrow> failing_sends n st' | _ \<Rightarrow> None)"

lemma failing_send:
  assumes "pool_live (smtp_pool st)" and "pool (smtp_pool st) = c # cs"
  shows "Send (\<lambda>i. OtherException) (\<lambda>i. None) r t st = Ret (False, st\<lparr>smtp_pool := (smtp_pool st)\<lparr>pool := cs\<rparr>\<rparr>)"
  using pool_live_Acquire [OF assms(1)] assms(2) by (auto simp: Send_def numeral_3_eq_3)

text \<open>C39. A mail that fails three times costs the pool a session for good: after as many failures as there are
  sessions, every later call of \<open>Send\<close> waits forever.\<close>

theorem smtp_pool_drains:
  assumes "pool_live (smtp_pool st)" and "length (pool (smtp_pool st)) = n"
  shows "\<exists>st'. failing_sends n st = Some st' \<and> Send att mk r t st' = Blocked"
  using assms
proof (induction n arbitrary: st)
  case 0
  then show ?case by (simp add: Send_def Acquire_def pool_live_def)
next
  case (Suc n)
  then obtain c cs where cs: "pool (smtp_pool st) = c # cs" by (metis length_Suc_conv)
  let ?st = "st\<lparr>smtp_pool := (smtp_pool st)\<lparr>pool := cs\<rparr>\<rparr>"
  have "\<exists>st'. failing_sends n ?st = Some st' \<and> Send att mk r t st' = Blocked"
    using Suc.prems cs by (intro Suc.IH) (auto simp: pool_live_def)
  then show ?case using failing_send [OF Suc.prems(1) cs] by simp
qed

theorem smtp_pool_drains_witness:
  "\<exists>st'. failing_sends 4 varify0 = Some st' \<and> Send (\<lambda>i. Delivered) (\<lambda>i. None) ''a@b'' ''x'' st' = Blocked"
  by (rule smtp_pool_drains) (auto simp: varify0_def pool_live_def new_pools)

text \<open>A successful \<open>Send\<close> leaves as many sessions in the pool as it found and records the one mail; the
  retries it needs are at most two.\<close>

theorem send_success_keeps_pool:
  assumes "varify_live st" and "Send att mk r t st = Ret (True, st')"
  shows "length (pool (smtp_pool st')) = length (pool (smtp_pool st)) \<and> varify_live st' \<and>
    mails st' = mails st @ [(r, t)] \<and> (\<exists>i < 3. att i = Delivered)"
proof -
  have att: "send_loop att mk n i s = LoopSent s' \<Longrightarrow> \<exists>j < i + n. att j = Delivered" for n i s s'
  proof (induction n arbitrary: i s)
    case (Suc n)
    show ?case
    proof (cases "att i = Delivered")
      case False
      then obtain s1 where "send_loop att mk n (Suc i) s1 = LoopSent s'"
        using Suc.prems by (auto split: attempt.splits option.splits)
      from Suc.IH [OF this] show ?thesis by simp
    qed (auto intro: exI [of _ i])
  qed simp
  have "\<exists>i < 3. att i = Delivered"
    using assms(2) att [of 3 0] by (auto simp: Send_def split: option.splits loop_result.splits)
  then show ?thesis using Send_live [OF assms(1), of r t att mk] assms by (auto simp: varify_live_def)
qed

theorem send_success_keeps_pool_witness:
  "\<exists>st'. Send (\<lambda>i. if i = 1 then Delivered else SMTPException) (\<lambda>i. Some 9) ''a@b'' ''x'' varify0 = Ret (True, st') \<and>
     length (pool (smtp_pool st')) = 4 \<and> mails st' = [(''a@b'', ''x'')]"
proof -
  have "\<exists>st'. Send (\<lambda>i. if i = 1 then Delivered else SMTPException) (\<lambda>i. Some 9) ''a@b'' ''x'' varify0 = Ret (True, st')"
    by (simp add: Send_def varify0_def new_pools Acquire_def upt_rec numeral_3_eq_3)
  then obtain st' where "Send (\<lambda>i. if i = 1 then Delivered else SMTPException) (\<lambda>i. Some 9) ''a@b'' ''x'' varify0 = Ret (True, st')"
    by blast
  with send_success_keeps_pool [OF varify0_live this] show ?thesis by (auto simp: varify0_def new_pools)
qed

end
