(* ===== verification/Push.thy ===== *)
theory Push
  imports Gate RpcSpec
begin

text \<open>
  The push server: \<open>push/push_server.cc\<close> and \<open>push/async_gate_client.cc\<close>. As in the logic server, contexts live at
  addresses and \<open>ppc_of\<close> says how far the program has come with one; here nothing ever deletes a context.
  \<open>new_stub\<close> says whether \<open>GateService::NewStub\<close> yields a stub for an address. Calling \<open>Finish\<close> twice or using
  the null reader sets \<open>pcrashed\<close>.
\<close>

section \<open>Definitions\<close>

record PushContext =
  p_done :: bool
  p_req :: PushReq

datatype push_pc = PFree | PRequested | PQueued | PAtGate | PReturned

record 'r push_state =
  pctx :: "nat \<Rightarrow> PushContext option"
  ppc_of :: "nat \<Rightarrow> push_pc"
  stub_cache :: "string set"
  gate_calls :: "(nat \<times> string \<times> PushReq) list"
  finishes :: "(nat \<times> status) list"
  pcrashed :: bool
  pstore :: 'r

definition push_context_new :: PushContext where
  "push_context_new = \<lparr>p_done = False, p_req = PushReq_default\<rparr>"

text \<open>\<open>done = true\<close> and \<open>responder.Finish(resp, status, context)\<close>.\<close>

definition push_finish :: "nat \<Rightarrow> status \<Rightarrow> 'r push_state \<Rightarrow> 'r push_state" where
  "push_finish a s st =
     (case pctx st a of
        None \<Rightarrow> st\<lparr>pcrashed := True\<rparr>
      | Some c \<Rightarrow>
          if p_done c then st\<lparr>pcrashed := True\<rparr>
          else st\<lparr>pctx := (pctx st)(a \<mapsto> c\<lparr>p_done := True\<rparr>), finishes := finishes st @ [(a, s)]\<rparr>)"

text \<open>\<open>GateClient::Push\<close>: after a failed connection the function goes on to use the reader it never set.\<close>

definition GateClient_Push :: "(string \<Rightarrow> bool) \<Rightarrow> nat \<Rightarrow> PushReq \<Rightarrow> string \<Rightarrow> 'r push_state \<Rightarrow> 'r push_state" where
  "GateClient_Push new_stub a req gate_address st =
     (let call = (\<lambda>st. st\<lparr>gate_calls := gate_calls st @ [(a, gate_address, req)], ppc_of := (ppc_of st)(a := PAtGate)\<rparr>) in
      if gate_address \<in> stub_cache st then call st
      else if new_stub gate_address then call (st\<lparr>stub_cache := insert gate_address (stub_cache st)\<rparr>)
      else (push_finish a UNAVAILABLE st)\<lparr>pcrashed := True\<rparr>)"

text \<open>The task \<open>PushServer::Run\<close> enqueues for an arrived request.\<close>

definition push_task :: "'r redis \<Rightarrow> (string \<Rightarrow> bool) \<Rightarrow> nat \<Rightarrow> 'r push_state \<Rightarrow> 'r push_state" where
  "push_task R new_stub a st =
     (case pctx st a of
        None \<Rightarrow> st\<lparr>pcrashed := True\<rparr>
      | Some c \<Rightarrow>
          (case r_hget R (pstore st) (redis_user_prefix @ fmt_u64 (PushReq_to_uid (p_req c))) ''gate'' of
             Some value \<Rightarrow>
               if value \<noteq> [] then GateClient_Push new_stub a (p_req c) value st
               else push_finish a NOT_FOUND (st\<lparr>ppc_of := (ppc_of st)(a := PReturned)\<rparr>)
           | None \<Rightarrow> push_finish a NOT_FOUND (st\<lparr>ppc_of := (ppc_of st)(a := PReturned)\<rparr>)))"

text \<open>One completion of \<open>GateClient::AsyncRpcComplete\<close> with the status the gate answered.\<close>

definition gate_complete :: "nat \<Rightarrow> status \<Rightarrow> 'r push_state \<Rightarrow> 'r push_state" where
  "gate_complete a s st = push_finish a s (st\<lparr>ppc_of := (ppc_of st)(a := PReturned)\<rparr>)"

text \<open>One iteration of the loop of \<open>PushServer::Run\<close>.\<close>

definition push_iteration :: "nat \<Rightarrow> PushReq \<Rightarrow> nat \<Rightarrow> 'r push_state \<Rightarrow> 'r push_state" where
  "push_iteration tag q new_ctx st =
     (case pctx st tag of
        None \<Rightarrow> st\<lparr>pcrashed := True\<rparr>
      | Some c \<Rightarrow>
          if p_done c then st
          else st\<lparr>pctx := (pctx st)(tag \<mapsto> c\<lparr>p_req := q\<rparr>, new_ctx \<mapsto> push_context_new),
                  ppc_of := (ppc_of st)(tag := PQueued, new_ctx := PRequested)\<rparr>)"

definition push_start :: "'r \<Rightarrow> 'r push_state" where
  "push_start r =
     \<lparr>pctx = [0 \<mapsto> push_context_new], ppc_of = (\<lambda>a. PFree)(0 := PRequested), stub_cache = {}, gate_calls = [],
      finishes = [], pcrashed = False, pstore = r\<rparr>"

text \<open>Interleavings; the store may be changed by the other services at any time.\<close>

inductive push_step :: "'r redis \<Rightarrow> (string \<Rightarrow> bool) \<Rightarrow> 'r push_state \<Rightarrow> 'r push_state \<Rightarrow> bool"
  for R :: "'r redis" and new_stub :: "string \<Rightarrow> bool" where
  pstep_arrive: "ppc_of st a = PRequested \<Longrightarrow> ppc_of st n = PFree \<Longrightarrow> push_step R new_stub st (push_iteration a q n st)"
| pstep_done: "pctx st a = Some c \<Longrightarrow> p_done c \<Longrightarrow> push_step R new_stub st (push_iteration a q n st)"
| pstep_task: "ppc_of st a = PQueued \<Longrightarrow> push_step R new_stub st (push_task R new_stub a st)"
| pstep_gate: "ppc_of st a = PAtGate \<Longrightarrow> push_step R new_stub st (gate_complete a s st)"
| pstep_store: "push_step R new_stub st (st\<lparr>pstore := r\<rparr>)"

section \<open>Invariant\<close>

text \<open>When stubs can be made: nothing has crashed, a context is answered exactly when the program is done with
  it and then once, and contexts stay allocated.\<close>

definition pinv :: "'r push_state \<Rightarrow> bool" where
  "pinv st \<longleftrightarrow> \<not> pcrashed st \<and>
     (\<forall>a. pctx st a = None \<longleftrightarrow> ppc_of st a = PFree) \<and>
     (\<forall>a c. pctx st a = Some c \<longrightarrow> (p_done c \<longleftrightarrow> ppc_of st a = PReturned)) \<and>
     (\<forall>a. count_list (map fst (finishes st)) a = (if ppc_of st a = PReturned then 1 else 0))"

lemma pinv_alloc: "pinv st \<Longrightarrow> ppc_of st a \<noteq> PFree \<Longrightarrow> \<exists>c. pctx st a = Some c"
  by (auto simp: pinv_def)

lemma push_finish_pinv:
  assumes "pinv st" and "ppc_of st a \<noteq> PFree" and "ppc_of st a \<noteq> PReturned"
  shows "pinv (push_finish a s (st\<lparr>ppc_of := (ppc_of st)(a := PReturned)\<rparr>))"
proof -
  obtain c where c: "pctx st a = Some c" using pinv_alloc [OF assms(1,2)] by blast
  then have d: "\<not> p_done c" using assms(1,3) by (auto simp: pinv_def)
  have "push_finish a s (st\<lparr>ppc_of := (ppc_of st)(a := PReturned)\<rparr>) =
      st\<lparr>ppc_of := (ppc_of st)(a := PReturned), pctx := (pctx st)(a \<mapsto> c\<lparr>p_done := True\<rparr>),
        finishes := finishes st @ [(a, s)]\<rparr>"
    using c d by (simp add: push_finish_def)
  then show ?thesis using assms c by (simp add: pinv_def)
qed

lemma push_step_pinv:
  assumes "push_step R (\<lambda>g. True) st st'" and "pinv st"
  shows "pinv st'"
  using assms(1)
proof cases
  case (pstep_arrive a n q)
  obtain c where c: "pctx st a = Some c" using pinv_alloc [OF assms(2), of a] pstep_arrive by auto
  have d: "\<not> p_done c" "a \<noteq> n" using assms(2) c pstep_arrive by (auto simp: pinv_def)
  have st': "st' = st\<lparr>pctx := (pctx st)(a \<mapsto> c\<lparr>p_req := q\<rparr>, n \<mapsto> push_context_new),
      ppc_of := (ppc_of st)(a := PQueued, n := PRequested)\<rparr>"
    using pstep_arrive c d by (simp add: push_iteration_def)
  have "count_list (map fst (finishes st)) b = (if b = a \<or> b = n \<or> ppc_of st b \<noteq> PReturned then 0 else 1)" for b
    using assms(2) pstep_arrive by (cases "b = n"; cases "b = a") (simp_all add: pinv_def)
  then show ?thesis using assms(2) d unfolding st' pinv_def by (simp add: push_context_new_def)
next
  case (pstep_done a c q n)
  then show ?thesis using assms(2) by (simp add: push_iteration_def)
next
  case (pstep_task a)
  obtain c where c: "pctx st a = Some c" using pinv_alloc [OF assms(2), of a] pstep_task by auto
  have nf: "pinv (push_finish a NOT_FOUND (st\<lparr>ppc_of := (ppc_of st)(a := PReturned)\<rparr>))"
    using push_finish_pinv [OF assms(2)] pstep_task by simp
  have gc: "pinv (GateClient_Push (\<lambda>g. True) a q g st)" for q g
    using assms(2) pstep_task c by (auto simp: pinv_def GateClient_Push_def Let_def)
  show ?thesis using nf gc pstep_task c by (auto simp: push_task_def split: option.split)
next
  case (pstep_gate a s)
  then show ?thesis using push_finish_pinv [OF assms(2)] by (simp add: gate_complete_def)
next
  case (pstep_store r)
  then show ?thesis using assms(2) by (simp add: pinv_def)
qed

lemma push_reach_pinv: "(push_step R (\<lambda>g. True))\<^sup>*\<^sup>* (push_start r) st \<Longrightarrow> pinv st"
proof (induction rule: rtranclp_induct)
  case base
  then show ?case by (auto simp: pinv_def push_start_def push_context_new_def)
next
  case (step y z)
  then show ?case by (blast intro: push_step_pinv)
qed

section \<open>Refinement of the RPC specification\<close>

fun push_point :: "push_pc \<Rightarrow> status call" where
  "push_point PFree = Unborn"
| "push_point PRequested = Posted"
| "push_point _ = Active"

definition push_abs :: "'r push_state \<Rightarrow> status rpc_spec" where
  "push_abs st = abs_of (\<lambda>a. push_point (ppc_of st a)) (finishes st)"

lemma pinv_log: "pinv st \<Longrightarrow> ppc_of st a \<noteq> PReturned \<Longrightarrow> map_of (finishes st) a = None"
  by (rule map_of_count_0) (auto simp: pinv_def)

text \<open>Answering a queued call or one that is at its gate.\<close>

lemma push_finish_abs:
  assumes "pinv st" and "ppc_of st a \<in> {PQueued, PAtGate}"
  shows "spec_step (push_abs st) (push_abs (push_finish a s (st\<lparr>ppc_of := (ppc_of st)(a := PReturned)\<rparr>)))"
proof -
  obtain c where c: "pctx st a = Some c" using pinv_alloc [OF assms(1), of a] assms(2) by auto
  then have d: "\<not> p_done c" using assms by (auto simp: pinv_def)
  have "map_of (finishes st) a = None" "push_point (ppc_of st a) = Active"
    using pinv_log [OF assms(1), of a] assms(2) by auto
  then show ?thesis using abs_of_answer [of "finishes st" a "\<lambda>b. push_point (ppc_of st b)"]
    by (simp add: push_abs_def push_finish_def c d)
qed

lemma push_step_abs:
  assumes "push_step R (\<lambda>g. True) st st'" and "pinv st"
  shows "spec_step\<^sup>*\<^sup>* (push_abs st) (push_abs st')"
  using assms(1)
proof cases
  case (pstep_arrive a n q)
  obtain c where c: "pctx st a = Some c" using pinv_alloc [OF assms(2), of a] pstep_arrive by auto
  have d: "\<not> p_done c" using assms(2) c pstep_arrive by (auto simp: pinv_def)
  have "abs_of ((\<lambda>b. push_point (ppc_of st b))(a := Active, n := Posted)) (finishes st) = push_abs st'"
    unfolding push_abs_def pstep_arrive by (simp add: push_iteration_def c d, rule abs_of_cong) simp
  then show ?thesis
    using abs_of_accept [of "finishes st" a n "\<lambda>b. push_point (ppc_of st b)"] pstep_arrive
      pinv_log [OF assms(2), of a] pinv_log [OF assms(2), of n] by (auto simp: push_abs_def)
next
  case (pstep_done a c q n)
  then show ?thesis by (simp add: push_iteration_def)
next
  case (pstep_task a)
  obtain c where c: "pctx st a = Some c" using pinv_alloc [OF assms(2), of a] pstep_task by auto
  have nf: "spec_step\<^sup>*\<^sup>* (push_abs st) (push_abs (push_finish a NOT_FOUND (st\<lparr>ppc_of := (ppc_of st)(a := PReturned)\<rparr>)))"
    using push_finish_abs [OF assms(2)] pstep_task by auto
  have gc: "push_abs (GateClient_Push (\<lambda>g. True) a q g st) = push_abs st" for q g
    unfolding push_abs_def GateClient_Push_def Let_def
    by (simp, intro conjI impI abs_of_cong) (simp_all add: pstep_task)
  show ?thesis using nf gc pstep_task c by (auto simp: push_task_def split: option.split)
next
  case (pstep_gate a s)
  then show ?thesis using push_finish_abs [OF assms(2)] by (auto simp: gate_complete_def)
next
  case (pstep_store r)
  then show ?thesis by (simp add: push_abs_def)
qed

interpretation push_rpc: rpc_server "push_step R (\<lambda>g. True)" "push_start r" pinv push_abs
proof
  show "pinv (push_start r)" by (auto simp: pinv_def push_start_def push_context_new_def)
  show "push_abs (push_start r) = spec_start"
    by (auto simp: push_abs_def abs_of_def push_start_def spec_start_def fun_eq_iff)
qed (auto intro: push_step_pinv push_step_abs)

section \<open>Properties\<close>

text \<open>As long as stubs can be made, however the loop, the tasks and the gates' answers interleave, no
  request is answered twice, and the requests that are answered are exactly those the server is done with;
  but each of them stays allocated: the contexts the completion queue hands back are never deleted.\<close>

theorem push_server_safe:
  assumes "(push_step R (\<lambda>g. True))\<^sup>*\<^sup>* (push_start r) st"
  shows "\<not> pcrashed st \<and> count_list (map fst (finishes st)) a = (if ppc_of st a = PReturned then 1 else 0) \<and>
    (ppc_of st a \<noteq> PFree \<longrightarrow> pctx st a \<noteq> None)"
  using push_reach_pinv [OF assms] by (auto simp: pinv_def)

definition push1 :: "mem push_state" where
  "push1 = push_task mem_redis (\<lambda>g. True) 0 (push_iteration 0 ex_push 1 (push_start mem_empty))"

lemma push1_reachable: "(push_step mem_redis (\<lambda>g. True))\<^sup>*\<^sup>* (push_start mem_empty) push1"
proof -
  let ?s = "push_iteration 0 ex_push 1 (push_start mem_empty)"
  have 1: "push_step mem_redis (\<lambda>g. True) (push_start mem_empty) ?s" by (rule pstep_arrive) (simp_all add: push_start_def)
  have 2: "push_step mem_redis (\<lambda>g. True) ?s push1"
    unfolding push1_def by (rule pstep_task) (simp add: push_start_def push_iteration_def push_context_new_def)
  from 1 2 show ?thesis by (meson converse_rtranclp_into_rtranclp r_into_rtranclp)
qed

theorem push_server_safe_witness:
  "\<not> pcrashed push1 \<and> ppc_of push1 0 = PReturned \<and> count_list (map fst (finishes push1)) 0 = 1 \<and> pctx push1 0 \<noteq> None"
proof -
  have "ppc_of push1 0 = PReturned"
    by (simp add: push1_def push_task_def push_finish_def push_start_def push_iteration_def push_context_new_def
        mem_redis_def mem_empty_def)
  then show ?thesis using push_server_safe [OF push1_reachable, of 0] by simp
qed

text \<open>A request for a user with a published gate is passed on unchanged to that gate and to no other; a
  request for any other user is answered \<open>NOT_FOUND\<close> without a call; and when no stub can be made for the
  gate, the server answers \<open>UNAVAILABLE\<close> and then uses a null reader.\<close>

theorem push_task_spec:
  assumes "pctx st a = Some c" and "\<not> p_done c"
  shows "let g = r_hget R (pstore st) (redis_user_prefix @ fmt_u64 (PushReq_to_uid (p_req c))) ''gate'';
             st' = push_task R new_stub a st in
    (case g of
       Some (x # xs) \<Rightarrow>
         if x # xs \<in> stub_cache st \<or> new_stub (x # xs)
         then gate_calls st' = gate_calls st @ [(a, x # xs, p_req c)] \<and> finishes st' = finishes st \<and> pcrashed st' = pcrashed st
         else gate_calls st' = gate_calls st \<and> finishes st' = finishes st @ [(a, UNAVAILABLE)] \<and> pcrashed st'
     | _ \<Rightarrow> gate_calls st' = gate_calls st \<and> finishes st' = finishes st @ [(a, NOT_FOUND)] \<and> pcrashed st' = pcrashed st)"
  using assms by (simp add: push_task_def GateClient_Push_def push_finish_def Let_def split: option.split list.split)

theorem push_task_spec_witness:
  "finishes (push_task mem_redis (\<lambda>g. True) 0 (push_start mem_empty)) = [(0, NOT_FOUND)]"
  using push_task_spec [of "push_start mem_empty" 0 push_context_new mem_redis "\<lambda>g. True"]
  by (simp add: push_start_def push_context_new_def mem_redis_def mem_empty_def Let_def)

end
