(* ===== verification/TransferSrv.thy ===== *)
theory TransferSrv
  imports Gate MysqlDb
begin

text \<open>
  The handlers of the transfer servers: \<open>transfer/mysql/main.cc\<close> and \<open>transfer/cassandra/main.cc\<close>.
  A Kafka message has an error code, a key (\<open>None\<close> is the null pointer \<open>key()\<close> returns for a message without one)
  and a payload. Which MySQL statements throw and which Cassandra statements fail are arguments. A
  Cassandra session is taken from and returned to a \<open>ConnectionPool\<close>; \<open>None\<close> is a handler that does not return, because
  it waits for a session or uses the null session of a stopped pool.
  The Cassandra tables are those of \<open>script/cassandra.cql\<close>, an \<open>INSERT\<close> replaces a row with the same key, and a
  statement that names a column the table does not have is rejected.
\<close>

section \<open>Kafka messages\<close>

datatype kafka_err = ERR_NO_ERROR | ERR_TIMED_OUT | ERR_PARTITION_EOF | ERR_UNKNOWN_TOPIC | ERR_UNKNOWN_PARTITION | ERR_OTHER

record kmsg =
  k_err :: kafka_err
  k_key :: "string option"
  k_payload :: string

definition is_send_to_group :: "MqMessage \<Rightarrow> bool" where
  "is_send_to_group m \<longleftrightarrow> ProtoReq_type (MqMessage_origin_req m) = TypeGroupMsg \<or>
     ProtoReq_type (MqMessage_origin_req m) = TypeGroupCtrl"

definition msgid_of :: "MqMessage \<Rightarrow> string" where
  "msgid_of m = ProtoResp_msgid (MqMessage_handle_result m)"

section \<open>MySQL\<close>

datatype 'a handled = NullKey | Handled 'a

text \<open>The second statement of \<open>MySQLHandle\<close>.\<close>

definition insert_box :: "(string \<Rightarrow> string) \<Rightarrow> MqMessage \<Rightarrow> ychat_db \<Rightarrow> ychat_db option" where
  "insert_box coll mq_message db =
     (let from_uid = ProtoReq_from_uid (MqMessage_origin_req mq_message);
          to_id = ProtoReq_to_id (MqMessage_origin_req mq_message);
          sendtime = ProtoResp_timestamp (MqMessage_handle_result mq_message);
          msgid = msgid_of mq_message
      in if is_send_to_group mq_message then insert_group_box coll to_id sendtime msgid db
         else insert_user_box coll from_uid to_id sendtime msgid db)"

definition MySQLHandle :: "pb_rt \<Rightarrow> (string \<Rightarrow> string) \<Rightarrow> (nat \<Rightarrow> bool) \<Rightarrow> kmsg \<Rightarrow> ychat_db \<Rightarrow> ychat_db handled" where
  "MySQLHandle rt coll fl message db =
     (case MqMessage_ParseFromArray rt (k_payload message) of
        None \<Rightarrow> Handled db
      | Some mq_message \<Rightarrow>
        (case k_key message of
           None \<Rightarrow> NullKey
         | Some key \<Rightarrow>
           if msgid_of mq_message \<noteq> key then Handled db
           else if fl 0 then Handled db
           else case insert_messages coll (msgid_of mq_message) (k_payload message) db of
             None \<Rightarrow> Handled db
           | Some db1 \<Rightarrow>
               if fl 1 then Handled db1
               else (case insert_box coll mq_message db1 of None \<Rightarrow> Handled db1 | Some db2 \<Rightarrow> Handled db2)))"

section \<open>Cassandra\<close>

record 'r transfer_state =
  c_messages :: "string \<Rightarrow> string option"
  c_inbox :: "int64 \<times> int64 \<Rightarrow> string option"
  c_pool :: "nat ConnectionPool"
  t_store :: 'r
  pushes :: "PushReq list"
  tasks :: "(MqMessage \<times> uid) list"

text \<open>What \<open>cass_statement_bind_string\<close> sees of \<open>s.c_str()\<close>: the bytes before the first NUL.\<close>

definition c_str :: "string \<Rightarrow> string" where
  "c_str s = takeWhile (\<lambda>c. of_char c \<noteq> (0 :: nat)) s"

text \<open>What the statements do in Cassandra; \<open>fails\<close> says that Cassandra reports an error.\<close>

definition messages_stmt :: "bool \<Rightarrow> string \<Rightarrow> string \<Rightarrow> 'r transfer_state \<Rightarrow> 'r transfer_state" where
  "messages_stmt fails msgid payload st =
     (if fails then st else st\<lparr>c_messages := (c_messages st)(c_str msgid \<mapsto> payload)\<rparr>)"

definition inbox_stmt :: "bool \<Rightarrow> string \<Rightarrow> uid \<Rightarrow> int64 \<Rightarrow> 'r transfer_state \<Rightarrow> 'r transfer_state" where
  "inbox_stmt fails msgid uid seq st =
     (if fails then st else st\<lparr>c_inbox := (c_inbox st)((uid, seq) \<mapsto> c_str msgid)\<rparr>)"

definition user_inbox_columns :: "string list" where
  "user_inbox_columns = [''uid'', ''seq'', ''msgid'']"

definition cql_columns_ok :: "string list \<Rightarrow> string list \<Rightarrow> bool" where
  "cql_columns_ok table used \<longleftrightarrow> list_all (\<lambda>c. c \<in> set table) used"

text \<open>\<open>DELETE FROM ychat.user_inbox WHERE user_id = ? AND seq = ?\<close>.\<close>

definition delete_stmt :: "bool \<Rightarrow> uid \<Rightarrow> int64 \<Rightarrow> 'r transfer_state \<Rightarrow> 'r transfer_state" where
  "delete_stmt fails uid seq st =
     (if fails \<or> \<not> cql_columns_ok user_inbox_columns [''user_id'', ''seq''] then st
      else st\<lparr>c_inbox := (c_inbox st)((uid, seq) := None)\<rparr>)"

text \<open>\<open>Acquire\<close>, \<open>cass_session_execute\<close>, \<open>Release\<close>.\<close>

definition cass_execute :: "('r transfer_state \<Rightarrow> 'r transfer_state) \<Rightarrow> 'r transfer_state \<Rightarrow> 'r transfer_state option" where
  "cass_execute stmt st =
     (case Acquire (c_pool st) of
        None \<Rightarrow> None
      | Some (None, p) \<Rightarrow> None
      | Some (Some session, p) \<Rightarrow> Some ((stmt st)\<lparr>c_pool := Release p (Some session)\<rparr>))"

definition AsyncWriteMessages :: "bool \<Rightarrow> string \<Rightarrow> string \<Rightarrow> 'r transfer_state \<Rightarrow> 'r transfer_state option" where
  "AsyncWriteMessages fails msgid payload = cass_execute (messages_stmt fails msgid payload)"

definition AsyncWriteInbox :: "bool \<Rightarrow> string \<Rightarrow> uid \<Rightarrow> int64 \<Rightarrow> 'r transfer_state \<Rightarrow> 'r transfer_state option" where
  "AsyncWriteInbox fails msgid uid seq = cass_execute (inbox_stmt fails msgid uid seq)"

definition OnPushSuccess :: "bool \<Rightarrow> uid \<Rightarrow> int64 \<Rightarrow> 'r transfer_state \<Rightarrow> 'r transfer_state option" where
  "OnPushSuccess fails uid seq = cass_execute (delete_stmt fails uid seq)"

definition AsyncPush :: "MqMessage \<Rightarrow> uid \<Rightarrow> int64 \<Rightarrow> 'r transfer_state \<Rightarrow> 'r transfer_state" where
  "AsyncPush mq_message to_uid seq st =
     st\<lparr>pushes := pushes st @ [PushReq_default\<lparr>PushReq_to_uid := to_uid, PushReq_seq := seq,
          PushReq_message_ptr := Some (MqMessage_CopyFrom MqMessage_default mq_message)\<rparr>]\<rparr>"

text \<open>What is done for one receiver, directly for a user message and in a pool task for each group member.\<close>

definition deliver_to :: "'r redis \<Rightarrow> bool \<Rightarrow> MqMessage \<Rightarrow> uid \<Rightarrow> 'r transfer_state \<Rightarrow> 'r transfer_state option" where
  "deliver_to R fails mq_message to_uid st =
     (let (seq, s) = r_hincrby R (t_store st) (redis_user_prefix @ fmt_u64 to_uid) ''seq'' 1 in
      case AsyncWriteInbox fails (ProtoResp_msgid (MqMessage_handle_result mq_message)) to_uid seq (st\<lparr>t_store := s\<rparr>) of
        None \<Rightarrow> None
      | Some st' \<Rightarrow> Some (AsyncPush mq_message to_uid seq st'))"

definition CassandraHandle :: "pb_rt \<Rightarrow> 'r redis \<Rightarrow> (nat \<Rightarrow> bool) \<Rightarrow> bool \<Rightarrow> ychat_db \<Rightarrow> kmsg \<Rightarrow> 'r transfer_state \<Rightarrow>
    'r transfer_state option handled" where
  "CassandraHandle rt R cf sql_throws db message st =
     (case MqMessage_ParseFromArray rt (k_payload message) of
        None \<Rightarrow> Handled (Some st)
      | Some mq_message \<Rightarrow>
        (case k_key message of
           None \<Rightarrow> NullKey
         | Some key \<Rightarrow>
           if ProtoResp_msgid (MqMessage_handle_result mq_message) \<noteq> key then Handled (Some st)
           else case AsyncWriteMessages (cf 0) (ProtoResp_msgid (MqMessage_handle_result mq_message)) (k_payload message) st of
             None \<Rightarrow> Handled None
           | Some st1 \<Rightarrow>
               if is_send_to_group mq_message then
                 if sql_throws then Handled (Some st1)
                 else let uids = members_at db (ProtoReq_to_id (MqMessage_origin_req mq_message))
                                   (ProtoResp_timestamp (MqMessage_handle_result mq_message))
                      in Handled (Some (st1\<lparr>tasks := tasks st1 @ map (\<lambda>u. (mq_message, u)) uids\<rparr>))
               else Handled (deliver_to R (cf 1) mq_message (ProtoReq_to_id (MqMessage_origin_req mq_message)) st1)))"

text \<open>The pool running the first queued task.\<close>

definition run_task :: "'r redis \<Rightarrow> bool \<Rightarrow> 'r transfer_state \<Rightarrow> 'r transfer_state option" where
  "run_task R fails st =
     (case tasks st of [] \<Rightarrow> Some st | (m, u) # ts \<Rightarrow> deliver_to R fails m u (st\<lparr>tasks := ts\<rparr>))"

text \<open>Deliveries in the order the threads make them.\<close>

fun deliveries :: "'r redis \<Rightarrow> (bool \<times> MqMessage \<times> uid) list \<Rightarrow> 'r transfer_state \<Rightarrow> 'r transfer_state option" where
  "deliveries R [] st = Some st"
| "deliveries R ((f, m, u) # ds) st =
     (case deliver_to R f m u st of None \<Rightarrow> None | Some st' \<Rightarrow> deliveries R ds st')"

section \<open>Lemmas on the MySQL tables\<close>

definition has_message :: "(string \<Rightarrow> string) \<Rightarrow> ychat_db \<Rightarrow> string \<Rightarrow> bool" where
  "has_message coll db msgid \<longleftrightarrow> list_ex (\<lambda>(k, d). coll k = coll msgid) (t_messages db)"

text \<open>The keys and references the schema declares for the three message tables.\<close>

definition boxes_inv :: "(string \<Rightarrow> string) \<Rightarrow> ychat_db \<Rightarrow> bool" where
  "boxes_inv coll db \<longleftrightarrow> distinct (map (\<lambda>(k, d). coll k) (t_messages db)) \<and>
     distinct (map (\<lambda>r. (ub_from_uid r, ub_to_uid r, ub_sendtime r)) (t_user_box db)) \<and>
     (\<forall>r \<in> set (t_user_box db). has_message coll db (ub_msgid r) \<and> ub_from_uid r \<in> set (t_user db) \<and> ub_to_uid r \<in> set (t_user db)) \<and>
     (\<forall>r \<in> set (t_group_box db). has_message coll db (gb_msgid r))"

lemma has_message_iff: "has_message coll db k \<longleftrightarrow> coll k \<in> set (map (\<lambda>(k, d). coll k) (t_messages db))"
  by (force simp: has_message_def list_ex_iff)

lemma has_message_append:
  "has_message coll (db\<lparr>t_messages := t_messages db @ [(k, d)]\<rparr>) k' \<longleftrightarrow> has_message coll db k' \<or> coll k = coll k'"
  by (auto simp: has_message_def)

lemma has_message_boxes [simp]:
  "has_message coll (db\<lparr>t_user_box := x\<rparr>) k = has_message coll db k"
  "has_message coll (db\<lparr>t_group_box := y\<rparr>) k = has_message coll db k"
  by (simp_all add: has_message_def)

lemma insert_messages_inv:
  assumes "insert_messages coll k d db = Some db'" and "boxes_inv coll db"
  shows "boxes_inv coll db'"
proof -
  have "\<not> has_message coll db k" and db': "db' = db\<lparr>t_messages := t_messages db @ [(k, d)]\<rparr>"
    using assms(1) by (auto simp: insert_messages_def has_message_def split: if_splits)
  then show ?thesis using assms(2) unfolding boxes_inv_def db' has_message_append by (simp add: has_message_iff)
qed

lemma insert_user_box_inv:
  assumes "insert_user_box coll f t s k db = Some db'" and "boxes_inv coll db"
  shows "boxes_inv coll db'"
proof -
  have "has_message coll db k" "f \<in> set (t_user db)" "t \<in> set (t_user db)"
    "(f, t, s) \<notin> set (map (\<lambda>r. (ub_from_uid r, ub_to_uid r, ub_sendtime r)) (t_user_box db))"
    and db': "db' = db\<lparr>t_user_box := t_user_box db @
      [\<lparr>ub_from_uid = f, ub_to_uid = t, ub_sendtime = s, ub_msgid = k\<rparr>]\<rparr>"
    using assms(1) unfolding insert_user_box_def has_message_def [symmetric] by (auto simp: list_ex_iff split: if_splits)
  then show ?thesis using assms(2) unfolding boxes_inv_def db' by (auto simp del: set_map)
qed

lemma insert_group_box_inv:
  assumes "insert_group_box coll g s k db = Some db'" and "boxes_inv coll db"
  shows "boxes_inv coll db'"
proof -
  have "has_message coll db k"
    and db': "db' = db\<lparr>t_group_box := t_group_box db @ [\<lparr>gb_gid = g, gb_sendtime = s, gb_msgid = k\<rparr>]\<rparr>"
    using assms(1) unfolding insert_group_box_def has_message_def [symmetric] by (auto split: if_splits)
  then show ?thesis using assms(2) unfolding boxes_inv_def db' by auto
qed

lemma insert_box_inv: "insert_box coll mq db = Some db' \<Longrightarrow> boxes_inv coll db \<Longrightarrow> boxes_inv coll db'"
  by (auto simp: insert_box_def Let_def split: if_splits intro: insert_user_box_inv insert_group_box_inv)

lemma insert_box_messages: "insert_box coll mq db = Some db' \<Longrightarrow> t_messages db' = t_messages db"
  by (auto simp: insert_box_def insert_user_box_def insert_group_box_def Let_def split: if_splits)

lemmas insert_inv = insert_messages_inv insert_box_inv

lemma MySQLHandle_inv: "boxes_inv coll db \<Longrightarrow> MySQLHandle rt coll fl m db = Handled db' \<Longrightarrow> boxes_inv coll db'"
  by (auto simp: MySQLHandle_def Let_def split: option.splits if_splits intro: insert_inv)

lemma MySQLHandle_seen:
  assumes "MqMessage_ParseFromArray rt (k_payload m) = Some mq"
    and "has_message coll db (ProtoResp_msgid (MqMessage_handle_result mq))"
  shows "MySQLHandle rt coll fl m db = (if k_key m = None then NullKey else Handled db)"
  using assms by (auto simp: MySQLHandle_def has_message_def insert_messages_def msgid_of_def split: option.split)

section \<open>Lemmas on deliveries\<close>

lemma user_key_inject [simp]: "redis_user_prefix @ fmt_u64 u = redis_user_prefix @ fmt_u64 v \<longleftrightarrow> u = v"
  by simp

definition sessions_ready :: "'r transfer_state \<Rightarrow> bool" where
  "sessions_ready st \<longleftrightarrow> pool_live (c_pool st) \<and> pool (c_pool st) \<noteq> []"

lemma cass_execute_Some:
  assumes "cass_execute stmt st = Some st'"
  obtains p where "st' = (stmt st)\<lparr>c_pool := p\<rparr>" "owned p = owned (c_pool st)" "sessions_ready st \<Longrightarrow> sessions_ready st'"
proof -
  obtain c p where a: "Acquire (c_pool st) = Some (Some c, p)" "st' = (stmt st)\<lparr>c_pool := Release p (Some c)\<rparr>"
    using assms by (auto simp: cass_execute_def split: option.splits)
  have "sessions_ready st \<Longrightarrow> sessions_ready st'"
    using pool_live_Acquire [of "c_pool st"] pool_live_Release [of p c] a by (auto simp: sessions_ready_def Release_def)
  then show thesis using that [of "Release p (Some c)"] cp.take_and_return [OF a(1)] a(2) by simp
qed

lemma cass_execute_ready: "sessions_ready st \<Longrightarrow> cass_execute stmt st \<noteq> None"
  using pool_live_Acquire [of "c_pool st"] by (auto simp: cass_execute_def sessions_ready_def)

text \<open>The push request made for a receiver.\<close>

definition push_of :: "MqMessage \<Rightarrow> uid \<Rightarrow> int64 \<Rightarrow> PushReq" where
  "push_of m u seq = \<lparr>PushReq_message_ptr = Some m, PushReq_seq = seq, PushReq_to_uid = u, PushReq_unknown = []\<rparr>"

lemma AsyncPush_eq: "AsyncPush m u seq st = st\<lparr>pushes := pushes st @ [push_of m u seq]\<rparr>"
  by (simp add: AsyncPush_def push_of_def PushReq_default_def)

lemma deliver_to_Some:
  assumes "deliver_to R f m u st = Some st'"
  obtains seq where "r_hincrby R (t_store st) (redis_user_prefix @ fmt_u64 u) ''seq'' 1 = (seq, t_store st')"
    and "pushes st' = pushes st @ [push_of m u seq]"
    and "c_inbox st' = (if f then c_inbox st
           else (c_inbox st)((u, seq) \<mapsto> c_str (ProtoResp_msgid (MqMessage_handle_result m))))"
    and "tasks st' = tasks st" and "c_messages st' = c_messages st"
    and "owned (c_pool st') = owned (c_pool st)" and "sessions_ready st \<Longrightarrow> sessions_ready st'"
proof -
  obtain seq s where h: "r_hincrby R (t_store st) (redis_user_prefix @ fmt_u64 u) ''seq'' 1 = (seq, s)" by fastforce
  obtain st1 where w: "AsyncWriteInbox f (ProtoResp_msgid (MqMessage_handle_result m)) u seq (st\<lparr>t_store := s\<rparr>) = Some st1"
    "st' = AsyncPush m u seq st1"
    using assms by (auto simp: deliver_to_def h split: option.splits)
  from w(1) [unfolded AsyncWriteInbox_def inbox_stmt_def] show thesis
    by (rule cass_execute_Some) (use that [of seq] h w(2) in \<open>auto simp: AsyncPush_eq sessions_ready_def\<close>)
qed

lemma deliver_to_ready:
  "sessions_ready st \<Longrightarrow> \<exists>st'. deliver_to R f m u st = Some st'"
  by (simp add: deliver_to_def AsyncWriteInbox_def cass_execute_ready sessions_ready_def split: prod.split option.split)

lemma deliveries_ready:
  "sessions_ready st \<Longrightarrow> \<exists>st'. deliveries R ds st = Some st'"
proof (induction ds arbitrary: st)
  case (Cons d ds)
  obtain f m u where d: "d = (f, m, u)" by (cases d)
  obtain st1 where st1: "deliver_to R f m u st = Some st1" using deliver_to_ready Cons.prems by blast
  then have "sessions_ready st1" using Cons.prems by (auto elim!: deliver_to_Some)
  then show ?case using Cons.IH st1 d by simp
qed simp

lemma Suc_of_nat_neq_0:
  assumes "Suc i < 2 ^ 64"
  shows "(1 :: int64) + of_nat i \<noteq> 0"
proof
  assume "(1 :: int64) + of_nat i = 0"
  then have "unat (of_nat (Suc i) :: int64) = 0" by simp
  then show False using unat_of_nat_small [where 'a = 64, of "Suc i"] assms by simp
qed

text \<open>The user's counter in Redis.\<close>

definition seq_at :: "'r redis \<Rightarrow> 'r \<Rightarrow> uid \<Rightarrow> int64 \<Rightarrow> bool" where
  "seq_at R s u b \<longleftrightarrow> r_hget R s (redis_user_prefix @ fmt_u64 u) ''seq'' = Some (fmt_i64 b) \<or>
     r_hget R s (redis_user_prefix @ fmt_u64 u) ''seq'' = None \<and> b = 0"

context redis_server
begin

lemma seq_at_ok: "seq_at R s u b \<Longrightarrow> sint b + 1 < 2 ^ 63 \<Longrightarrow> incr_ok R s (redis_user_prefix @ fmt_u64 u) ''seq'' 1"
  using sint_greater_eq [of b] by (auto simp: seq_at_def incr_ok_def)

lemma seq_at_own:
  assumes "r_hincrby R s (redis_user_prefix @ fmt_u64 u) ''seq'' 1 = (q, s')" and "seq_at R s u b" and "sint b + 1 < 2 ^ 63"
  shows "q = b + 1 \<and> seq_at R s' u (b + 1)"
proof -
  note ok = seq_at_ok [OF assms(2,3)]
  have "fst (r_hincrby R s (redis_user_prefix @ fmt_u64 u) ''seq'' 1) = b + 1"
    using hincrby_new hincrby_old [OF _ ok] assms(2) unfolding seq_at_def by (elim disjE conjE) simp_all
  then have "q = b + 1" using assms(1) by simp
  then show ?thesis using hget_hincrby [OF ok assms(1)] by (simp add: seq_at_def)
qed

lemma seq_at_other:
  assumes "r_hincrby R s (redis_user_prefix @ fmt_u64 v) ''seq'' 1 = (q, s')" and "seq_at R s u b" and "v \<noteq> u"
  shows "seq_at R s' u b"
proof -
  have "r_hget R s' (redis_user_prefix @ fmt_u64 u) ''seq'' = r_hget R s (redis_user_prefix @ fmt_u64 u) ''seq''"
    using hget_hincrby_other [of "redis_user_prefix @ fmt_u64 u" "redis_user_prefix @ fmt_u64 v" "''seq''" "''seq''" s 1] assms
    by simp
  then show ?thesis using assms(2) by (simp add: seq_at_def)
qed

text \<open>The counter of \<open>u\<close> after a delivery to \<open>v\<close>.\<close>

lemma seq_at_step:
  assumes "r_hincrby R s (redis_user_prefix @ fmt_u64 v) ''seq'' 1 = (q, s')" and "seq_at R s u b" and "sint b + 1 < 2 ^ 63"
  shows "if v = u then q = b + 1 \<and> seq_at R s' u (b + 1) else seq_at R s' u b"
  using seq_at_own [OF _ assms(2,3)] seq_at_other [OF assms(1,2)] assms(1) by auto

lemma deliveries_spec:
  assumes "deliveries R ds st = Some st'"
  shows "\<exists>new. pushes st' = pushes st @ new \<and> map (\<lambda>p. (PushReq_message p, PushReq_to_uid p)) new = map snd ds \<and>
    tasks st' = tasks st \<and> c_messages st' = c_messages st \<and>
    (\<forall>k. k \<notin> (\<lambda>p. (PushReq_to_uid p, PushReq_seq p)) ` set new \<longrightarrow> c_inbox st' k = c_inbox st k) \<and>
    (\<forall>u b. seq_at R (t_store st) u b \<and> sint b + int (length ds) < 2 ^ 63 \<longrightarrow>
       map PushReq_seq (filter (\<lambda>p. PushReq_to_uid p = u) new) =
         map (\<lambda>i. b + 1 + of_nat i) [0..<length (filter (\<lambda>(f, m, v). v = u) ds)])"
  using assms
proof (induction ds arbitrary: st)
  case (Cons d ds)
  obtain f m v where d: "d = (f, m, v)" by (cases d)
  obtain st1 where st1: "deliver_to R f m v st = Some st1" "deliveries R ds st1 = Some st'"
    using Cons.prems d by (auto split: option.splits)
  from Cons.IH [OF st1(2)] obtain new where IH: "pushes st' = pushes st1 @ new"
    "map (\<lambda>p. (PushReq_message p, PushReq_to_uid p)) new = map snd ds" "tasks st' = tasks st1" "c_messages st' = c_messages st1"
    "\<And>k. k \<notin> (\<lambda>p. (PushReq_to_uid p, PushReq_seq p)) ` set new \<Longrightarrow> c_inbox st' k = c_inbox st1 k"
    "\<And>u b. seq_at R (t_store st1) u b \<Longrightarrow> sint b + int (length ds) < 2 ^ 63 \<Longrightarrow>
       map PushReq_seq (filter (\<lambda>p. PushReq_to_uid p = u) new) =
         map (\<lambda>i. b + 1 + of_nat i) [0..<length (filter (\<lambda>(f, m, v). v = u) ds)]" by blast
  from st1(1) obtain q where q: "r_hincrby R (t_store st) (redis_user_prefix @ fmt_u64 v) ''seq'' 1 = (q, t_store st1)"
    "pushes st1 = pushes st @ [push_of m v q]" "tasks st1 = tasks st" "c_messages st1 = c_messages st"
    "c_inbox st1 = (if f then c_inbox st else (c_inbox st)((v, q) \<mapsto> c_str (ProtoResp_msgid (MqMessage_handle_result m))))"
    by (rule deliver_to_Some) blast
  have "map PushReq_seq (filter (\<lambda>p. PushReq_to_uid p = u) (push_of m v q # new)) =
      map (\<lambda>i. b + 1 + of_nat i) [0..<length (filter (\<lambda>(f, m, v). v = u) (d # ds))]"
    if s: "seq_at R (t_store st) u b" "sint b + int (length (d # ds)) < 2 ^ 63" for u b
    using seq_at_step [OF q(1) s(1)] IH(6) [of u] s(2) sint_Suc [of b]
    by (auto simp: d push_of_def map_upt_Suc add.assoc simp del: upt_Suc split: if_splits)
  then show ?case using IH q
    by (intro exI [of _ "push_of m v q # new"]) (auto simp: d push_of_def PushReq_message_def)
qed simp

lemma deliveries_inbox:
  assumes "deliveries R ds st = Some st'" and "seq_at R (t_store st) u b" and "list_all (\<lambda>(f, m, v). \<not> f) ds"
    and "sint b + int (length ds) < 2 ^ 63" and "pushes st' = pushes st @ new" and "p \<in> set new" and "PushReq_to_uid p = u"
  shows "c_inbox st' (u, PushReq_seq p) = Some (c_str (ProtoResp_msgid (MqMessage_handle_result (PushReq_message p))))"
  using assms
proof (induction ds arbitrary: st b new)
  case (Cons d ds)
  obtain m v where d: "d = (False, m, v)" using Cons.prems(3) by (cases d) auto
  obtain st1 where st1: "deliver_to R False m v st = Some st1" "deliveries R ds st1 = Some st'"
    using Cons.prems(1) d by (auto split: option.splits)
  from st1(1) obtain q where q: "r_hincrby R (t_store st) (redis_user_prefix @ fmt_u64 v) ''seq'' 1 = (q, t_store st1)"
    "pushes st1 = pushes st @ [push_of m v q]"
    "c_inbox st1 = (c_inbox st)((v, q) \<mapsto> c_str (ProtoResp_msgid (MqMessage_handle_result m)))"
    by (rule deliver_to_Some) simp
  obtain rest where rest: "pushes st' = pushes st1 @ rest"
    "\<And>k. k \<notin> (\<lambda>p. (PushReq_to_uid p, PushReq_seq p)) ` set rest \<Longrightarrow> c_inbox st' k = c_inbox st1 k"
    "\<And>u b. seq_at R (t_store st1) u b \<Longrightarrow> sint b + int (length ds) < 2 ^ 63 \<Longrightarrow>
       map PushReq_seq (filter (\<lambda>p. PushReq_to_uid p = u) rest) =
         map (\<lambda>i. b + 1 + of_nat i) [0..<length (filter (\<lambda>(f, m, v). v = u) ds)]"
    using deliveries_spec [OF st1(2)] by blast
  have new: "new = push_of m v q # rest" using Cons.prems(5) rest(1) q(2) by simp
  have lt: "sint b + 1 < 2 ^ 63" using Cons.prems(4) by simp
  have sq: "seq_at R (t_store st1) u (if v = u then b + 1 else b)" "v = u \<Longrightarrow> q = b + 1"
    "sint (if v = u then b + 1 else b) + int (length ds) < 2 ^ 63"
    using seq_at_step [OF q(1) Cons.prems(2) lt] Cons.prems(4) sint_Suc [OF lt] by (auto split: if_splits)
  show ?case
  proof (cases "p \<in> set rest")
    case True
    then show ?thesis using Cons.IH [OF st1(2) sq(1) _ sq(3) rest(1)] Cons.prems by simp
  next
    case False
    then have p: "p = push_of m v q" "v = u" using Cons.prems(6,7) new by (auto simp: push_of_def)
    have small: "(1 :: int64) + of_nat i \<noteq> 0" if "i < length (filter (\<lambda>(f, m, v). v = u) ds)" for i
    proof (rule Suc_of_nat_neq_0)
      show "Suc i < 2 ^ 64" using order.strict_trans2 [OF that length_filter_le] Cons.prems(4) sint_greater_eq [of b] by simp
    qed
    have "q \<notin> PushReq_seq ` {p \<in> set rest. PushReq_to_uid p = u}"
    proof
      assume "q \<in> PushReq_seq ` {p \<in> set rest. PushReq_to_uid p = u}"
      then have "q \<in> set (map PushReq_seq (filter (\<lambda>p. PushReq_to_uid p = u) rest))" by auto
      then obtain i where "q = b + 1 + 1 + of_nat i" "i < length (filter (\<lambda>(f, m, v). v = u) ds)"
        using rest(3) [OF sq(1,3)] p(2) by auto
      then show False using sq(2) [OF p(2)] small [of i] by simp
    qed
    then have "(u, q) \<notin> (\<lambda>p. (PushReq_to_uid p, PushReq_seq p)) ` set rest" by auto
    from rest(2) [OF this] show ?thesis using p q(3) by (simp add: push_of_def PushReq_message_def)
  qed
qed simp

end

section \<open>Properties\<close>

text \<open>Handling a message keeps the keys and references of the message tables, whatever statement fails; and
  a message whose id is already stored is not written again, so redelivery is harmless, but a message whose
  second statement failed is never completed.\<close>

theorem mysql_handle_keys:
  assumes "boxes_inv coll db" and "MySQLHandle rt coll fl m db = Handled db1"
  shows "boxes_inv coll db1 \<and> (t_messages db1 \<noteq> t_messages db \<longrightarrow> MySQLHandle rt coll fl' m db1 = Handled db1)"
proof -
  have "MySQLHandle rt coll fl' m db1 = Handled db1" if ch: "t_messages db1 \<noteq> t_messages db"
  proof -
    obtain mq key where mq: "MqMessage_ParseFromArray rt (k_payload m) = Some mq" "k_key m = Some key"
      using assms(2) ch by (auto simp: MySQLHandle_def split: option.splits)
    have "has_message coll db1 (ProtoResp_msgid (MqMessage_handle_result mq))"
      using assms(2) ch mq
      by (auto simp: MySQLHandle_def insert_messages_def has_message_def msgid_of_def
          split: if_splits option.splits dest!: insert_box_messages)
    then show ?thesis using MySQLHandle_seen [OF mq(1)] mq(2) by simp
  qed
  then show ?thesis using MySQLHandle_inv [OF assms] by blast
qed

definition ex_kmsg :: kmsg where
  "ex_kmsg = \<lparr>k_err = ERR_NO_ERROR, k_key = Some ''1700000000000_7_abcdEFGH'',
     k_payload = MqMessage_InternalSerialize wire_rt ex_mq\<rparr>"

lemma ex_kmsg_parse: "MqMessage_ParseFromArray wire_rt (k_payload ex_kmsg) = Some ex_mq"
  using pb_runtime.MqMessage_roundtrip [OF wire.pb_runtime_axioms ex_mq_wf ex_mq_size] by (simp add: ex_kmsg_def MqMessage_ParseFromArray_def)

lemma ex_kmsg_key: "k_key ex_kmsg = Some ''1700000000000_7_abcdEFGH''"
  by (simp add: ex_kmsg_def)

lemma ex_mq_fields: "ProtoResp_msgid (MqMessage_handle_result ex_mq) = ''1700000000000_7_abcdEFGH''"
  "ProtoReq_to_id (MqMessage_origin_req ex_mq) = 9" "ProtoReq_from_uid (MqMessage_origin_req ex_mq) = 7"
  "ProtoReq_type (MqMessage_origin_req ex_mq) = TypeFriendMsg"
  by (simp_all add: ex_mq_def ex_resp_def ex_req_def MqMessage_handle_result_def MqMessage_origin_req_def ProtoResp_msgid_def)

definition box_db :: ychat_db where
  "box_db = \<lparr>t_user = [7, 9], t_friend = [], t_friend_action_log = [],
     t_group_member = [\<lparr>mr_group_id = 5, mr_user_id = 7, mr_join_time = 1\<rparr>, \<lparr>mr_group_id = 5, mr_user_id = 9, mr_join_time = 2\<rparr>],
     t_messages = [], t_user_box = [], t_group_box = []\<rparr>"

lemma box_db_partial:
  "MySQLHandle wire_rt id (\<lambda>i. i = 1) ex_kmsg box_db =
     Handled (box_db\<lparr>t_messages := [(''1700000000000_7_abcdEFGH'', k_payload ex_kmsg)]\<rparr>)"
  by (simp add: MySQLHandle_def ex_kmsg_parse ex_kmsg_key ex_mq_fields insert_messages_def box_db_def msgid_of_def)

theorem mysql_handle_keys_witness:
  "let db1 = box_db\<lparr>t_messages := [(''1700000000000_7_abcdEFGH'', k_payload ex_kmsg)]\<rparr>
   in t_user_box db1 = [] \<and> boxes_inv id db1 \<and> MySQLHandle wire_rt id (\<lambda>i. False) ex_kmsg db1 = Handled db1"
proof -
  have "boxes_inv id box_db" by (simp add: boxes_inv_def box_db_def)
  from mysql_handle_keys [OF this box_db_partial, of "\<lambda>i. False"] show ?thesis by (simp add: Let_def box_db_def)
qed

text \<open>Without faults a new message of two known users is stored with its payload and entered in the
  receiver's box once, unless another message of the same sender to the same receiver carries the same
  millisecond: then it is stored and never entered.\<close>

theorem mysql_user_message:
  assumes "MqMessage_ParseFromArray rt (k_payload m) = Some mq" and "k_key m = Some (ProtoResp_msgid (MqMessage_handle_result mq))"
    and "\<not> is_send_to_group mq" and "\<not> has_message coll db (ProtoResp_msgid (MqMessage_handle_result mq))"
    and "ProtoReq_from_uid (MqMessage_origin_req mq) \<in> set (t_user db)" and "ProtoReq_to_id (MqMessage_origin_req mq) \<in> set (t_user db)"
    and "\<And>i. \<not> fl i"
  shows "\<exists>db'. MySQLHandle rt coll fl m db = Handled db' \<and>
    t_messages db' = t_messages db @ [(ProtoResp_msgid (MqMessage_handle_result mq), k_payload m)] \<and>
    t_user_box db' = t_user_box db @
      (if \<exists>r \<in> set (t_user_box db). ub_from_uid r = ProtoReq_from_uid (MqMessage_origin_req mq) \<and>
            ub_to_uid r = ProtoReq_to_id (MqMessage_origin_req mq) \<and>
            ub_sendtime r = ProtoResp_timestamp (MqMessage_handle_result mq) then []
       else [\<lparr>ub_from_uid = ProtoReq_from_uid (MqMessage_origin_req mq), ub_to_uid = ProtoReq_to_id (MqMessage_origin_req mq),
              ub_sendtime = ProtoResp_timestamp (MqMessage_handle_result mq),
              ub_msgid = ProtoResp_msgid (MqMessage_handle_result mq)\<rparr>])"
  using assms by (simp add: MySQLHandle_def insert_messages_def insert_box_def insert_user_box_def has_message_def msgid_of_def Let_def
      list_ex_iff) blast

theorem mysql_user_message_witness:
  "\<exists>db'. MySQLHandle wire_rt id (\<lambda>i. False) ex_kmsg box_db = Handled db' \<and> length (t_user_box db') = 1"
proof -
  have "k_key ex_kmsg = Some (ProtoResp_msgid (MqMessage_handle_result ex_mq))" "\<not> is_send_to_group ex_mq"
    "\<not> has_message id box_db (ProtoResp_msgid (MqMessage_handle_result ex_mq))"
    by (simp_all add: ex_kmsg_def ex_mq_fields is_send_to_group_def has_message_def box_db_def)
  from mysql_user_message [OF ex_kmsg_parse this, of "\<lambda>i. False"] show ?thesis by (auto simp: ex_mq_fields box_db_def)
qed

text \<open>However the pool threads order the deliveries, a user's messages get consecutive sequence numbers from
  the user's counter on, and each stays in the user's inbox under its own number.\<close>

theorem inbox_consecutive:
  assumes "redis_server R" and "deliveries R ds st = Some st'" and "seq_at R (t_store st) u b"
    and "list_all (\<lambda>(f, m, v). \<not> f) ds" and "sint b + int (length ds) < 2 ^ 63"
  shows "\<exists>new. pushes st' = pushes st @ new \<and> map (\<lambda>p. (PushReq_message p, PushReq_to_uid p)) new = map snd ds \<and>
    map PushReq_seq (filter (\<lambda>p. PushReq_to_uid p = u) new) =
      map (\<lambda>i. b + 1 + of_nat i) [0..<length (filter (\<lambda>(f, m, v). v = u) ds)] \<and>
    (\<forall>p \<in> set new. PushReq_to_uid p = u \<longrightarrow>
       c_inbox st' (u, PushReq_seq p) = Some (c_str (ProtoResp_msgid (MqMessage_handle_result (PushReq_message p)))))"
proof -
  obtain new where new: "pushes st' = pushes st @ new" "map (\<lambda>p. (PushReq_message p, PushReq_to_uid p)) new = map snd ds"
    "map PushReq_seq (filter (\<lambda>p. PushReq_to_uid p = u) new) =
       map (\<lambda>i. b + 1 + of_nat i) [0..<length (filter (\<lambda>(f, m, v). v = u) ds)]"
    using redis_server.deliveries_spec [OF assms(1,2)] assms(3,5) by blast
  then show ?thesis using redis_server.deliveries_inbox [OF assms(1,2,3,4,5) new(1)] by blast
qed

definition transfer0 :: "mem transfer_state" where
  "transfer0 = \<lparr>c_messages = (\<lambda>k. None), c_inbox = (\<lambda>k. None), c_pool = \<lparr>pool = [Some 0], is_stop = False\<rparr>,
     t_store = mem_empty, pushes = [], tasks = []\<rparr>"

lemma transfer0_ready: "sessions_ready transfer0"
  by (simp add: transfer0_def sessions_ready_def pool_live_def)

theorem inbox_consecutive_witness:
  "\<exists>st'. deliveries mem_redis [(False, ex_mq, 9), (False, ex_mq, 7), (False, ex_mq, 9)] transfer0 = Some st' \<and>
     map PushReq_seq (filter (\<lambda>p. PushReq_to_uid p = 9) (pushes st')) = [1, 2]"
proof -
  let ?ds = "[(False, ex_mq, 9), (False, ex_mq, 7), (False, ex_mq, 9)]"
  obtain st' where st': "deliveries mem_redis ?ds transfer0 = Some st'" using deliveries_ready [OF transfer0_ready] by blast
  have "seq_at mem_redis (t_store transfer0) 9 0" by (simp add: seq_at_def transfer0_def mem_redis_def mem_empty_def)
  from inbox_consecutive [OF mem.redis_server_axioms st' this] st' show ?thesis
    by (auto simp: transfer0_def upt_rec)
qed

text \<open>A group message is stored under its id, and once the queued tasks have run every user who had joined
  the group by its timestamp, and nobody else, has been pushed exactly that message.\<close>

theorem group_fanout:
  assumes "redis_server R" and "MqMessage_ParseFromArray rt (k_payload m) = Some mq"
    and "k_key m = Some (ProtoResp_msgid (MqMessage_handle_result mq))" and "is_send_to_group mq"
    and "sessions_ready st" and "\<not> cf 0" and "tasks st = []"
  shows "\<exists>st1 st2. CassandraHandle rt R cf False db m st = Handled (Some st1) \<and>
    deliveries R (map (\<lambda>(x, u). (False, x, u)) (tasks st1)) st1 = Some st2 \<and>
    c_messages st2 (c_str (ProtoResp_msgid (MqMessage_handle_result mq))) = Some (k_payload m) \<and>
    (\<exists>new. pushes st2 = pushes st @ new \<and> map PushReq_message new = replicate (length new) mq \<and>
       map PushReq_to_uid new = members_at db (ProtoReq_to_id (MqMessage_origin_req mq))
         (ProtoResp_timestamp (MqMessage_handle_result mq)))"
proof -
  let ?id = "ProtoResp_msgid (MqMessage_handle_result mq)"
  let ?us = "members_at db (ProtoReq_to_id (MqMessage_origin_req mq)) (ProtoResp_timestamp (MqMessage_handle_result mq))"
  have "AsyncWriteMessages (cf 0) ?id (k_payload m) st \<noteq> None"
    unfolding AsyncWriteMessages_def by (rule cass_execute_ready [OF assms(5)])
  then obtain st0 where w: "AsyncWriteMessages (cf 0) ?id (k_payload m) st = Some st0" by blast
  from w [unfolded AsyncWriteMessages_def messages_stmt_def] assms(6,7)
  have st0: "c_messages st0 (c_str ?id) = Some (k_payload m)" "pushes st0 = pushes st" "tasks st0 = []"
    "sessions_ready st0"
    using assms(5) by (auto elim!: cass_execute_Some)
  let ?st1 = "st0\<lparr>tasks := map (\<lambda>u. (mq, u)) ?us\<rparr>"
  let ?ds = "map (\<lambda>(x, u). (False, x, u)) (map (\<lambda>u. (mq, u)) ?us)"
  have h: "CassandraHandle rt R cf False db m st = Handled (Some ?st1)"
    using assms(2-4) w st0(3) by (simp add: CassandraHandle_def)
  obtain st2 where d: "deliveries R ?ds ?st1 = Some st2" using deliveries_ready [of ?st1 R ?ds] st0 by (auto simp: sessions_ready_def)
  obtain new where new: "pushes st2 = pushes st0 @ new"
    "map (\<lambda>p. (PushReq_message p, PushReq_to_uid p)) new = map snd ?ds" "c_messages st2 = c_messages st0"
    using redis_server.deliveries_spec [OF assms(1) d] by auto
  have "map PushReq_message new = map fst (map (\<lambda>p. (PushReq_message p, PushReq_to_uid p)) new)"
    "map PushReq_to_uid new = map snd (map (\<lambda>p. (PushReq_message p, PushReq_to_uid p)) new)" by simp_all
  then have "map PushReq_message new = map (\<lambda>u. mq) ?us" "map PushReq_to_uid new = ?us"
    unfolding new(2) by (simp_all add: comp_def)
  moreover from this have "length new = length ?us" by (metis length_map)
  ultimately show ?thesis using h d new st0 by (intro exI [of _ ?st1] exI [of _ st2]) (simp add: map_replicate_const)
qed

definition ex_gmq :: MqMessage where
  "ex_gmq = ex_mq\<lparr>MqMessage_origin_req_ptr := Some (ex_req\<lparr>ProtoReq_type := TypeGroupMsg, ProtoReq_to_id := 5\<rparr>)\<rparr>"

lemma ex_gmq_parse: "MqMessage_ParseFromArray wire_rt (MqMessage_InternalSerialize wire_rt ex_gmq) = Some ex_gmq"
proof -
  have "MqMessage_wf wire_rt ex_gmq" using ex_mq_wf
    by (simp add: ex_gmq_def ex_mq_def MqMessage_wf_def ProtoReq_wf_def)
  moreover have "MqMessage_ByteSizeLong wire_rt ex_gmq < pb_max"
    by (simp add: MqMessage_ByteSizeLong_def ProtoReq_ByteSizeLong_def ProtoReq_data_size_def FriendMsg_ByteSizeLong_def
        ProtoResp_ByteSizeLong_def ex_gmq_def ex_mq_def ex_req_def ex_resp_def wire_rt_def sext_def varint.simps pb_max_def)
  ultimately show ?thesis
    using pb_runtime.MqMessage_roundtrip [OF wire.pb_runtime_axioms] by (simp add: MqMessage_ParseFromArray_def)
qed

lemma ex_gmq_fields: "ProtoResp_msgid (MqMessage_handle_result ex_gmq) = ''1700000000000_7_abcdEFGH''"
  "ProtoReq_to_id (MqMessage_origin_req ex_gmq) = 5" "ProtoReq_type (MqMessage_origin_req ex_gmq) = TypeGroupMsg"
  "ProtoResp_timestamp (MqMessage_handle_result ex_gmq) = 1700000000000"
  by (simp_all add: ex_gmq_def ex_mq_def ex_resp_def ex_req_def MqMessage_handle_result_def MqMessage_origin_req_def
      ProtoResp_msgid_def ProtoResp_timestamp_def)

theorem group_fanout_witness:
  "\<exists>st1 st2. CassandraHandle wire_rt mem_redis (\<lambda>i. False) False box_db (ex_kmsg\<lparr>k_payload := MqMessage_InternalSerialize wire_rt ex_gmq\<rparr>)
       transfer0 = Handled (Some st1) \<and>
     deliveries mem_redis (map (\<lambda>(x, u). (False, x, u)) (tasks st1)) st1 = Some st2 \<and>
     map PushReq_to_uid (pushes st2) = [7, 9]"
proof -
  have m: "members_at box_db 5 1700000000000 = [7, 9]" by (simp add: members_at_def box_db_def)
  from group_fanout [OF mem.redis_server_axioms, of wire_rt "ex_kmsg\<lparr>k_payload := MqMessage_InternalSerialize wire_rt ex_gmq\<rparr>"
      ex_gmq transfer0 "\<lambda>i. False" box_db] transfer0_ready m
  show ?thesis by (simp add: ex_gmq_parse ex_gmq_fields ex_kmsg_key is_send_to_group_def) (auto simp: transfer0_def)
qed

text \<open>A successful push is meant to remove the message from the inbox. The statement names a column the table does
  not have, so the inbox never changes.\<close>

lemma delete_stmt_none [simp]: "delete_stmt fails u seq st = st"
  by (simp add: delete_stmt_def cql_columns_ok_def user_inbox_columns_def)

lemma push_success_keeps_inbox: "OnPushSuccess fails u seq st = Some st' \<Longrightarrow> c_inbox st' = c_inbox st"
  unfolding OnPushSuccess_def by (erule cass_execute_Some) (simp add: delete_stmt_none)

end
