(* ===== verification/Consumer.thy ===== *)
theory Consumer
  imports TransferSrv ThreadPool
begin

text \<open>
  \<open>transfer/kafka_consumer.cc\<close>: the polling loop \<open>Consumer::Run\<close>, which hands every polled message to the thread
  pool, and \<open>Consume\<close>, which the workers run. \<open>consumer_step\<close> is every interleaving of the loop with the workers;
  the loop's test of \<open>stop_\<close> and its \<open>consume\<close> are separate steps, so a worker may set the flag in between. A
  handler, or another thread, may itself enqueue tasks in the consumer's pool, as \<open>CassandraHandle\<close> and the completion
  thread of \<open>PushClient\<close> do. The pool is the
  one of \<open>ThreadPool\<close>, and every step of the consumer is a run of it. \<open>c_polled\<close> and \<open>c_handled\<close> are ghost logs:
  the messages polled, and the messages for which the handler has returned.
\<close>

section \<open>Definitions\<close>

datatype 'h ktask = ConsumeTask kmsg | HandlerTask 'h

datatype run_point = Testing | Polling | Closed

record 'h consumer =
  c_stop :: bool
  c_point :: run_point
  c_threads :: "'h ktask ThreadPool"
  c_polled :: "kmsg list"
  c_handled :: "kmsg list"

definition consumer_new :: "nat \<Rightarrow> 'h consumer" where
  "consumer_new threads =
     \<lparr>c_stop = False, c_point = Testing, c_threads = ThreadPool_new threads, c_polled = [], c_handled = []\<rparr>"

definition Consume :: "kmsg \<Rightarrow> 'h consumer \<Rightarrow> 'h consumer" where
  "Consume message c =
     (case k_err message of
        ERR_TIMED_OUT \<Rightarrow> c
      | ERR_NO_ERROR \<Rightarrow> c\<lparr>c_handled := c_handled c @ [message]\<rparr>
      | ERR_PARTITION_EOF \<Rightarrow> c
      | ERR_UNKNOWN_TOPIC \<Rightarrow> c\<lparr>c_stop := True\<rparr>
      | ERR_UNKNOWN_PARTITION \<Rightarrow> c\<lparr>c_stop := True\<rparr>
      | ERR_OTHER \<Rightarrow> c\<lparr>c_stop := True\<rparr>)"

definition run_test :: "'h consumer \<Rightarrow> 'h consumer" where
  "run_test c = c\<lparr>c_point := (if c_stop c then Closed else Polling)\<rparr>"

definition run_poll :: "kmsg \<Rightarrow> 'h consumer \<Rightarrow> tp_error + 'h consumer" where
  "run_poll msg c =
     (case Enqueue (c_threads c) (ConsumeTask msg) of
        Inl e \<Rightarrow> Inl e
      | Inr p \<Rightarrow> Inr (c\<lparr>c_threads := p, c_polled := c_polled c @ [msg], c_point := Testing\<rparr>))"

text \<open>Worker \<open>i\<close> returns from its task, with the effect of \<open>Consume\<close> when the task is one of the loop's.\<close>

fun run_ktask :: "nat \<Rightarrow> 'h ktask \<Rightarrow> 'h consumer \<Rightarrow> 'h consumer" where
  "run_ktask i (ConsumeTask m) c = (Consume m c)\<lparr>c_threads := worker_done (c_threads c) i (ConsumeTask m)\<rparr>"
| "run_ktask i (HandlerTask h) c = c\<lparr>c_threads := worker_done (c_threads c) i (HandlerTask h)\<rparr>"

inductive consumer_step :: "'h consumer \<Rightarrow> 'h consumer \<Rightarrow> bool" where
  cs_test: "c_point c = Testing \<Longrightarrow> consumer_step c (run_test c)"
| cs_poll: "c_point c = Polling \<Longrightarrow> run_poll m c = Inr c' \<Longrightarrow> consumer_step c c'"
| cs_take: "i < length (workers (c_threads c)) \<Longrightarrow> workers (c_threads c) ! i = Looping \<Longrightarrow>
    worker_take (c_threads c) i = Some p \<Longrightarrow> consumer_step c (c\<lparr>c_threads := p\<rparr>)"
| cs_run: "i < length (workers (c_threads c)) \<Longrightarrow> workers (c_threads c) ! i = Running t \<Longrightarrow>
    consumer_step c (run_ktask i t c)"
| cs_spawn: "Enqueue (c_threads c) (HandlerTask h) = Inr p \<Longrightarrow> consumer_step c (c\<lparr>c_threads := p\<rparr>)"
| cs_destroy: "c_point c = Closed \<Longrightarrow> consumer_step c (c\<lparr>c_threads := destroy (c_threads c)\<rparr>)"

definition fatal :: "kmsg \<Rightarrow> bool" where
  "fatal m \<longleftrightarrow> k_err m \<in> {ERR_UNKNOWN_TOPIC, ERR_UNKNOWN_PARTITION, ERR_OTHER}"

definition no_error :: "kmsg \<Rightarrow> bool" where
  "no_error m \<longleftrightarrow> k_err m = ERR_NO_ERROR"

fun kmsg_of :: "'h ktask \<Rightarrow> kmsg list" where
  "kmsg_of (ConsumeTask m) = [m]"
| "kmsg_of (HandlerTask h) = []"

abbreviation kmsgs :: "'h ktask list \<Rightarrow> kmsg list" where
  "kmsgs ts \<equiv> concat (map kmsg_of ts)"

section \<open>Invariant\<close>

lemma Consume_cases: "Consume m c = (if fatal m then c\<lparr>c_stop := True\<rparr>
    else if no_error m then c\<lparr>c_handled := c_handled c @ [m]\<rparr> else c)"
  by (simp add: Consume_def fatal_def no_error_def split: kafka_err.split)

lemma fatal_no_error [simp]: "fatal m \<Longrightarrow> \<not> no_error m"
  by (auto simp: fatal_def no_error_def)

lemma Consume_keeps [simp]: "c_threads (Consume m c) = c_threads c" "c_polled (Consume m c) = c_polled c"
    "c_point (Consume m c) = c_point c"
  by (simp_all add: Consume_cases)

lemma run_ktask_pool [simp]: "c_threads (run_ktask i t c) = worker_done (c_threads c) i t"
    "c_polled (run_ktask i t c) = c_polled c" "c_point (run_ktask i t c) = c_point c"
  by (cases t; simp)+

lemma consumer_step_pool: "consumer_step c c' \<Longrightarrow> tp_step\<^sup>*\<^sup>* (c_threads c) (c_threads c')"
proof (induction rule: consumer_step.induct)
  case (cs_test c)
  then show ?case by (simp add: run_test_def)
next
  case (cs_poll c m c')
  then show ?case by (auto simp: run_poll_def split: sum.splits intro!: r_into_rtranclp tp_enqueue)
next
  case (cs_take i c p)
  then show ?case by (auto intro!: r_into_rtranclp tp_worker ws_take)
next
  case (cs_run i c t)
  then show ?case by (auto intro!: r_into_rtranclp tp_worker ws_done)
next
  case (cs_spawn c h p)
  then show ?case by (auto intro!: r_into_rtranclp tp_enqueue)
next
  case (cs_destroy c)
  then show ?case by (auto intro!: r_into_rtranclp tp_destroy)
qed

lemma consumer_reach_pool: "consumer_step\<^sup>*\<^sup>* (consumer_new n) c \<Longrightarrow> tp_step\<^sup>*\<^sup>* (ThreadPool_new n) (c_threads c)"
  by (induction rule: rtranclp_induct) (auto simp: consumer_new_def dest: consumer_step_pool)

definition consumer_inv :: "'h consumer \<Rightarrow> bool" where
  "consumer_inv c \<longleftrightarrow> kmsgs (accepted (c_threads c)) = c_polled c \<and>
     c_handled c = filter no_error (kmsgs (finished (c_threads c))) \<and>
     (c_stop c \<longleftrightarrow> list_ex fatal (kmsgs (finished (c_threads c))))"

lemma consumer_step_inv: "consumer_step c c' \<Longrightarrow> consumer_inv c \<Longrightarrow> consumer_inv c'"
proof (induction rule: consumer_step.induct)
  case (cs_test c)
  then show ?case by (simp add: run_test_def consumer_inv_def)
next
  case (cs_poll c m c')
  then show ?case by (auto simp: run_poll_def Enqueue_def consumer_inv_def split: sum.splits if_splits)
next
  case (cs_take i c p)
  then show ?case by (auto simp: worker_take_def consumer_inv_def split: if_splits)
next
  case (cs_run i c t)
  then show ?case by (cases t) (auto simp: worker_done_def consumer_inv_def Consume_cases)
next
  case (cs_spawn c h p)
  then show ?case by (auto simp: Enqueue_def consumer_inv_def split: if_splits)
next
  case (cs_destroy c)
  then show ?case by (simp add: destroy_def consumer_inv_def)
qed

lemma consumer_reach_inv: "consumer_step\<^sup>*\<^sup>* (consumer_new n) c \<Longrightarrow> consumer_inv c"
proof (induction rule: rtranclp_induct)
  case base
  show ?case by (simp add: consumer_new_def consumer_inv_def ThreadPool_new_def)
qed (rule consumer_step_inv)

section \<open>After the stop flag\<close>

text \<open>Polls the loop can still make once the flag is set.\<close>

definition polls_left :: "'h consumer \<Rightarrow> nat" where
  "polls_left c = (if c_point c = Polling then 1 else 0)"

lemma consumer_step_stopped:
  "consumer_step c c' \<Longrightarrow> c_stop c \<Longrightarrow>
     c_stop c' \<and> length (c_polled c') + polls_left c' = length (c_polled c) + polls_left c"
proof (induction rule: consumer_step.induct)
  case (cs_test c)
  then show ?case by (simp add: run_test_def polls_left_def)
next
  case (cs_poll c m c')
  then show ?case by (auto simp: run_poll_def polls_left_def split: sum.splits)
next
  case (cs_run i c t)
  then show ?case by (cases t) (auto simp: Consume_cases polls_left_def)
qed (auto simp: polls_left_def)

lemma consumer_reach_stopped:
  "consumer_step\<^sup>*\<^sup>* c c' \<Longrightarrow> c_stop c \<Longrightarrow>
     c_stop c' \<and> length (c_polled c') + polls_left c' = length (c_polled c) + polls_left c"
  by (induction rule: rtranclp_induct) (auto dest: consumer_step_stopped)

section \<open>Properties\<close>

lemma mset_kmsgs_mono: "mset as = mset bs + C \<Longrightarrow> mset (kmsgs bs) \<subseteq># mset (kmsgs as)"
proof -
  have kmsgs: "mset (kmsgs ts) = (\<Sum>t\<in>#mset ts. mset (kmsg_of t))" for ts :: "'h ktask list"
    by (induction ts) auto
  assume "mset as = mset bs + C"
  then show ?thesis by (simp add: kmsgs)
qed

lemma mset_kmsgs_cong: "mset as = mset bs \<Longrightarrow> mset (kmsgs as) = mset (kmsgs bs)"
  using mset_kmsgs_mono [of as bs "{#}"] mset_kmsgs_mono [of bs as "{#}"] by (simp add: subset_mset.antisym)

lemma consumer_dry:
  assumes "consumer_inv c" and "tp_inv (c_threads c)" and "idle (c_threads c)"
  shows "mset (c_handled c) = mset (filter no_error (c_polled c))" and "c_stop c \<longleftrightarrow> list_ex fatal (c_polled c)"
proof -
  have "kmsgs (accepted (c_threads c)) = c_polled c" using assms(1) by (simp add: consumer_inv_def)
  moreover have "mset (finished (c_threads c)) = mset (accepted (c_threads c))"
    using assms(2,3) by (simp add: tp_inv_def idle_concat)
  ultimately have eq: "mset (c_polled c) = mset (kmsgs (finished (c_threads c)))"
    using mset_kmsgs_cong by metis
  show "mset (c_handled c) = mset (filter no_error (c_polled c))" "c_stop c \<longleftrightarrow> list_ex fatal (c_polled c)"
    using assms(1) eq mset_eq_setD [OF eq] by (simp_all add: consumer_inv_def list_ex_iff)
qed

section \<open>Processes that run the consumer\<close>

text \<open>A process whose steps, seen at its consumer, are steps of the consumer or none.\<close>

locale consumer_process =
  fixes step :: "'s \<Rightarrow> 's \<Rightarrow> bool" and con :: "'s \<Rightarrow> 'h consumer"
  assumes step_consumer: "step s s' \<Longrightarrow> consumer_step\<^sup>=\<^sup>= (con s) (con s')"
begin

lemma steps_consumer: "step\<^sup>*\<^sup>* s s' \<Longrightarrow> consumer_step\<^sup>*\<^sup>* (con s) (con s')"
proof (induction rule: rtranclp_induct)
  case (step t u)
  then show ?case using step_consumer [OF step(2)] by (auto intro: rtranclp.rtrancl_into_rtrancl)
qed simp

lemma reach_inv:
  assumes "step\<^sup>*\<^sup>* s0 s" and "con s0 = consumer_new n"
  shows "tp_inv (c_threads (con s))" and "length (workers (c_threads (con s))) = n" and "consumer_inv (con s)"
proof -
  have c: "consumer_step\<^sup>*\<^sup>* (consumer_new n) (con s)" using steps_consumer [OF assms(1)] assms(2) by simp
  from consumer_reach_pool [OF this] show "tp_inv (c_threads (con s))" "length (workers (c_threads (con s))) = n"
    by (rule tp_reach_inv, rule tp_reach_length)
  from c show "consumer_inv (con s)" by (rule consumer_reach_inv)
qed

lemma running_polled:
  assumes "step\<^sup>*\<^sup>* s0 s" and "con s0 = consumer_new n"
    and "i < length (workers (c_threads (con s)))" and "workers (c_threads (con s)) ! i = Running (ConsumeTask m)"
  shows "m \<in> set (c_polled (con s))"
proof -
  let ?p = "c_threads (con s)"
  note inv = reach_inv [OF assms(1,2)]
  have "ConsumeTask m \<in> set (concat (map running (workers ?p)))" using nth_mem [OF assms(3)] assms(4) by force
  moreover have "set (started ?p) = set (finished ?p) \<union> set (concat (map running (workers ?p)))"
    using inv(1) by (metis set_mset_mset set_mset_union tp_inv_def)
  ultimately have "ConsumeTask m \<in> set (accepted ?p)" using inv(1) by (simp add: tp_inv_def)
  then have "m \<in> set (kmsgs (accepted ?p))" by force
  then show ?thesis using inv(3) unfolding consumer_inv_def by metis
qed

end

section \<open>The consumer\<close>

text \<open>C37. In every interleaving of the polling loop with the workers: messages are taken up in the order they were
  polled; the handler gets only messages without error and none more often than it was polled; the consumer stops
  exactly when a message with a fatal error has been processed, and polls at most one more message afterwards; and when
  the pool has run dry, exactly the polled messages without error have been handled, each once, also those that were
  polled after a fatal one.\<close>

theorem consumer_handles:
  assumes "consumer_step\<^sup>*\<^sup>* (consumer_new n) c"
  shows "(\<exists>later. c_polled c = kmsgs (started (c_threads c)) @ later) \<and>
    mset (c_handled c) \<subseteq># mset (filter no_error (c_polled c)) \<and>
    (c_stop c \<longrightarrow> list_ex fatal (c_polled c)) \<and>
    (c_stop c \<longrightarrow> (\<forall>c'. consumer_step\<^sup>*\<^sup>* c c' \<longrightarrow> c_stop c' \<and> length (c_polled c') \<le> Suc (length (c_polled c)))) \<and>
    (tasks (c_threads c) = [] \<and> concat (map running (workers (c_threads c))) = [] \<longrightarrow>
       mset (c_handled c) = mset (filter no_error (c_polled c)) \<and> (c_stop c \<longleftrightarrow> list_ex fatal (c_polled c)))"
proof -
  have inv: "consumer_inv c" and tp: "tp_inv (c_threads c)"
    using consumer_reach_inv [OF assms] tp_reach_inv [OF consumer_reach_pool [OF assms]] by simp_all
  have acc: "accepted (c_threads c) = started (c_threads c) @ tasks (c_threads c)"
    and st: "mset (started (c_threads c)) = mset (finished (c_threads c)) + mset (concat (map running (workers (c_threads c))))"
    using tp by (simp_all add: tp_inv_def)
  have pol: "c_polled c = kmsgs (started (c_threads c)) @ kmsgs (tasks (c_threads c))"
    using inv by (simp add: consumer_inv_def acc [symmetric] flip: map_append concat_append)
  have sub: "mset (kmsgs (finished (c_threads c))) \<subseteq># mset (c_polled c)"
    using mset_kmsgs_mono [OF st] by (simp add: pol subset_mset.add_increasing2)
  have handled: "mset (c_handled c) \<subseteq># mset (filter no_error (c_polled c))"
    using inv sub by (simp add: consumer_inv_def multiset_filter_mono)
  have stop: "c_stop c \<longrightarrow> list_ex fatal (c_polled c)"
    using inv set_mset_mono [OF sub] by (auto simp: consumer_inv_def list_ex_iff)
  have last: "length (c_polled c') \<le> Suc (length (c_polled c)) \<and> c_stop c'"
    if "consumer_step\<^sup>*\<^sup>* c c'" "c_stop c" for c'
    using consumer_reach_stopped [OF that] by (auto simp: polls_left_def split: if_splits)
  have dry: "mset (c_handled c) = mset (filter no_error (c_polled c)) \<and> (c_stop c \<longleftrightarrow> list_ex fatal (c_polled c))"
    if "tasks (c_threads c) = []" "concat (map running (workers (c_threads c))) = []"
    using consumer_dry [OF inv tp] that by (simp add: idle_concat)
  show ?thesis using pol handled stop last dry by blast
qed

text \<open>One worker, one message: polled, taken up and handled.\<close>

definition ex_polled :: kmsg where
  "ex_polled = \<lparr>k_err = ERR_NO_ERROR, k_key = Some ''k'', k_payload = ''p''\<rparr>"

definition ex_consumer :: "unit consumer" where
  "ex_consumer = \<lparr>c_stop = False, c_point = Testing,
     c_threads = \<lparr>workers = [Looping], tasks = [], stop = False, accepted = [ConsumeTask ex_polled],
       started = [ConsumeTask ex_polled], finished = [ConsumeTask ex_polled]\<rparr>,
     c_polled = [ex_polled], c_handled = [ex_polled]\<rparr>"

lemma ex_consumer_reached: "consumer_step\<^sup>*\<^sup>* (consumer_new 1) ex_consumer"
proof -
  let ?p = "\<lambda>w ts a b. \<lparr>workers = [w], tasks = ts, stop = False, accepted = a, started = b, finished = []\<rparr> :: unit ktask ThreadPool"
  let ?t = "ConsumeTask ex_polled"
  let ?c = "\<lambda>pt p ms. \<lparr>c_stop = False, c_point = pt, c_threads = p, c_polled = ms, c_handled = []\<rparr> :: unit consumer"
  have "consumer_step\<^sup>*\<^sup>* (consumer_new 1) (?c Polling (?p Looping [] [] []) [])"
    using r_into_rtranclp [of consumer_step, OF cs_test, of "consumer_new 1"]
    by (simp add: run_test_def consumer_new_def ThreadPool_new_def)
  also have "consumer_step\<^sup>*\<^sup>* \<dots> (?c Testing (?p Looping [?t] [?t] []) [ex_polled])"
    by (rule r_into_rtranclp, rule cs_poll [where m = ex_polled]) (simp_all add: run_poll_def Enqueue_def)
  also have "consumer_step\<^sup>*\<^sup>* \<dots> (?c Testing (?p (Running ?t) [] [?t] [?t]) [ex_polled])"
    using r_into_rtranclp [of consumer_step, OF cs_take, of 0 "?c Testing (?p Looping [?t] [?t] []) [ex_polled]"
        "?p (Running ?t) [] [?t] [?t]"] by (simp add: worker_take_def)
  also have "consumer_step\<^sup>*\<^sup>* \<dots> ex_consumer"
    using r_into_rtranclp [of consumer_step, OF cs_run, of 0 "?c Testing (?p (Running ?t) [] [?t] [?t]) [ex_polled]" ?t]
    by (simp add: ex_consumer_def worker_done_def Consume_def ex_polled_def)
  finally show ?thesis .
qed

theorem consumer_handles_witness:
  "mset (c_handled ex_consumer) = mset (filter no_error (c_polled ex_consumer)) \<and> \<not> c_stop ex_consumer \<and>
   no_error ex_polled"
  using consumer_handles [OF ex_consumer_reached] by (simp add: ex_consumer_def no_error_def ex_polled_def)

end
