(* ===== verification/Delivery.thy ===== *)
theory Delivery
  imports TransferSrv "HOL-Library.Multiset"
begin

text \<open>
  The deliveries of the Cassandra transfer server as its threads make them (\<open>CassandraHandle\<close> and its pool tasks in
  \<open>transfer/cassandra/main.cc\<close>). A delivery is three calls: \<open>HINCRBY\<close> for the sequence number, \<open>AsyncWriteInbox\<close>, and
  \<open>AsyncPush\<close>; those of different threads interleave in every order (\<open>delivery_step\<close>), also with the
  handlers that store messages. One after the other they are
  \<open>deliver_to\<close>. The promise is a mailbox: every user has a list of messages, a delivery appends to one. The mailbox is
  refined by the order in which numbers are handed out, and the inbox table read by sequence number is the mailbox.
\<close>

section \<open>Definitions\<close>

text \<open>Where a delivery stands; the flag of a made write says whether Cassandra failed it.\<close>

datatype d_pc = DStart | DNumbered int64 | DWritten bool int64 | DPushed bool int64

record delivery =
  d_msg :: MqMessage
  d_to :: uid
  d_pc :: d_pc

text \<open>The shared state, the deliveries the threads are at, and the numbers handed out so far.\<close>

type_synonym entry = "uid \<times> int64 \<times> MqMessage"

record 'r delivering =
  ts :: "'r transfer_state"
  dels :: "delivery list"
  dlog :: "entry list"

definition begin_delivery :: "MqMessage \<Rightarrow> uid \<Rightarrow> 'r delivering \<Rightarrow> 'r delivering" where
  "begin_delivery m u s = s\<lparr>dels := dels s @ [\<lparr>d_msg = m, d_to = u, d_pc = DStart\<rparr>]\<rparr>"

definition number_delivery :: "'r redis \<Rightarrow> nat \<Rightarrow> 'r delivering \<Rightarrow> 'r delivering" where
  "number_delivery R i s =
     (let d = dels s ! i;
          (seq, r) = r_hincrby R (t_store (ts s)) (redis_user_prefix @ fmt_u64 (d_to d)) ''seq'' 1
      in s\<lparr>ts := (ts s)\<lparr>t_store := r\<rparr>, dels := (dels s)[i := d\<lparr>d_pc := DNumbered seq\<rparr>],
           dlog := dlog s @ [(d_to d, seq, d_msg d)]\<rparr>)"

definition write_delivery :: "bool \<Rightarrow> nat \<Rightarrow> int64 \<Rightarrow> 'r delivering \<Rightarrow> 'r delivering option" where
  "write_delivery fails i seq s =
     (let d = dels s ! i in
      case AsyncWriteInbox fails (msgid_of (d_msg d)) (d_to d) seq (ts s) of
        None \<Rightarrow> None
      | Some t \<Rightarrow> Some (s\<lparr>ts := t, dels := (dels s)[i := d\<lparr>d_pc := DWritten fails seq\<rparr>]\<rparr>))"

definition push_delivery :: "nat \<Rightarrow> bool \<Rightarrow> int64 \<Rightarrow> 'r delivering \<Rightarrow> 'r delivering" where
  "push_delivery i fails seq s =
     (let d = dels s ! i in
      s\<lparr>ts := AsyncPush (d_msg d) (d_to d) seq (ts s), dels := (dels s)[i := d\<lparr>d_pc := DPushed fails seq\<rparr>]\<rparr>)"

inductive delivery_step :: "'r redis \<Rightarrow> 'r delivering \<Rightarrow> 'r delivering \<Rightarrow> bool" for R :: "'r redis" where
  dv_begin: "delivery_step R s (begin_delivery m u s)"
| dv_number: "i < length (dels s) \<Longrightarrow> d_pc (dels s ! i) = DStart \<Longrightarrow> delivery_step R s (number_delivery R i s)"
| dv_write: "i < length (dels s) \<Longrightarrow> d_pc (dels s ! i) = DNumbered q \<Longrightarrow> write_delivery f i q s = Some s' \<Longrightarrow>
     delivery_step R s s'"
| dv_store: "delivery_step R s (s\<lparr>ts := messages_stmt f k x (ts s)\<rparr>)"
| dv_push: "i < length (dels s) \<Longrightarrow> d_pc (dels s ! i) = DWritten f q \<Longrightarrow> delivery_step R s (push_delivery i f q s)"

definition delivering_start :: "'r transfer_state \<Rightarrow> 'r delivering" where
  "delivering_start t = \<lparr>ts = t, dels = [], dlog = []\<rparr>"

text \<open>One delivery alone is \<open>deliver_to\<close>.\<close>

lemma deliver_to_steps:
  "deliver_to R fails m u t =
     map_option (\<lambda>s. ts (push_delivery 0 fails (fst (r_hincrby R (t_store t) (redis_user_prefix @ fmt_u64 u) ''seq'' 1)) s))
       (write_delivery fails 0 (fst (r_hincrby R (t_store t) (redis_user_prefix @ fmt_u64 u) ''seq'' 1))
          (number_delivery R 0 (begin_delivery m u (delivering_start t))))"
  by (simp add: deliver_to_def begin_delivery_def delivering_start_def number_delivery_def write_delivery_def push_delivery_def
      msgid_of_def Let_def split: prod.split option.split)

section \<open>The mailbox\<close>

inductive mail_step :: "(uid \<Rightarrow> 'm list) \<Rightarrow> (uid \<Rightarrow> 'm list) \<Rightarrow> bool" where
  mail_append: "mail_step box (box(u := box u @ [m]))"

definition entries :: "uid \<Rightarrow> entry list \<Rightarrow> entry list" where
  "entries u es = filter (\<lambda>(v, q, m). v = u) es"

definition mailbox :: "entry list \<Rightarrow> uid \<Rightarrow> MqMessage list" where
  "mailbox es u = map (\<lambda>(v, q, m). m) (entries u es)"

lemma mailbox_append: "mail_step (mailbox es) (mailbox (es @ [(u, q, m)]))"
proof -
  have "mailbox (es @ [(u, q, m)]) = (mailbox es)(u := mailbox es u @ [m])"
    by (simp add: mailbox_def entries_def fun_eq_iff)
  then show ?thesis by (simp add: mail_append)
qed

lemma length_entries_le: "length (entries u es) \<le> length es"
  by (simp add: entries_def)

text \<open>What a delivery has taken from the counter, and whether its message is in the inbox.\<close>

definition seq_of :: "delivery \<Rightarrow> int64 option" where
  "seq_of d = (case d_pc d of DStart \<Rightarrow> None | DNumbered q \<Rightarrow> Some q | DWritten f q \<Rightarrow> Some q | DPushed f q \<Rightarrow> Some q)"

definition stored :: "delivery \<Rightarrow> bool" where
  "stored d = (case d_pc d of DWritten f q \<Rightarrow> \<not> f | DPushed f q \<Rightarrow> \<not> f | _ \<Rightarrow> False)"

definition entry_of :: "delivery \<Rightarrow> entry multiset" where
  "entry_of d = (case seq_of d of None \<Rightarrow> {#} | Some q \<Rightarrow> {#(d_to d, q, d_msg d)#})"

definition numbered :: "delivery list \<Rightarrow> entry multiset" where
  "numbered ds = (\<Sum>d \<in># mset ds. entry_of d)"

lemma numbered_append: "numbered (ds @ [d]) = numbered ds + entry_of d"
  by (simp add: numbered_def)

lemma sum_mset_update:
  fixes f :: "'a \<Rightarrow> 'b :: cancel_comm_monoid_add"
  assumes "i < length xs"
  shows "(\<Sum>x \<in># mset (xs[i := y]). f x) + f (xs ! i) = (\<Sum>x \<in># mset xs. f x) + f y"
proof -
  have "mset xs = add_mset (xs ! i) (mset xs - {#xs ! i#})" using assms by simp
  then have "(\<Sum>x \<in># mset xs. f x) = f (xs ! i) + (\<Sum>x \<in># mset xs - {#xs ! i#}. f x)"
    by (metis image_mset_add_mset sum_mset.add_mset)
  then show ?thesis using assms by (simp add: mset_update ac_simps)
qed

lemma numbered_update:
  assumes "i < length ds"
  shows "numbered (ds[i := d]) + entry_of (ds ! i) = numbered ds + entry_of d"
  unfolding numbered_def by (rule sum_mset_update [OF assms])

lemma numbered_same: "i < length ds \<Longrightarrow> entry_of d = entry_of (ds ! i) \<Longrightarrow> numbered (ds[i := d]) = numbered ds"
  using numbered_update [of i ds d] by simp

lemma numbered_member: "d \<in> set ds \<Longrightarrow> seq_of d = Some q \<Longrightarrow> (d_to d, q, d_msg d) \<in># numbered ds"
  by (auto simp: numbered_def entry_of_def split: option.splits intro!: bexI [of _ d])

lemma numbered_owner:
  assumes "(u, q, m) \<in># numbered ds"
  obtains d where "d \<in> set ds" "d_to d = u" "seq_of d = Some q" "d_msg d = m"
  using assms by (auto simp: numbered_def entry_of_def split: option.splits)

section \<open>The invariant of the deliveries\<close>

text \<open>For counters that stood at \<open>B\<close>: the numbers of a user are consecutive, the log holds exactly what the
  deliveries have taken, and a stored message is in the inbox under its number.\<close>

definition consecutive :: "int64 \<Rightarrow> entry list \<Rightarrow> bool" where
  "consecutive b es \<longleftrightarrow> map (\<lambda>(v, q, m). q) es = map (\<lambda>i. b + 1 + of_nat i) [0..<length es]"

definition dinv :: "'r redis \<Rightarrow> (uid \<Rightarrow> int64) \<Rightarrow> 'r delivering \<Rightarrow> bool" where
  "dinv R B s \<longleftrightarrow>
     (\<forall>u. seq_at R (t_store (ts s)) u (B u + of_nat (length (entries u (dlog s)))) \<and> consecutive (B u) (entries u (dlog s))) \<and>
     mset (dlog s) = numbered (dels s) \<and>
     (\<forall>d \<in> set (dels s). \<forall>q. stored d \<longrightarrow> seq_of d = Some q \<longrightarrow>
        c_inbox (ts s) (d_to d, q) = Some (c_str (msgid_of (d_msg d))))"

lemma dinvI:
  assumes "\<And>u. seq_at R (t_store (ts s)) u (B u + of_nat (length (entries u (dlog s))))"
    and "\<And>u. consecutive (B u) (entries u (dlog s))" and "mset (dlog s) = numbered (dels s)"
    and "\<And>d q. d \<in> set (dels s) \<Longrightarrow> stored d \<Longrightarrow> seq_of d = Some q \<Longrightarrow>
           c_inbox (ts s) (d_to d, q) = Some (c_str (msgid_of (d_msg d)))"
  shows "dinv R B s"
  using assms unfolding dinv_def by blast

lemma dinvD:
  assumes "dinv R B s"
  shows "seq_at R (t_store (ts s)) u (B u + of_nat (length (entries u (dlog s))))"
    and "consecutive (B u) (entries u (dlog s))" and "mset (dlog s) = numbered (dels s)"
    and "d \<in> set (dels s) \<Longrightarrow> stored d \<Longrightarrow> seq_of d = Some q \<Longrightarrow>
           c_inbox (ts s) (d_to d, q) = Some (c_str (msgid_of (d_msg d)))"
  using assms unfolding dinv_def by blast+

lemma consecutive_append: "consecutive b (es @ [(v, q, m)]) \<longleftrightarrow> consecutive b es \<and> q = b + 1 + of_nat (length es)"
  by (simp add: consecutive_def)

lemma consecutive_nth:
  assumes "consecutive b es" and "i < length es" and "es ! i = (v, q, m)"
  shows "q = b + 1 + of_nat i"
proof -
  have "map (\<lambda>(v, q, m). q) es ! i = b + 1 + of_nat i" using assms(1,2) by (simp add: consecutive_def)
  then show ?thesis using assms(2,3) by simp
qed

text \<open>Below the end of the counter a number is handed out once.\<close>

lemma consecutive_inject:
  assumes "consecutive b es" and "int (length es) < 2 ^ 64" and "(v, q, m) \<in> set es" and "(v', q, m') \<in> set es"
  shows "m' = m"
proof -
  obtain i j where ij: "i < length es" "es ! i = (v, q, m)" "j < length es" "es ! j = (v', q, m')"
    using assms(3,4) by (auto simp: in_set_conv_nth)
  have "(of_nat i :: int64) = of_nat j"
    using consecutive_nth [OF assms(1) ij(1,2)] consecutive_nth [OF assms(1) ij(3,4)] by simp
  then have "unat (of_nat i :: int64) = unat (of_nat j :: int64)" by simp
  then have "i = j" using ij assms(2) by (simp add: unat_of_nat_small)
  then show ?thesis using ij by simp
qed

lemma sint_add_nat: "sint (b :: int64) + int n < 2 ^ 63 \<Longrightarrow> sint (b + of_nat n) = sint b + int n"
proof (induction n)
  case (Suc n)
  then have "sint (b + of_nat n) + 1 < 2 ^ 63" by simp
  from sint_Suc [OF this] Suc show ?case by (simp add: ac_simps)
qed simp

lemma in_update_cases: "x \<in> set (xs[i := y]) \<Longrightarrow> x = y \<or> x \<in> set xs"
  using set_update_subset_insert [of xs i y] by blast

lemma dinv_start: "(\<And>u. seq_at R (t_store t) u (B u)) \<Longrightarrow> dinv R B (delivering_start t)"
  by (rule dinvI) (simp_all add: delivering_start_def entries_def consecutive_def numbered_def)

text \<open>Two deliveries with one receiver and one number carry one message.\<close>

lemma dinv_same_message:
  assumes "dinv R B s" and "int (length (dlog s)) < 2 ^ 64" and "d \<in> set (dels s)" and "d' \<in> set (dels s)"
    and "d_to d' = d_to d" and "seq_of d = Some q" and "seq_of d' = Some q"
  shows "d_msg d' = d_msg d"
proof (rule consecutive_inject [OF dinvD(2) [OF assms(1)]])
  show "int (length (entries (d_to d) (dlog s))) < 2 ^ 64" using assms(2) length_entries_le [of "d_to d" "dlog s"] by simp
  have "(d_to d, q, d_msg d) \<in># mset (dlog s)" "(d_to d', q, d_msg d') \<in># mset (dlog s)"
    using numbered_member assms dinvD(3) [OF assms(1)] by metis+
  then show "(d_to d, q, d_msg d) \<in> set (entries (d_to d) (dlog s))" "(d_to d', q, d_msg d') \<in> set (entries (d_to d) (dlog s))"
    using assms(5) by (auto simp: entries_def)
qed

lemma write_delivery_Some:
  assumes "write_delivery f i q s = Some s'"
  shows "dlog s' = dlog s" and "t_store (ts s') = t_store (ts s)"
    and "dels s' = (dels s)[i := (dels s ! i)\<lparr>d_pc := DWritten f q\<rparr>]"
    and "c_inbox (ts s') = (if f then c_inbox (ts s)
           else (c_inbox (ts s))((d_to (dels s ! i), q) \<mapsto> c_str (msgid_of (d_msg (dels s ! i)))))"
proof -
  obtain t where t: "AsyncWriteInbox f (msgid_of (d_msg (dels s ! i))) (d_to (dels s ! i)) q (ts s) = Some t"
    and s': "s' = s\<lparr>ts := t, dels := (dels s)[i := (dels s ! i)\<lparr>d_pc := DWritten f q\<rparr>]\<rparr>"
    using assms by (auto simp: write_delivery_def Let_def split: option.splits)
  show "dlog s' = dlog s" "dels s' = (dels s)[i := (dels s ! i)\<lparr>d_pc := DWritten f q\<rparr>]" by (simp_all add: s')
  from t [unfolded AsyncWriteInbox_def inbox_stmt_def] obtain p where p: "t = (if f then ts s else
      (ts s)\<lparr>c_inbox := (c_inbox (ts s))((d_to (dels s ! i), q) \<mapsto> c_str (msgid_of (d_msg (dels s ! i))))\<rparr>)\<lparr>c_pool := p\<rparr>"
    by (rule cass_execute_Some)
  show "t_store (ts s') = t_store (ts s)" "c_inbox (ts s') = (if f then c_inbox (ts s)
           else (c_inbox (ts s))((d_to (dels s ! i), q) \<mapsto> c_str (msgid_of (d_msg (dels s ! i)))))"
    by (simp_all add: s' p)
qed

lemma write_one_session:
  assumes "c_pool (ts s) = \<lparr>pool = [Some 0], is_stop = False\<rparr>"
  shows "write_delivery f i q s = Some (s\<lparr>ts := inbox_stmt f (msgid_of (d_msg (dels s ! i))) (d_to (dels s ! i)) q (ts s),
     dels := (dels s)[i := (dels s ! i)\<lparr>d_pc := DWritten f q\<rparr>]\<rparr>)"
  using assms by (cases "ts s")
    (simp add: write_delivery_def AsyncWriteInbox_def inbox_stmt_def cass_execute_def Acquire_def Release_def Let_def)

lemma delivery_step_mail: "delivery_step R s s' \<Longrightarrow> mail_step\<^sup>=\<^sup>= (mailbox (dlog s)) (mailbox (dlog s'))"
proof (induction rule: delivery_step.induct)
  case (dv_number i s)
  then show ?case using mailbox_append by (auto simp: number_delivery_def Let_def split: prod.split)
qed (auto simp: begin_delivery_def push_delivery_def Let_def write_delivery_Some(1))

lemma delivery_steps_mail:
  "(delivery_step R)\<^sup>*\<^sup>* s s' \<Longrightarrow> mail_step\<^sup>*\<^sup>* (mailbox (dlog s)) (mailbox (dlog s'))"
proof (induction rule: rtranclp_induct)
  case (step t u)
  then show ?case using delivery_step_mail [OF step(2)] by (auto intro: rtranclp.rtrancl_into_rtrancl)
qed simp

lemma delivery_step_log: "delivery_step R s s' \<Longrightarrow> length (dlog s) \<le> length (dlog s')"
  by (induction rule: delivery_step.induct)
     (auto simp: begin_delivery_def number_delivery_def push_delivery_def Let_def write_delivery_Some(1) split: prod.split)

text \<open>Every step keeps the invariant while the counters stay below their end.\<close>

context redis_server
begin

lemma number_dinv:
  assumes inv: "dinv R B s" and i: "i < length (dels s)" and st: "d_pc (dels s ! i) = DStart"
    and bound: "\<And>u. sint (B u) + int (length (dlog s)) + 1 < 2 ^ 63"
  shows "dinv R B (number_delivery R i s)"
proof -
  define d where "d = dels s ! i"
  obtain q r where h: "r_hincrby R (t_store (ts s)) (redis_user_prefix @ fmt_u64 (d_to d)) ''seq'' 1 = (q, r)" by fastforce
  have s': "number_delivery R i s = s\<lparr>ts := (ts s)\<lparr>t_store := r\<rparr>, dels := (dels s)[i := d\<lparr>d_pc := DNumbered q\<rparr>],
      dlog := dlog s @ [(d_to d, q, d_msg d)]\<rparr>"
    using h by (simp add: number_delivery_def d_def Let_def)
  have n: "if d_to d = u then q = B u + of_nat (length (entries u (dlog s))) + 1 \<and>
        seq_at R r u (B u + of_nat (length (entries u (dlog s))) + 1)
      else seq_at R r u (B u + of_nat (length (entries u (dlog s))))" for u
  proof (rule seq_at_step [OF h dinvD(1) [OF inv]])
    have "sint (B u + of_nat (length (entries u (dlog s)))) = sint (B u) + int (length (entries u (dlog s)))"
      by (rule sint_add_nat) (use bound [of u] length_entries_le [of u "dlog s"] in simp)
    then show "sint (B u + of_nat (length (entries u (dlog s)))) + 1 < 2 ^ 63"
      using bound [of u] length_entries_le [of u "dlog s"] by simp
  qed
  show ?thesis
  proof (rule dinvI)
    fix u
    show "seq_at R (t_store (ts (number_delivery R i s))) u (B u + of_nat (length (entries u (dlog (number_delivery R i s)))))"
      using n [of u] by (simp add: s' entries_def add.assoc add.commute [of 1] split: if_splits)
    show "consecutive (B u) (entries u (dlog (number_delivery R i s)))"
      using n [of u] dinvD(2) [OF inv, of u] by (simp add: s' entries_def consecutive_append add.assoc add.commute split: if_splits)
  next
    show "mset (dlog (number_delivery R i s)) = numbered (dels (number_delivery R i s))"
      using numbered_update [OF i, of "d\<lparr>d_pc := DNumbered q\<rparr>"] dinvD(3) [OF inv] st
      by (simp add: s' entry_of_def seq_of_def d_def)
  next
    fix e k
    assume e: "e \<in> set (dels (number_delivery R i s))" "stored e" "seq_of e = Some k"
    then have "e \<in> set (dels s)" by (auto simp: s' stored_def dest!: in_update_cases)
    then show "c_inbox (ts (number_delivery R i s)) (d_to e, k) = Some (c_str (msgid_of (d_msg e)))"
      using dinvD(4) [OF inv] e by (simp add: s')
  qed
qed

end

lemma write_dinv:
  assumes inv: "dinv R B s" and i: "i < length (dels s)" and st: "d_pc (dels s ! i) = DNumbered q"
    and w: "write_delivery f i q s = Some s'" and bound: "int (length (dlog s)) < 2 ^ 64"
  shows "dinv R B s'"
proof (rule dinvI)
  fix u
  show "seq_at R (t_store (ts s')) u (B u + of_nat (length (entries u (dlog s'))))" "consecutive (B u) (entries u (dlog s'))"
    using dinvD(1,2) [OF inv] by (simp_all add: write_delivery_Some(1,2) [OF w])
next
  show "mset (dlog s') = numbered (dels s')"
    using dinvD(3) [OF inv] st i
    by (simp add: write_delivery_Some(1,3) [OF w] numbered_same entry_of_def seq_of_def)
next
  fix e k
  assume e: "e \<in> set (dels s')" "stored e" "seq_of e = Some k"
  then consider "e = (dels s ! i)\<lparr>d_pc := DWritten f q\<rparr>" | "e \<in> set (dels s)"
    using in_update_cases [of e "dels s" i] by (auto simp: write_delivery_Some(3) [OF w])
  then show "c_inbox (ts s') (d_to e, k) = Some (c_str (msgid_of (d_msg e)))"
  proof cases
    case 1
    then show ?thesis using e by (simp add: write_delivery_Some(4) [OF w] stored_def seq_of_def)
  next
    case 2
    have "d_msg (dels s ! i) = d_msg e" if "d_to (dels s ! i) = d_to e" "q = k"
      using dinv_same_message [OF inv bound 2 _ that(1) e(3)] i st that(2) by (simp add: seq_of_def)
    then show ?thesis using dinvD(4) [OF inv 2 e(2,3)] by (simp add: write_delivery_Some(4) [OF w])
  qed
qed

lemma push_dinv:
  assumes inv: "dinv R B s" and i: "i < length (dels s)" and st: "d_pc (dels s ! i) = DWritten f q"
  shows "dinv R B (push_delivery i f q s)"
proof (rule dinvI)
  fix u
  show "seq_at R (t_store (ts (push_delivery i f q s))) u (B u + of_nat (length (entries u (dlog (push_delivery i f q s)))))"
    "consecutive (B u) (entries u (dlog (push_delivery i f q s)))"
    using dinvD(1,2) [OF inv] by (simp_all add: push_delivery_def AsyncPush_eq Let_def)
next
  show "mset (dlog (push_delivery i f q s)) = numbered (dels (push_delivery i f q s))"
    using dinvD(3) [OF inv] st i by (simp add: push_delivery_def Let_def numbered_same entry_of_def seq_of_def)
next
  fix e k
  assume e: "e \<in> set (dels (push_delivery i f q s))" "stored e" "seq_of e = Some k"
  then consider "e = (dels s ! i)\<lparr>d_pc := DPushed f q\<rparr>" | "e \<in> set (dels s)"
    using in_update_cases [of e "dels s" i] by (auto simp: push_delivery_def Let_def)
  then show "c_inbox (ts (push_delivery i f q s)) (d_to e, k) = Some (c_str (msgid_of (d_msg e)))"
  proof cases
    case 1
    then show ?thesis using dinvD(4) [OF inv nth_mem [OF i]] e st
      by (simp add: push_delivery_def AsyncPush_eq Let_def stored_def seq_of_def)
  qed (use dinvD(4) [OF inv] e in \<open>simp add: push_delivery_def AsyncPush_eq Let_def\<close>)
qed

lemma messages_stmt_fields [simp]: "c_inbox (messages_stmt f k x t) = c_inbox t" "t_store (messages_stmt f k x t) = t_store t"
    "c_pool (messages_stmt f k x t) = c_pool t" "pushes (messages_stmt f k x t) = pushes t"
  by (simp_all add: messages_stmt_def)

lemma store_dinv: "dinv R B s \<Longrightarrow> dinv R B (s\<lparr>ts := messages_stmt f k x (ts s)\<rparr>)"
  by (rule dinvI) (auto dest: dinvD)

lemma begin_dinv: "dinv R B s \<Longrightarrow> dinv R B (begin_delivery m u s)"
  by (rule dinvI) (auto simp: begin_delivery_def numbered_append entry_of_def seq_of_def stored_def dest: dinvD)

context redis_server
begin

lemma delivery_step_dinv:
  assumes "delivery_step R s s'" and inv: "dinv R B s" and bound: "\<And>u. sint (B u) + int (length (dlog s')) < 2 ^ 63"
  shows "dinv R B s'"
  using assms(1)
proof cases
  case (dv_number i)
  have "length (dlog s') = length (dlog s) + 1"
    unfolding dv_number(1) by (simp add: number_delivery_def Let_def split: prod.split)
  then have "sint (B u) + int (length (dlog s)) + 1 < 2 ^ 63" for u using bound [of u] by simp
  then show ?thesis using number_dinv [OF inv dv_number(2,3)] dv_number(1) by blast
next
  case (dv_write i q f)
  have "int (length (dlog s)) < 2 ^ 64"
    using bound [of 0] sint_greater_eq [of "B 0"] write_delivery_Some(1) [OF dv_write(3)] by simp
  then show ?thesis by (rule write_dinv [OF inv dv_write])
qed (use inv push_dinv begin_dinv store_dinv in blast)+

lemma delivery_steps_dinv:
  assumes "(delivery_step R)\<^sup>*\<^sup>* (delivering_start t) s" and "\<And>u. seq_at R (t_store t) u (B u)"
    and "\<And>u. sint (B u) + int (length (dlog s)) < 2 ^ 63"
  shows "dinv R B s"
  using assms(1,3)
proof (induction rule: rtranclp_induct)
  case base
  then show ?case using dinv_start assms(2) by blast
next
  case (step s s')
  have "sint (B u) + int (length (dlog s)) < 2 ^ 63" for u
    using step.prems [of u] delivery_step_log [OF step.hyps(2)] by simp
  then show ?case using delivery_step_dinv [OF step.hyps(2) step.IH step.prems] by blast
qed

end

section \<open>What is pushed\<close>

text \<open>The requests of the push client carry exactly the receivers, numbers and messages of the deliveries that have come to
  \<open>AsyncPush\<close>.\<close>

definition push_entry :: "PushReq \<Rightarrow> entry" where
  "push_entry p = (PushReq_to_uid p, PushReq_seq p, PushReq_message p)"

definition pushed_entry :: "delivery \<Rightarrow> entry multiset" where
  "pushed_entry d = (case d_pc d of DPushed f q \<Rightarrow> {#(d_to d, q, d_msg d)#} | _ \<Rightarrow> {#})"

definition pushes_inv :: "'r transfer_state \<Rightarrow> 'r delivering \<Rightarrow> bool" where
  "pushes_inv t s \<longleftrightarrow>
     mset (map push_entry (pushes (ts s))) = mset (map push_entry (pushes t)) + (\<Sum>d \<in># mset (dels s). pushed_entry d)"

lemma pushes_inv_update:
  assumes "pushes_inv t s" and "i < length (dels s)" and "dels s' = (dels s)[i := d]"
    and "pushes (ts s') = pushes (ts s) @ P" and "pushed_entry d = pushed_entry (dels s ! i) + mset (map push_entry P)"
  shows "pushes_inv t s'"
proof -
  have "(\<Sum>d \<in># mset (dels s'). pushed_entry d) = (\<Sum>d \<in># mset (dels s). pushed_entry d) + mset (map push_entry P)"
    using sum_mset_update [OF assms(2), of pushed_entry d] assms(3,5) by (simp add: ac_simps)
  then show ?thesis using assms(1,4) by (simp add: pushes_inv_def ac_simps)
qed

lemma AsyncWriteInbox_pushes: "AsyncWriteInbox f k u q t = Some t' \<Longrightarrow> pushes t' = pushes t"
  unfolding AsyncWriteInbox_def inbox_stmt_def by (auto elim!: cass_execute_Some)

lemma write_delivery_pushes: "write_delivery f i q s = Some s' \<Longrightarrow> pushes (ts s') = pushes (ts s)"
  by (auto simp: write_delivery_def Let_def AsyncWriteInbox_pushes split: option.splits)

lemma delivery_step_pushes: "delivery_step R s s' \<Longrightarrow> pushes_inv t s \<Longrightarrow> pushes_inv t s'"
proof (induction rule: delivery_step.induct)
  case (dv_begin s m u)
  then show ?case by (simp add: pushes_inv_def begin_delivery_def pushed_entry_def)
next
  case (dv_number i s)
  show ?case
    by (rule pushes_inv_update [OF dv_number(3,1), where P = "[]" and d = "(dels s ! i)\<lparr>d_pc := DNumbered (fst (r_hincrby R
         (t_store (ts s)) (redis_user_prefix @ fmt_u64 (d_to (dels s ! i))) ''seq'' 1))\<rparr>"])
       (simp_all add: number_delivery_def pushed_entry_def dv_number(2) Let_def split: prod.split)
next
  case (dv_write i s q f s')
  show ?case
    by (rule pushes_inv_update [OF dv_write(4,1) write_delivery_Some(3) [OF dv_write(3)], where P = "[]"])
       (simp_all add: write_delivery_pushes [OF dv_write(3)] pushed_entry_def dv_write(2))
next
  case (dv_store s f k x)
  then show ?case by (simp add: pushes_inv_def)
next
  case (dv_push i s f q)
  show ?case
    by (rule pushes_inv_update [OF dv_push(3,1), where P = "[push_of (d_msg (dels s ! i)) (d_to (dels s ! i)) q]"
          and d = "(dels s ! i)\<lparr>d_pc := DPushed f q\<rparr>"])
       (simp_all add: push_delivery_def AsyncPush_eq pushed_entry_def push_entry_def push_of_def PushReq_message_def dv_push(2) Let_def)
qed

lemma delivery_steps_pushes: "(delivery_step R)\<^sup>*\<^sup>* (delivering_start t) s \<Longrightarrow> pushes_inv t s"
proof (induction rule: rtranclp_induct)
  case base
  show ?case by (simp add: pushes_inv_def delivering_start_def)
qed (rule delivery_step_pushes)

text \<open>Once no delivery is under way, everything that has a number is pushed.\<close>

lemma numbered_pushed:
  assumes "\<And>d. d \<in> set ds \<Longrightarrow> d_pc d = DStart \<or> (\<exists>f q. d_pc d = DPushed f q)"
  shows "(\<Sum>d \<in># mset ds. pushed_entry d) = numbered ds"
proof -
  have "pushed_entry d = entry_of d" if "d \<in># mset ds" for d
    using assms [of d] that by (auto simp: pushed_entry_def entry_of_def seq_of_def)
  then show ?thesis unfolding numbered_def by (metis (mono_tags, lifting) image_mset_cong)
qed

section \<open>The refinement\<close>

text \<open>However the threads interleave the calls of their deliveries, the server refines a mailbox that only
  grows: what the log adds to a user's mailbox are exactly the deliveries that have taken a number, the numbers
  of a user are consecutive from the counter on, and once the numbered deliveries are all written, the inbox table read by
  number is the mailbox.\<close>

definition reads_as :: "(uid \<Rightarrow> int64) \<Rightarrow> entry list \<Rightarrow> (uid \<times> int64 \<Rightarrow> string option) \<Rightarrow> bool" where
  "reads_as B es inbox \<longleftrightarrow> (\<forall>u i. i < length (mailbox es u) \<longrightarrow> inbox (u, B u + 1 + of_nat i) = Some (c_str (msgid_of (mailbox es u ! i))))"

lemma delivery_mailbox:
  assumes "redis_server R" and "(delivery_step R)\<^sup>*\<^sup>* (delivering_start t) s" and "\<And>u. seq_at R (t_store t) u (B u)"
    and "\<And>u. sint (B u) + int (length (dlog s)) < 2 ^ 63"
  shows mailbox_grows: "mail_step\<^sup>*\<^sup>* (\<lambda>u. []) (mailbox (dlog s))" and mailbox_log: "mset (dlog s) = numbered (dels s)"
    and mailbox_consecutive: "consecutive (B u) (entries u (dlog s))"
    and mailbox_inbox: "(\<And>d. d \<in> set (dels s) \<Longrightarrow> seq_of d \<noteq> None \<Longrightarrow> stored d) \<Longrightarrow> reads_as B (dlog s) (c_inbox (ts s))"
proof -
  note inv = redis_server.delivery_steps_dinv [OF assms]
  have "mailbox (dlog (delivering_start t)) = (\<lambda>u. [])" by (simp add: delivering_start_def mailbox_def entries_def fun_eq_iff)
  then show "mail_step\<^sup>*\<^sup>* (\<lambda>u. []) (mailbox (dlog s))" using delivery_steps_mail [OF assms(2)] by metis
  show "mset (dlog s) = numbered (dels s)" "consecutive (B u) (entries u (dlog s))" using dinvD(2,3) [OF inv] by simp_all
  assume all: "\<And>d. d \<in> set (dels s) \<Longrightarrow> seq_of d \<noteq> None \<Longrightarrow> stored d"
  have "c_inbox (ts s) (u, B u + 1 + of_nat i) = Some (c_str (msgid_of (mailbox (dlog s) u ! i)))"
    if i: "i < length (mailbox (dlog s) u)" for u i
  proof -
    have i': "i < length (entries u (dlog s))" using i by (simp add: mailbox_def)
    obtain v q m where e: "entries u (dlog s) ! i = (v, q, m)" by (metis prod_cases3)
    have "(v, q, m) \<in> set (entries u (dlog s))" using nth_mem [OF i'] e by simp
    then have "(u, q, m) \<in># numbered (dels s)" using dinvD(3) [OF inv, symmetric] by (auto simp: entries_def)
    then obtain d where d: "d \<in> set (dels s)" "d_to d = u" "seq_of d = Some q" "d_msg d = m" by (rule numbered_owner)
    then have "c_inbox (ts s) (u, q) = Some (c_str (msgid_of m))" using dinvD(4) [OF inv] all [OF d(1)] by auto
    then show ?thesis using consecutive_nth [OF dinvD(2) [OF inv] i' e] e i' by (simp add: mailbox_def)
  qed
  then show "reads_as B (dlog s) (c_inbox (ts s))" by (simp add: reads_as_def)
qed

end
