(* ===== verification/PushClient.thy ===== *)
theory PushClient
  imports TransferSrv
begin

text \<open>
  The asynchronous push client of the Cassandra transfer server (class \<open>PushClient\<close> in \<open>transfer/cassandra/main.cc\<close>) with
  the callback it queues on the consumer's thread pool. A call lives in an \<open>AsyncCallContext\<close> on the heap: \<open>AsyncPush\<close>
  allocates it, the completion thread (\<open>AsyncRpcComplete\<close>) queues the success callback and then deletes it. The
  callback captures the thread's local pointer by reference, so it reads the context only if it runs between the two.
  The heap is a map from addresses that are not reused; a callback that reads a deleted context is \<open>wild\<close>.
\<close>

section \<open>Definitions\<close>

record AsyncCallContext =
  cc_req :: PushReq
  cc_ok :: bool

text \<open>The completion thread waits in \<open>cq_.Next\<close>, or stands before \<open>delete call_context\<close>; \<open>GPR_ASSERT\<close> ends the process.\<close>

datatype complete_pc = InNext | BeforeDelete nat | Asserted

record 'r push_client =
  pt :: "'r transfer_state"
  ctxs :: "nat \<Rightarrow> AsyncCallContext option"
  fresh :: nat
  in_flight :: "nat list"
  complete_at :: complete_pc
  callbacks :: "nat list"
  wild :: bool

definition client_start :: "'r transfer_state \<Rightarrow> 'r push_client" where
  "client_start t = \<lparr>pt = t, ctxs = (\<lambda>a. None), fresh = 0, in_flight = [], complete_at = InNext, callbacks = [], wild = False\<rparr>"

definition start_push :: "MqMessage \<Rightarrow> uid \<Rightarrow> int64 \<Rightarrow> 'r push_client \<Rightarrow> 'r push_client" where
  "start_push mq_message to_uid seq s =
     (let t = AsyncPush mq_message to_uid seq (pt s)
      in s\<lparr>pt := t, ctxs := (ctxs s)(fresh s \<mapsto> \<lparr>cc_req = last (pushes t), cc_ok = False\<rparr>),
           in_flight := in_flight s @ [fresh s], fresh := fresh s + 1\<rparr>)"

text \<open>One iteration of \<open>AsyncRpcComplete\<close> up to the \<open>delete\<close>: \<open>Next\<close> returns a call, whose status gRPC has stored.\<close>

definition rpc_complete :: "nat \<Rightarrow> bool \<Rightarrow> bool \<Rightarrow> 'r push_client \<Rightarrow> 'r push_client" where
  "rpc_complete call_context ok status s =
     (let s1 = s\<lparr>in_flight := removeAll call_context (in_flight s),
                 ctxs := (ctxs s)(call_context := map_option (cc_ok_update (\<lambda>_. status)) (ctxs s call_context))\<rparr>
      in if \<not> ok then s1\<lparr>complete_at := Asserted\<rparr>
         else if status then s1\<lparr>callbacks := callbacks s @ [call_context], complete_at := BeforeDelete call_context\<rparr>
         else s1\<lparr>complete_at := BeforeDelete call_context\<rparr>)"

definition delete_context :: "nat \<Rightarrow> 'r push_client \<Rightarrow> 'r push_client" where
  "delete_context call_context s = s\<lparr>ctxs := (ctxs s)(call_context := None), complete_at := InNext\<rparr>"

text \<open>A pool thread runs a queued callback. \<open>None\<close>: it waits for a session.\<close>

definition run_callback :: "bool \<Rightarrow> nat \<Rightarrow> 'r push_client \<Rightarrow> 'r push_client option" where
  "run_callback fails call_context s =
     (let s1 = s\<lparr>callbacks := remove1 call_context (callbacks s)\<rparr> in
      case ctxs s call_context of
        None \<Rightarrow> Some (s1\<lparr>wild := True\<rparr>)
      | Some c \<Rightarrow> map_option (\<lambda>t. s1\<lparr>pt := t\<rparr>)
          (OnPushSuccess fails (PushReq_to_uid (cc_req c)) (PushReq_seq (cc_req c)) (pt s)))"

inductive client_step :: "'r push_client \<Rightarrow> 'r push_client \<Rightarrow> bool" where
  cl_push: "client_step s (start_push m u q s)"
| cl_next: "complete_at s = InNext \<Longrightarrow> c \<in> set (in_flight s) \<Longrightarrow> client_step s (rpc_complete c ok status s)"
| cl_delete: "complete_at s = BeforeDelete c \<Longrightarrow> client_step s (delete_context c s)"
| cl_callback: "c \<in> set (callbacks s) \<Longrightarrow> run_callback fails c s = Some s' \<Longrightarrow> client_step s s'"

section \<open>Lemmas\<close>

text \<open>Every allocated context is in flight or about to be deleted, and only the last may have its callback queued.\<close>

definition client_inv :: "'r push_client \<Rightarrow> bool" where
  "client_inv s \<longleftrightarrow> distinct (in_flight s) \<and>
     (complete_at s \<noteq> Asserted \<longrightarrow> dom (ctxs s) = set (in_flight s) \<union> {c. complete_at s = BeforeDelete c}) \<and>
     (\<forall>c. complete_at s = BeforeDelete c \<longrightarrow> c \<notin> set (in_flight s)) \<and> dom (ctxs s) \<subseteq> {..<fresh s} \<and>
     set (in_flight s) \<subseteq> {..<fresh s} \<and> set (callbacks s) \<inter> set (in_flight s) = {} \<and> set (callbacks s) \<subseteq> {..<fresh s}"

lemma client_inv_start: "client_inv (client_start t)"
  by (simp add: client_inv_def client_start_def)

lemma start_push_inv:
  assumes "client_inv s"
  shows "client_inv (start_push m u q s)"
proof -
  have "fresh s \<notin> set (in_flight s)" "fresh s \<notin> dom (ctxs s)" "fresh s \<notin> set (callbacks s)"
    using assms by (auto simp: client_inv_def)
  moreover have "complete_at s \<noteq> BeforeDelete (fresh s)"
    using assms calculation(2) by (cases "complete_at s") (auto simp: client_inv_def)
  ultimately show ?thesis using assms by (auto simp: client_inv_def start_push_def Let_def less_Suc_eq)
qed

lemma rpc_complete_inv:
  assumes "client_inv s" and "complete_at s = InNext" and "c \<in> set (in_flight s)"
  shows "client_inv (rpc_complete c ok status s)"
proof -
  have "dom (ctxs s) = set (in_flight s)" "distinct (in_flight s)" using assms by (auto simp: client_inv_def)
  moreover from this obtain x where "ctxs s c = Some x" using assms(3) by blast
  ultimately show ?thesis using assms(1,3)
    by (auto simp: client_inv_def rpc_complete_def Let_def distinct_removeAll)
qed

lemma delete_context_inv: "client_inv s \<Longrightarrow> complete_at s = BeforeDelete c \<Longrightarrow> client_inv (delete_context c s)"
  by (auto simp: client_inv_def delete_context_def)

lemma run_callback_Some:
  assumes "run_callback f c s = Some s'"
  shows "in_flight s' = in_flight s" and "complete_at s' = complete_at s" and "ctxs s' = ctxs s" and "fresh s' = fresh s"
    and "callbacks s' = remove1 c (callbacks s)" and "c_inbox (pt s') = c_inbox (pt s)"
  using assms by (auto simp: run_callback_def Let_def dest: push_success_keeps_inbox split: option.splits)

lemma client_inv_callbacks:
  assumes "client_inv s" and "in_flight s' = in_flight s" and "complete_at s' = complete_at s" and "ctxs s' = ctxs s"
    and "fresh s' = fresh s" and "set (callbacks s') \<subseteq> set (callbacks s)"
  shows "client_inv s'"
  using assms unfolding client_inv_def by auto

lemma client_step_inv: "client_step s s' \<Longrightarrow> client_inv s \<Longrightarrow> client_inv s'"
proof (induction rule: client_step.induct)
  case (cl_callback c s fails s')
  then show ?case using run_callback_Some [OF cl_callback(2)] set_remove1_subset [of c "callbacks s"]
    by (intro client_inv_callbacks [OF cl_callback(3)]) simp_all
qed (simp_all add: start_push_inv rpc_complete_inv delete_context_inv)

lemma client_step_inbox: "client_step s s' \<Longrightarrow> c_inbox (pt s') = c_inbox (pt s)"
  by (induction rule: client_step.induct)
     (simp_all add: start_push_def AsyncPush_def rpc_complete_def delete_context_def run_callback_Some(6) Let_def)

lemma client_steps:
  "client_step\<^sup>*\<^sup>* (client_start t) s \<Longrightarrow> client_inv s \<and> c_inbox (pt s) = c_inbox t"
proof (induction rule: rtranclp_induct)
  case base
  show ?case using client_inv_start by (simp add: client_start_def)
next
  case (step s s')
  then show ?case using client_step_inv client_step_inbox by metis
qed

lemma client_callback_window:
  "client_inv s \<Longrightarrow> c \<in> set (callbacks s) \<Longrightarrow> complete_at s \<noteq> Asserted \<Longrightarrow> ctxs s c \<noteq> None \<longleftrightarrow> complete_at s = BeforeDelete c"
  unfolding client_inv_def by blast

section \<open>Properties\<close>

text \<open>C27. Contexts are neither leaked nor freed twice: as long as the process runs, those on the heap are exactly the
  calls in flight and the one before its \<open>delete\<close>. A queued callback finds its context only while the completion
  thread stands before that \<open>delete\<close>; later it reads freed memory. And no callback ever takes a message from the
  inbox.\<close>

theorem push_client_contexts:
  assumes "client_step\<^sup>*\<^sup>* (client_start t) s" and "complete_at s \<noteq> Asserted"
  shows "distinct (in_flight s) \<and> dom (ctxs s) = set (in_flight s) \<union> {c. complete_at s = BeforeDelete c} \<and>
    (\<forall>c. complete_at s = BeforeDelete c \<longrightarrow> c \<notin> set (in_flight s)) \<and>
    (\<forall>c \<in> set (callbacks s). ctxs s c \<noteq> None \<longleftrightarrow> complete_at s = BeforeDelete c) \<and> c_inbox (pt s) = c_inbox t"
proof -
  have inv: "client_inv s" "c_inbox (pt s) = c_inbox t" using client_steps [OF assms(1)] by simp_all
  then show ?thesis using client_callback_window [OF inv(1) _ assms(2)] assms(2) by (simp add: client_inv_def)
qed

definition callback_late :: "mem push_client" where
  "callback_late = delete_context 0 (rpc_complete 0 True True (start_push ex_mq 9 1 (client_start transfer0)))"

lemma callback_late_run: "client_step\<^sup>*\<^sup>* (client_start transfer0) callback_late"
proof -
  have "client_step (client_start transfer0) (start_push ex_mq 9 1 (client_start transfer0))" by (rule cl_push)
  moreover have "client_step (start_push ex_mq 9 1 (client_start transfer0))
      (rpc_complete 0 True True (start_push ex_mq 9 1 (client_start transfer0)))"
    by (rule cl_next) (simp_all add: start_push_def client_start_def Let_def)
  moreover have "client_step (rpc_complete 0 True True (start_push ex_mq 9 1 (client_start transfer0))) callback_late"
    unfolding callback_late_def by (rule cl_delete) (simp add: rpc_complete_def)
  ultimately show ?thesis by (meson converse_rtranclp_into_rtranclp rtranclp.rtrancl_refl)
qed

theorem push_client_contexts_witness:
  "callbacks callback_late = [0] \<and> ctxs callback_late 0 = None \<and> map_option wild (run_callback False 0 callback_late) = Some True"
proof -
  have c: "callbacks callback_late = [0]" "complete_at callback_late = InNext"
    by (simp_all add: callback_late_def delete_context_def rpc_complete_def start_push_def client_start_def Let_def)
  then have "ctxs callback_late 0 = None" using push_client_contexts [OF callback_late_run] by auto
  then show ?thesis using c by (simp add: run_callback_def Let_def)
qed

end
