(* ===== verification/CassProc.thy ===== *)
theory CassProc
  imports PushClient Delivery Consumer
begin

text \<open>
  The Cassandra transfer server as a process: the polling loop of \<open>Consumer::Run\<close>, the worker threads of its pool, and the
  completion thread of \<open>PushClient\<close>, on the shared Redis and Cassandra stores (\<open>transfer/cassandra/main.cc\<close>,
  \<open>transfer/kafka_consumer.cc\<close>, \<open>include/thread_pool.h\<close>, \<open>include/connection_pool.h\<close>). A worker runs three kinds of task:
  \<open>Consume\<close> of a polled message, the delivery to one group member, and the callback of a successful push. \<open>prog\<close> says how far
  each worker is in its task; \<open>work_step\<close> moves one worker by one call that others can observe: a session is taken from and
  returned to the pool in separate steps, and another worker may wait for it meanwhile. SQL and Redis errors are
  exceptions, which end the task (the future of a packaged task swallows them); the receivers they cost are in the ghost log
  \<open>lost\<close>. After a dereferenced null key, a read of a deleted context or a failed assertion the process is \<open>halted\<close>.
\<close>

section \<open>State\<close>

datatype handler_task = MemberTask MqMessage uid | CallbackTask nat

datatype progress =
    PEnd
  | PBegin
  | PStore MqMessage string
  | PStoring nat MqMessage string
  | PRoute MqMessage
  | PSpawn MqMessage "uid list"
  | PDeliver nat
  | PWriting nat nat
  | PDelete uid int64
  | PDeleting nat uid int64

record 'r cass_proc =
  kcon :: "handler_task consumer"
  cl :: "'r push_client"
  p_dels :: "delivery list"
  p_dlog :: "entry list"
  prog :: "nat \<Rightarrow> progress"
  lost :: "(MqMessage \<times> uid) list"
  null_key :: bool

definition cass_start :: "nat \<Rightarrow> 'r transfer_state \<Rightarrow> 'r cass_proc" where
  "cass_start n t = \<lparr>kcon = consumer_new n, cl = client_start t, p_dels = [], p_dlog = [], prog = (\<lambda>i. PEnd), lost = [],
     null_key = False\<rparr>"

definition halted :: "'r cass_proc \<Rightarrow> bool" where
  "halted s \<longleftrightarrow> null_key s \<or> wild (cl s) \<or> complete_at (cl s) = Asserted"

text \<open>Views of the parts of the state.\<close>

definition goto :: "nat \<Rightarrow> progress \<Rightarrow> 'r cass_proc \<Rightarrow> 'r cass_proc" where
  "goto i p s = s\<lparr>prog := (prog s)(i := p)\<rparr>"

definition on_pt :: "('r transfer_state \<Rightarrow> 'r transfer_state) \<Rightarrow> 'r cass_proc \<Rightarrow> 'r cass_proc" where
  "on_pt f s = s\<lparr>cl := (cl s)\<lparr>pt := f (pt (cl s))\<rparr>\<rparr>"

definition dv :: "'r cass_proc \<Rightarrow> 'r delivering" where
  "dv s = \<lparr>ts = pt (cl s), dels = p_dels s, dlog = p_dlog s\<rparr>"

definition put_dv :: "'r delivering \<Rightarrow> 'r cass_proc \<Rightarrow> 'r cass_proc" where
  "put_dv x s = s\<lparr>cl := (cl s)\<lparr>pt := ts x\<rparr>, p_dels := dels x, p_dlog := dlog x\<rparr>"

definition mark :: "nat \<Rightarrow> d_pc \<Rightarrow> 'r cass_proc \<Rightarrow> 'r cass_proc" where
  "mark d pc s = s\<lparr>p_dels := (p_dels s)[d := (p_dels s ! d)\<lparr>d_pc := pc\<rparr>]\<rparr>"

definition spawn_task :: "handler_task \<Rightarrow> 'r cass_proc \<Rightarrow> tp_error + 'r cass_proc" where
  "spawn_task h s =
     (case Enqueue (c_threads (kcon s)) (HandlerTask h) of
        Inl e \<Rightarrow> Inl e
      | Inr p \<Rightarrow> Inr (s\<lparr>kcon := (kcon s)\<lparr>c_threads := p\<rparr>\<rparr>))"

section \<open>What a worker does\<close>

definition start_delivery :: "nat \<Rightarrow> MqMessage \<Rightarrow> uid \<Rightarrow> 'r cass_proc \<Rightarrow> 'r cass_proc" where
  "start_delivery i mq_message to_uid s =
     goto i (PDeliver (length (p_dels s))) (put_dv (begin_delivery mq_message to_uid (dv s)) s)"

text \<open>The task up to its first access to a shared store.\<close>

definition begin_task :: "pb_rt \<Rightarrow> nat \<Rightarrow> handler_task ktask \<Rightarrow> 'r cass_proc \<Rightarrow> 'r cass_proc" where
  "begin_task rt i t s =
     (case t of
        ConsumeTask message \<Rightarrow>
          if k_err message \<noteq> ERR_NO_ERROR then goto i PEnd s
          else (case MqMessage_ParseFromArray rt (k_payload message) of
                  None \<Rightarrow> goto i PEnd s
                | Some mq_message \<Rightarrow>
                    (case k_key message of
                       None \<Rightarrow> goto i PEnd (s\<lparr>null_key := True\<rparr>)
                     | Some key \<Rightarrow>
                         if msgid_of mq_message \<noteq> key then goto i PEnd s
                         else goto i (PStore mq_message (k_payload message)) s))
      | HandlerTask (MemberTask mq_message to_uid) \<Rightarrow> start_delivery i mq_message to_uid s
      | HandlerTask (CallbackTask call_context) \<Rightarrow>
          let s1 = s\<lparr>cl := (cl s)\<lparr>callbacks := remove1 call_context (callbacks (cl s))\<rparr>\<rparr> in
          (case ctxs (cl s) call_context of
             None \<Rightarrow> goto i PEnd (s1\<lparr>cl := (cl s1)\<lparr>wild := True\<rparr>\<rparr>)
           | Some c \<Rightarrow> goto i (PDelete (PushReq_to_uid (cc_req c)) (PushReq_seq (cc_req c))) s1))"

text \<open>\<open>Acquire\<close> for the statement a worker has come to.\<close>

fun wants :: "delivery list \<Rightarrow> progress \<Rightarrow> (nat \<Rightarrow> progress) option" where
  "wants ds (PStore m x) = Some (\<lambda>c. PStoring c m x)"
| "wants ds (PDeliver d) = (case d_pc (ds ! d) of DNumbered q \<Rightarrow> Some (\<lambda>c. PWriting c d) | _ \<Rightarrow> None)"
| "wants ds (PDelete u q) = Some (\<lambda>c. PDeleting c u q)"
| "wants ds p = None"

definition acquire_session :: "nat \<Rightarrow> 'r cass_proc \<Rightarrow> 'r cass_proc option" where
  "acquire_session i s =
     (case wants (p_dels s) (prog s i) of
        None \<Rightarrow> None
      | Some f \<Rightarrow>
          (case Acquire (c_pool (pt (cl s))) of
             Some (Some c, p) \<Rightarrow> Some (goto i (f c) (on_pt (\<lambda>t. t\<lparr>c_pool := p\<rparr>) s))
           | _ \<Rightarrow> None))"

definition release_session :: "nat \<Rightarrow> 'r cass_proc \<Rightarrow> 'r cass_proc" where
  "release_session c s = on_pt (\<lambda>t. t\<lparr>c_pool := Release (c_pool t) (Some c)\<rparr>) s"

text \<open>\<open>cass_session_execute\<close> and \<open>Release\<close>.\<close>

definition execute_statement :: "bool \<Rightarrow> nat \<Rightarrow> 'r cass_proc \<Rightarrow> 'r cass_proc option" where
  "execute_statement fails i s =
     (case prog s i of
        PStoring c m x \<Rightarrow> Some (goto i (PRoute m) (release_session c (on_pt (messages_stmt fails (msgid_of m) x) s)))
      | PWriting c d \<Rightarrow>
          (case d_pc (p_dels s ! d) of
             DNumbered q \<Rightarrow>
               Some (goto i (PDeliver d) (release_session c (mark d (DWritten fails q)
                 (on_pt (inbox_stmt fails (msgid_of (d_msg (p_dels s ! d))) (d_to (p_dels s ! d)) q) s))))
           | _ \<Rightarrow> None)
      | PDeleting c u q \<Rightarrow> Some (goto i PEnd (release_session c (on_pt (delete_stmt fails u q) s)))
      | _ \<Rightarrow> None)"

text \<open>Who gets a message, and the rest of \<open>CassandraHandle\<close> after the message is stored.\<close>

definition targets :: "ychat_db \<Rightarrow> MqMessage \<Rightarrow> uid list" where
  "targets db m =
     (if is_send_to_group m
      then members_at db (ProtoReq_to_id (MqMessage_origin_req m)) (ProtoResp_timestamp (MqMessage_handle_result m))
      else [ProtoReq_to_id (MqMessage_origin_req m)])"

definition lose :: "MqMessage \<Rightarrow> uid list \<Rightarrow> 'r cass_proc \<Rightarrow> 'r cass_proc" where
  "lose m us s = s\<lparr>lost := lost s @ map (Pair m) us\<rparr>"

definition route_message :: "ychat_db \<Rightarrow> bool \<Rightarrow> nat \<Rightarrow> MqMessage \<Rightarrow> 'r cass_proc \<Rightarrow> 'r cass_proc" where
  "route_message db sql_throws i m s =
     (if is_send_to_group m then
        if sql_throws then goto i PEnd (lose m (targets db m) s)
        else goto i (PSpawn m (targets db m)) s
      else start_delivery i m (ProtoReq_to_id (MqMessage_origin_req m)) s)"

fun spawn_member :: "nat \<Rightarrow> MqMessage \<Rightarrow> uid list \<Rightarrow> 'r cass_proc \<Rightarrow> 'r cass_proc" where
  "spawn_member i m [] s = goto i PEnd s"
| "spawn_member i m (u # us) s =
     (case spawn_task (MemberTask m u) s of
        Inl e \<Rightarrow> goto i PEnd (lose m (u # us) s)
      | Inr s1 \<Rightarrow> goto i (PSpawn m us) s1)"

definition number_member :: "'r redis \<Rightarrow> bool \<Rightarrow> nat \<Rightarrow> nat \<Rightarrow> 'r cass_proc \<Rightarrow> 'r cass_proc" where
  "number_member R throws i d s =
     (if throws then goto i PEnd (lose (d_msg (p_dels s ! d)) [d_to (p_dels s ! d)] s)
      else put_dv (number_delivery R d (dv s)) s)"

definition push_member :: "nat \<Rightarrow> nat \<Rightarrow> bool \<Rightarrow> int64 \<Rightarrow> 'r cass_proc \<Rightarrow> 'r cass_proc" where
  "push_member i d fails q s =
     goto i PEnd (mark d (DPushed fails q) (s\<lparr>cl := start_push (d_msg (p_dels s ! d)) (d_to (p_dels s ! d)) q (cl s)\<rparr>))"

definition finish_worker :: "nat \<Rightarrow> handler_task ktask \<Rightarrow> 'r cass_proc \<Rightarrow> 'r cass_proc" where
  "finish_worker i t s = s\<lparr>kcon := run_ktask i t (kcon s)\<rparr>"

definition busy :: "nat \<Rightarrow> handler_task ktask \<Rightarrow> 'r cass_proc \<Rightarrow> bool" where
  "busy i t s \<longleftrightarrow> i < length (workers (c_threads (kcon s))) \<and> workers (c_threads (kcon s)) ! i = Running t"

definition take_task :: "nat \<Rightarrow> 'r cass_proc \<Rightarrow> 'r cass_proc option" where
  "take_task i s = map_option (\<lambda>p. goto i (if stop p \<and> ThreadPool.tasks (c_threads (kcon s)) = [] then PEnd else PBegin)
     (s\<lparr>kcon := (kcon s)\<lparr>c_threads := p\<rparr>\<rparr>)) (worker_take (c_threads (kcon s)) i)"

inductive work_step :: "pb_rt \<Rightarrow> 'r redis \<Rightarrow> ychat_db \<Rightarrow> 'r cass_proc \<Rightarrow> 'r cass_proc \<Rightarrow> bool"
  for rt :: pb_rt and R :: "'r redis" and db :: ychat_db where
  wk_take: "i < length (workers (c_threads (kcon s))) \<Longrightarrow> workers (c_threads (kcon s)) ! i = Looping \<Longrightarrow>
     take_task i s = Some s' \<Longrightarrow> work_step rt R db s s'"
| wk_begin: "busy i t s \<Longrightarrow> prog s i = PBegin \<Longrightarrow> work_step rt R db s (begin_task rt i t s)"
| wk_acquire: "busy i t s \<Longrightarrow> acquire_session i s = Some s' \<Longrightarrow> work_step rt R db s s'"
| wk_execute: "busy i t s \<Longrightarrow> execute_statement fails i s = Some s' \<Longrightarrow> work_step rt R db s s'"
| wk_route: "busy i t s \<Longrightarrow> prog s i = PRoute m \<Longrightarrow> work_step rt R db s (route_message db throws i m s)"
| wk_spawn: "busy i t s \<Longrightarrow> prog s i = PSpawn m us \<Longrightarrow> work_step rt R db s (spawn_member i m us s)"
| wk_number: "busy i t s \<Longrightarrow> prog s i = PDeliver d \<Longrightarrow> d_pc (p_dels s ! d) = DStart \<Longrightarrow>
     work_step rt R db s (number_member R throws i d s)"
| wk_push: "busy i t s \<Longrightarrow> prog s i = PDeliver d \<Longrightarrow> d_pc (p_dels s ! d) = DWritten f q \<Longrightarrow>
     work_step rt R db s (push_member i d f q s)"
| wk_finish: "busy i t s \<Longrightarrow> prog s i = PEnd \<Longrightarrow> work_step rt R db s (finish_worker i t s)"

section \<open>The process\<close>

text \<open>The completion thread. An \<open>Enqueue\<close> that throws ends the thread and with it the process.\<close>

definition complete_push :: "nat \<Rightarrow> bool \<Rightarrow> bool \<Rightarrow> 'r cass_proc \<Rightarrow> 'r cass_proc" where
  "complete_push c ok status s =
     (let s1 = s\<lparr>cl := rpc_complete c ok status (cl s)\<rparr> in
      if ok \<and> status then
        (case spawn_task (CallbackTask c) s1 of
           Inl e \<Rightarrow> s\<lparr>cl := rpc_complete c False status (cl s)\<rparr>
         | Inr s2 \<Rightarrow> s2)
      else s1)"

inductive cass_step :: "pb_rt \<Rightarrow> 'r redis \<Rightarrow> ychat_db \<Rightarrow> 'r cass_proc \<Rightarrow> 'r cass_proc \<Rightarrow> bool"
  for rt :: pb_rt and R :: "'r redis" and db :: ychat_db where
  cp_test: "\<not> halted s \<Longrightarrow> c_point (kcon s) = Testing \<Longrightarrow> cass_step rt R db s (s\<lparr>kcon := run_test (kcon s)\<rparr>)"
| cp_poll: "\<not> halted s \<Longrightarrow> c_point (kcon s) = Polling \<Longrightarrow> run_poll m (kcon s) = Inr c \<Longrightarrow>
     cass_step rt R db s (s\<lparr>kcon := c\<rparr>)"
| cp_work: "\<not> halted s \<Longrightarrow> work_step rt R db s s' \<Longrightarrow> cass_step rt R db s s'"
| cp_next: "\<not> halted s \<Longrightarrow> complete_at (cl s) = InNext \<Longrightarrow> c \<in> set (in_flight (cl s)) \<Longrightarrow>
     cass_step rt R db s (complete_push c ok status s)"
| cp_delete: "\<not> halted s \<Longrightarrow> complete_at (cl s) = BeforeDelete c \<Longrightarrow>
     cass_step rt R db s (s\<lparr>cl := delete_context c (cl s)\<rparr>)"
| cp_destroy: "\<not> halted s \<Longrightarrow> c_point (kcon s) = Closed \<Longrightarrow>
     cass_step rt R db s (s\<lparr>kcon := (kcon s)\<lparr>c_threads := destroy (c_threads (kcon s))\<rparr>\<rparr>)"

section \<open>Fields\<close>

lemma goto_fields [simp]:
  "kcon (goto i p s) = kcon s" "cl (goto i p s) = cl s" "p_dels (goto i p s) = p_dels s" "p_dlog (goto i p s) = p_dlog s"
  "prog (goto i p s) = (prog s)(i := p)" "lost (goto i p s) = lost s" "null_key (goto i p s) = null_key s"
  by (simp_all add: goto_def)

lemma on_pt_fields [simp]:
  "kcon (on_pt f s) = kcon s" "cl (on_pt f s) = (cl s)\<lparr>pt := f (pt (cl s))\<rparr>" "p_dels (on_pt f s) = p_dels s"
  "p_dlog (on_pt f s) = p_dlog s" "prog (on_pt f s) = prog s" "lost (on_pt f s) = lost s" "null_key (on_pt f s) = null_key s"
  by (simp_all add: on_pt_def)

lemma put_dv_fields [simp]:
  "kcon (put_dv x s) = kcon s" "cl (put_dv x s) = (cl s)\<lparr>pt := ts x\<rparr>" "p_dels (put_dv x s) = dels x"
  "p_dlog (put_dv x s) = dlog x" "prog (put_dv x s) = prog s" "lost (put_dv x s) = lost s" "null_key (put_dv x s) = null_key s"
  by (simp_all add: put_dv_def)

lemma mark_fields [simp]:
  "kcon (mark d pc s) = kcon s" "cl (mark d pc s) = cl s"
  "p_dels (mark d pc s) = (p_dels s)[d := (p_dels s ! d)\<lparr>d_pc := pc\<rparr>]"
  "p_dlog (mark d pc s) = p_dlog s" "prog (mark d pc s) = prog s" "lost (mark d pc s) = lost s"
  by (simp_all add: mark_def)

lemma lose_fields [simp]:
  "kcon (lose m us s) = kcon s" "cl (lose m us s) = cl s" "p_dels (lose m us s) = p_dels s" "p_dlog (lose m us s) = p_dlog s"
  "prog (lose m us s) = prog s" "lost (lose m us s) = lost s @ map (Pair m) us"
  by (simp_all add: lose_def)

lemma dv_fields [simp]: "ts (dv s) = pt (cl s)" "dels (dv s) = p_dels s" "dlog (dv s) = p_dlog s"
  by (simp_all add: dv_def)

section \<open>The process runs the consumer\<close>

lemma spawn_task_Inr:
  assumes "spawn_task h s = Inr s'"
  obtains p where "Enqueue (c_threads (kcon s)) (HandlerTask h) = Inr p" "s' = s\<lparr>kcon := (kcon s)\<lparr>c_threads := p\<rparr>\<rparr>"
  using assms by (auto simp: spawn_task_def split: sum.splits)

lemma begin_task_kcon [simp]: "kcon (begin_task rt i t s) = kcon s"
  by (auto simp: begin_task_def start_delivery_def Let_def split: ktask.split handler_task.split option.split)

lemma work_step_consumer: "work_step rt R db s s' \<Longrightarrow> consumer_step\<^sup>=\<^sup>= (kcon s) (kcon s')"
proof (induction rule: work_step.induct)
  case (wk_take i s s')
  then show ?case by (auto simp: take_task_def intro: cs_take)
next
  case (wk_acquire i t s s')
  then show ?case by (auto simp: acquire_session_def split: option.splits)
next
  case (wk_execute i t s fails s')
  then show ?case by (auto simp: execute_statement_def release_session_def split: progress.splits d_pc.splits)
next
  case (wk_spawn i t s m us)
  then show ?case by (cases us) (auto simp: spawn_task_def split: sum.split intro: cs_spawn)
next
  case (wk_finish i t s)
  then show ?case by (auto simp: finish_worker_def busy_def intro: cs_run)
qed (simp_all add: route_message_def start_delivery_def number_member_def push_member_def)

lemma cass_step_consumer: "cass_step rt R db s s' \<Longrightarrow> consumer_step\<^sup>=\<^sup>= (kcon s) (kcon s')"
proof (induction rule: cass_step.induct)
  case (cp_work s s')
  then show ?case using work_step_consumer by blast
next
  case (cp_next s c ok status)
  then show ?case by (auto simp: complete_push_def spawn_task_def Let_def split: sum.split intro: cs_spawn)
qed (auto intro: cs_test cs_poll cs_destroy)

interpretation kp: consumer_process "cass_step rt R db" kcon
  by unfold_locales (rule cass_step_consumer)

section \<open>Where the workers are\<close>

fun del_of :: "progress \<Rightarrow> nat option" where
  "del_of (PDeliver d) = Some d"
| "del_of (PWriting c d) = Some d"
| "del_of p = None"

text \<open>The delivery a worker is at has come as far as the worker.\<close>

fun at_point :: "delivery list \<Rightarrow> progress \<Rightarrow> bool" where
  "at_point ds (PDeliver d) \<longleftrightarrow> d < length ds \<and> (\<forall>f q. d_pc (ds ! d) \<noteq> DPushed f q)"
| "at_point ds (PWriting c d) \<longleftrightarrow> d < length ds \<and> (\<exists>q. d_pc (ds ! d) = DNumbered q)"
| "at_point ds p \<longleftrightarrow> True"

definition prog_ok :: "'r cass_proc \<Rightarrow> bool" where
  "prog_ok s \<longleftrightarrow> (\<forall>i. at_point (p_dels s) (prog s i)) \<and>
     (\<forall>i j d. del_of (prog s i) = Some d \<longrightarrow> del_of (prog s j) = Some d \<longrightarrow> i = j) \<and>
     (\<forall>i. (\<nexists>t. busy i t s) \<longrightarrow> prog s i = PEnd)"

lemma prog_okD:
  assumes "prog_ok s"
  shows prog_at: "at_point (p_dels s) (prog s i)"
    and prog_inj: "del_of (prog s i) = Some d \<Longrightarrow> del_of (prog s j) = Some d \<Longrightarrow> i = j"
    and prog_idle: "\<nexists>t. busy i t s \<Longrightarrow> prog s i = PEnd"
  using assms unfolding prog_ok_def by blast+

lemma at_point_cong:
  assumes "at_point ds p" and "\<And>d. del_of p = Some d \<Longrightarrow> d < length ds \<Longrightarrow> d < length ds' \<and> ds' ! d = ds ! d"
  shows "at_point ds' p"
  using assms by (cases p) auto

text \<open>A step of worker \<open>i\<close> to \<open>p\<close>, which touches no delivery of another worker.\<close>

lemma prog_ok_step:
  assumes ok: "prog_ok s" and pr: "prog s' = (prog s)(i := p)" and p: "at_point (p_dels s') p"
    and own: "\<And>d. del_of p = Some d \<Longrightarrow> del_of (prog s i) = Some d \<or> length (p_dels s) \<le> d"
    and same: "\<And>d. d < length (p_dels s) \<Longrightarrow> del_of (prog s i) \<noteq> Some d \<Longrightarrow> d < length (p_dels s') \<and> p_dels s' ! d = p_dels s ! d"
    and idle: "\<And>j. \<nexists>t. busy j t s' \<Longrightarrow> j \<noteq> i \<Longrightarrow> \<nexists>t. busy j t s" "\<nexists>t. busy i t s' \<Longrightarrow> p = PEnd"
  shows "prog_ok s'"
proof -
  have lt: "d < length (p_dels s)" if "del_of (prog s j) = Some d" for j d
    using prog_at [OF ok, of j] that by (cases "prog s j") auto
  have other: "at_point (p_dels s') (prog s j)" if "j \<noteq> i" for j
    by (rule at_point_cong [OF prog_at [OF ok]]) (use same prog_inj [OF ok] that in blast)
  have new: "del_of (prog s j) \<noteq> Some d" if "j \<noteq> i" "del_of p = Some d" for j d
    using own [OF that(2)] prog_inj [OF ok] lt [of j d] that(1) by fastforce
  have "at_point (p_dels s') (prog s' j)" for j using other p by (simp add: pr)
  moreover have "j = k" if "del_of (prog s' j) = Some d" "del_of (prog s' k) = Some d" for j k d
    using that new prog_inj [OF ok, of j d k] by (auto simp: pr split: if_splits)
  moreover have "prog s' j = PEnd" if "\<nexists>t. busy j t s'" for j
    using that idle prog_idle [OF ok, of j] by (auto simp: pr)
  ultimately show ?thesis unfolding prog_ok_def by blast
qed

text \<open>The case of a step that leaves the deliveries and the pool's workers alone.\<close>

lemma prog_ok_goto:
  assumes "prog_ok s" and "prog s' = (prog s)(i := p)" and "p_dels s' = p_dels s" and "busy i t s"
    and "\<And>j u. busy j u s' = busy j u s" and "at_point (p_dels s) p" and "del_of p = None \<or> del_of p = del_of (prog s i)"
  shows "prog_ok s'"
  by (rule prog_ok_step [OF assms(1,2)]) (use assms in auto)

lemma busy_cong: "workers (c_threads (kcon s')) = workers (c_threads (kcon s)) \<Longrightarrow> busy j u s' = busy j u s"
  by (simp add: busy_def)

lemma start_delivery_ok:
  assumes "prog_ok s" and "busy i t s"
  shows "prog_ok (start_delivery i m u s)"
  by (rule prog_ok_step [OF assms(1), where i = i and p = "PDeliver (length (p_dels s))"])
     (use assms(2) in \<open>auto simp: start_delivery_def begin_delivery_def nth_append busy_def\<close>)

lemma begin_task_member [simp]: "begin_task rt i (HandlerTask (MemberTask m u)) s = start_delivery i m u s"
  by (simp add: begin_task_def)

lemma begin_task_other:
  assumes "\<And>m u. t \<noteq> HandlerTask (MemberTask m u)"
  shows "prog (begin_task rt i t s) = (prog s)(i := prog (begin_task rt i t s) i)" "p_dels (begin_task rt i t s) = p_dels s"
    "del_of (prog (begin_task rt i t s) i) = None"
  using assms by (simp_all add: begin_task_def Let_def split: ktask.split handler_task.split option.split)

lemma begin_task_ok:
  assumes "prog_ok s" and "busy i t s" and "prog s i = PBegin"
  shows "prog_ok (begin_task rt i t s)"
proof (cases "\<exists>m u. t = HandlerTask (MemberTask m u)")
  case True
  then show ?thesis using start_delivery_ok [OF assms(1,2)] by auto
next
  case False
  then have t: "t \<noteq> HandlerTask (MemberTask m u)" for m u by blast
  note b = begin_task_other [OF t, where rt = rt and i = i and s = s]
  have "at_point (p_dels s) (prog (begin_task rt i t s) i)" using b(3) by (cases "prog (begin_task rt i t s) i") auto
  then show ?thesis using b by (intro prog_ok_goto [OF assms(1) b(1,2) assms(2) busy_cong]) simp_all
qed

lemma acquire_session_Some:
  assumes "acquire_session i s = Some s'"
  obtains f c p where "wants (p_dels s) (prog s i) = Some f" "Acquire (c_pool (pt (cl s))) = Some (Some c, p)"
    "s' = goto i (f c) (on_pt (\<lambda>t. t\<lparr>c_pool := p\<rparr>) s)"
  using assms by (auto simp: acquire_session_def split: option.splits)

lemma wants_point: "wants ds p = Some f \<Longrightarrow> at_point ds p \<Longrightarrow> at_point ds (f c) \<and> del_of (f c) = del_of p"
  by (cases p) (auto split: d_pc.splits)

lemma acquire_session_ok:
  assumes "prog_ok s" and "busy i t s" and "acquire_session i s = Some s'"
  shows "prog_ok s'"
proof -
  from assms(3) obtain f c p where f: "wants (p_dels s) (prog s i) = Some f" "Acquire (c_pool (pt (cl s))) = Some (Some c, p)"
    "s' = goto i (f c) (on_pt (\<lambda>t. t\<lparr>c_pool := p\<rparr>) s)" by (rule acquire_session_Some)
  then show ?thesis using wants_point [OF f(1) prog_at [OF assms(1)], of c]
    by (intro prog_ok_goto [OF assms(1) _ _ assms(2) busy_cong]) (auto simp: f(3))
qed

text \<open>The three statements.\<close>

lemma execute_statement_cases:
  assumes "execute_statement fails i s = Some s'"
  obtains (stored) c m x where "prog s i = PStoring c m x"
      "s' = goto i (PRoute m) (release_session c (on_pt (messages_stmt fails (msgid_of m) x) s))"
  | (written) c d q where "prog s i = PWriting c d" "d_pc (p_dels s ! d) = DNumbered q"
      "s' = goto i (PDeliver d) (release_session c (mark d (DWritten fails q)
         (on_pt (inbox_stmt fails (msgid_of (d_msg (p_dels s ! d))) (d_to (p_dels s ! d)) q) s)))"
  | (deleted) c u q where "prog s i = PDeleting c u q" "s' = goto i PEnd (release_session c s)"
  using assms unfolding execute_statement_def
  by (auto split: progress.splits d_pc.splits simp: on_pt_def)

lemma execute_statement_ok:
  assumes "prog_ok s" and "busy i t s" and "execute_statement fails i s = Some s'"
  shows "prog_ok s'"
  using assms(3)
proof (cases rule: execute_statement_cases)
  case (stored c m x)
  then show ?thesis using assms by (intro prog_ok_goto [OF assms(1) _ _ assms(2) busy_cong]) (auto simp: release_session_def)
next
  case (written c d q)
  have d: "d < length (p_dels s)" using prog_at [OF assms(1), of i] written(1) by simp
  show ?thesis
    by (rule prog_ok_step [OF assms(1), where i = i and p = "PDeliver d"])
       (use written d assms(2) in \<open>auto simp: release_session_def busy_def\<close>)
next
  case (deleted c u q)
  then show ?thesis using assms by (intro prog_ok_goto [OF assms(1) _ _ assms(2) busy_cong]) (auto simp: release_session_def)
qed

lemma Enqueue_workers: "Enqueue p t = Inr p' \<Longrightarrow> workers p' = workers p"
  and Enqueue_tasks: "Enqueue p t = Inr p' \<Longrightarrow> ThreadPool.tasks p' = ThreadPool.tasks p @ [t]"
  by (auto simp: Enqueue_def split: if_splits)

lemma spawn_member_ok:
  assumes "prog_ok s" and "busy i t s"
  shows "prog_ok (spawn_member i m us s)"
proof (cases us)
  case Nil
  then show ?thesis using assms by (intro prog_ok_goto [OF assms(1) _ _ assms(2) busy_cong, where p = PEnd]) simp_all
next
  case (Cons u vs)
  show ?thesis
  proof (cases "spawn_task (MemberTask m u) s")
    case (Inl e)
    then show ?thesis using assms Cons
      by (intro prog_ok_goto [OF assms(1) _ _ assms(2) busy_cong, where p = PEnd]) simp_all
  next
    case (Inr s1)
    obtain p where p: "Enqueue (c_threads (kcon s)) (HandlerTask (MemberTask m u)) = Inr p"
      "s1 = s\<lparr>kcon := (kcon s)\<lparr>c_threads := p\<rparr>\<rparr>" using spawn_task_Inr [OF Inr] .
    then show ?thesis using Cons Inr assms Enqueue_workers [OF p(1)]
      by (intro prog_ok_goto [OF assms(1) _ _ assms(2) busy_cong, where p = "PSpawn m vs"]) simp_all
  qed
qed

lemma number_delivery_dels:
  "dels (number_delivery R d x) = (dels x)[d := (dels x ! d)\<lparr>d_pc := DNumbered (fst (r_hincrby R (t_store (ts x))
     (redis_user_prefix @ fmt_u64 (d_to (dels x ! d))) ''seq'' 1))\<rparr>]"
  by (simp add: number_delivery_def Let_def split: prod.split)

lemma number_member_ok:
  assumes "prog_ok s" and "busy i t s" and "prog s i = PDeliver d"
  shows "prog_ok (number_member R throws i d s)"
proof (cases throws)
  case True
  then show ?thesis using assms
    by (intro prog_ok_goto [OF assms(1) _ _ assms(2) busy_cong, where p = PEnd]) (simp_all add: number_member_def)
next
  case False
  have d: "d < length (p_dels s)" using prog_at [OF assms(1), of i] assms(3) by simp
  have p: "prog (number_member R throws i d s) = (prog s)(i := PDeliver d)" using assms(3) False by (auto simp: number_member_def)
  show ?thesis
    by (rule prog_ok_step [OF assms(1) p])
       (use False d assms(2,3) in \<open>auto simp: number_member_def number_delivery_dels busy_def\<close>)
qed

lemma push_member_ok:
  assumes "prog_ok s" and "busy i t s" and "prog s i = PDeliver d"
  shows "prog_ok (push_member i d f q s)"
  by (rule prog_ok_step [OF assms(1), where i = i and p = PEnd])
     (use assms(2,3) in \<open>auto simp: push_member_def busy_def\<close>)

lemma route_message_ok:
  assumes "prog_ok s" and "busy i t s"
  shows "prog_ok (route_message db throws i m s)"
proof (cases "is_send_to_group m")
  case True
  then obtain p where "prog (route_message db throws i m s) = (prog s)(i := p)" "del_of p = None" "at_point (p_dels s) p"
    by (cases throws) (auto simp: route_message_def)
  then show ?thesis using True assms
    by (intro prog_ok_goto [OF assms(1) _ _ assms(2) busy_cong, where p = p]) (simp_all add: route_message_def)
qed (use start_delivery_ok [OF assms] in \<open>simp add: route_message_def\<close>)

lemma take_task_Some:
  assumes "take_task i s = Some s'"
  obtains (exits) "stop (c_threads (kcon s))" "ThreadPool.tasks (c_threads (kcon s)) = []"
      "s' = goto i PEnd (s\<lparr>kcon := (kcon s)\<lparr>c_threads := (c_threads (kcon s))
         \<lparr>workers := (workers (c_threads (kcon s)))[i := Exited]\<rparr>\<rparr>\<rparr>)"
  | (takes) t rest where "ThreadPool.tasks (c_threads (kcon s)) = t # rest"
      "s' = goto i PBegin (s\<lparr>kcon := (kcon s)\<lparr>c_threads := (c_threads (kcon s))
         \<lparr>workers := (workers (c_threads (kcon s)))[i := Running t], tasks := rest,
          started := started (c_threads (kcon s)) @ [t]\<rparr>\<rparr>\<rparr>)"
proof (cases "ThreadPool.tasks (c_threads (kcon s))")
  case Nil
  then show thesis using assms exits by (auto simp: take_task_def worker_take_def split: if_splits)
next
  case (Cons t rest)
  then show thesis using assms takes by (simp add: take_task_def worker_take_def)
qed

lemma take_task_ok:
  assumes "prog_ok s" and "i < length (workers (c_threads (kcon s)))" and "workers (c_threads (kcon s)) ! i = Looping"
    and "take_task i s = Some s'"
  shows "prog_ok s'"
proof -
  have "prog s i = PEnd" using assms(3) by (intro prog_idle [OF assms(1)]) (simp add: busy_def)
  from assms(4) show ?thesis
  proof (cases rule: take_task_Some)
    case exits
    then show ?thesis using assms(2,3)
      by (intro prog_ok_step [OF assms(1), where i = i and p = PEnd]) (auto simp: busy_def)
  next
    case (takes t rest)
    then show ?thesis using assms(2,3)
      by (intro prog_ok_step [OF assms(1), where i = i and p = PBegin]) (auto simp: busy_def)
  qed
qed

lemma finish_worker_ok:
  assumes "prog_ok s" and "busy i t s" and "prog s i = PEnd"
  shows "prog_ok (finish_worker i t s)"
  by (rule prog_ok_step [OF assms(1), where i = i and p = PEnd])
     (use assms(2,3) in \<open>auto simp: finish_worker_def busy_def worker_done_def\<close>)

lemma work_step_ok: "work_step rt R db s s' \<Longrightarrow> prog_ok s \<Longrightarrow> prog_ok s'"
  by (induction rule: work_step.induct)
     (blast intro: take_task_ok begin_task_ok acquire_session_ok execute_statement_ok route_message_ok spawn_member_ok
       number_member_ok push_member_ok finish_worker_ok)+

lemma prog_ok_cong:
  assumes "prog_ok s" and "prog s' = prog s" and "p_dels s' = p_dels s"
    and "workers (c_threads (kcon s')) = workers (c_threads (kcon s))"
  shows "prog_ok s'"
  using assms unfolding prog_ok_def busy_def by simp

lemma complete_push_fields:
  "prog (complete_push c ok status s) = prog s" "p_dels (complete_push c ok status s) = p_dels s"
  "p_dlog (complete_push c ok status s) = p_dlog s" "lost (complete_push c ok status s) = lost s"
  "pt (cl (complete_push c ok status s)) = pt (cl s)"
  "workers (c_threads (kcon (complete_push c ok status s))) = workers (c_threads (kcon s))"
  by (auto simp: complete_push_def rpc_complete_def spawn_task_def Let_def Enqueue_workers split: sum.split)

lemma cass_step_ok: "cass_step rt R db s s' \<Longrightarrow> prog_ok s \<Longrightarrow> prog_ok s'"
proof (induction rule: cass_step.induct)
  case (cp_poll s m c)
  then have "workers (c_threads c) = workers (c_threads (kcon s))"
    by (auto simp: run_poll_def Enqueue_def split: sum.splits if_splits)
  then show ?case by (intro prog_ok_cong [OF cp_poll(4)]) simp_all
next
  case (cp_work s s')
  then show ?case using work_step_ok by blast
next
  case (cp_next s c ok status)
  show ?case by (rule prog_ok_cong [OF cp_next(4)]) (simp_all add: complete_push_fields)
next
  case (cp_test s)
  show ?case by (rule prog_ok_cong [OF cp_test(3)]) (simp_all add: run_test_def)
next
  case (cp_delete s c)
  show ?case by (rule prog_ok_cong [OF cp_delete(3)]) simp_all
next
  case (cp_destroy s)
  show ?case by (rule prog_ok_cong [OF cp_destroy(3)]) (simp_all add: destroy_def)
qed

lemma cass_start_ok: "prog_ok (cass_start n t)"
  by (simp add: prog_ok_def cass_start_def)

section \<open>The process makes deliveries\<close>

text \<open>The deliveries of the process, seen with a pool of one session that is always there.\<close>

definition one_session :: "nat ConnectionPool" where
  "one_session = \<lparr>pool = [Some 0], is_stop = False\<rparr>"

definition abs_dv :: "'r cass_proc \<Rightarrow> 'r delivering" where
  "abs_dv s = (dv s)\<lparr>ts := (pt (cl s))\<lparr>c_pool := one_session\<rparr>\<rparr>"

lemma abs_dv_eq: "abs_dv s = \<lparr>ts = (pt (cl s))\<lparr>c_pool := one_session\<rparr>, dels = p_dels s, dlog = p_dlog s\<rparr>"
  by (simp add: abs_dv_def dv_def)

lemma abs_dv_fields [simp]: "dels (abs_dv s) = p_dels s" "dlog (abs_dv s) = p_dlog s"
  by (simp_all add: abs_dv_eq)

lemma abs_dv_cong:
  assumes "p_dels s' = p_dels s" and "p_dlog s' = p_dlog s" and "pt (cl s') = (pt (cl s))\<lparr>c_pool := p\<rparr>"
  shows "abs_dv s' = abs_dv s"
  using assms by (simp add: abs_dv_eq)

lemma abs_dv_same: "p_dels s' = p_dels s \<Longrightarrow> p_dlog s' = p_dlog s \<Longrightarrow> pt (cl s') = pt (cl s) \<Longrightarrow> abs_dv s' = abs_dv s"
  by (simp add: abs_dv_eq)

lemma start_delivery_abs: "abs_dv (start_delivery i m u s) = begin_delivery m u (abs_dv s)"
  by (simp add: abs_dv_eq start_delivery_def begin_delivery_def)

lemma number_member_abs: "abs_dv (put_dv (number_delivery R d (dv s)) s) = number_delivery R d (abs_dv s)"
  by (simp add: abs_dv_eq number_delivery_def Let_def split: prod.split)

lemma push_member_abs: "abs_dv (push_member i d f q s) = push_delivery d f q (abs_dv s)"
  by (simp add: abs_dv_eq push_member_def push_delivery_def start_push_def AsyncPush_def Let_def)

lemma begin_task_abs:
  "abs_dv (begin_task rt i t s) = abs_dv s \<or> (\<exists>m u. abs_dv (begin_task rt i t s) = begin_delivery m u (abs_dv s))"
proof (cases "\<exists>m u. t = HandlerTask (MemberTask m u)")
  case True
  then obtain m u where "t = HandlerTask (MemberTask m u)" by blast
  then have "abs_dv (begin_task rt i t s) = begin_delivery m u (abs_dv s)" by (simp add: start_delivery_abs)
  then show ?thesis by blast
next
  case False
  then have "abs_dv (begin_task rt i t s) = abs_dv s"
    by (intro abs_dv_same) (simp_all add: begin_task_def Let_def split: ktask.split handler_task.split option.split)
  then show ?thesis ..
qed

lemma execute_statement_abs:
  assumes "prog_ok s" and "execute_statement fails i s = Some s'"
  shows "abs_dv s' = abs_dv s \<or> (delivery_step R) (abs_dv s) (abs_dv s')"
  using assms(2)
proof (cases rule: execute_statement_cases)
  case (stored c m x)
  have "abs_dv s' = (abs_dv s)\<lparr>ts := messages_stmt fails (msgid_of m) x (ts (abs_dv s))\<rparr>"
    by (simp add: stored(2) abs_dv_eq release_session_def messages_stmt_def)
  then show ?thesis using dv_store by metis
next
  case (written c d q)
  have d: "d < length (p_dels s)" using prog_at [OF assms(1), of i] written(1) by simp
  have "write_delivery fails d q (abs_dv s) = Some (abs_dv s')"
    by (simp add: write_one_session written(3) abs_dv_eq release_session_def one_session_def inbox_stmt_def)
  then show ?thesis using d written(2) by (intro disjI2 dv_write) (simp_all add: abs_dv_eq)
next
  case (deleted c u q)
  then have "abs_dv s' = abs_dv s" by (intro abs_dv_cong) (simp_all add: release_session_def)
  then show ?thesis ..
qed

lemma work_step_delivery: "work_step rt R db s s' \<Longrightarrow> prog_ok s \<Longrightarrow> (delivery_step R)\<^sup>=\<^sup>= (abs_dv s) (abs_dv s')"
proof (induction rule: work_step.induct)
  case (wk_take i s s')
  then have "abs_dv s' = abs_dv s" by (intro abs_dv_same) (auto simp: take_task_def)
  then show ?case by simp
next
  case (wk_begin i t s)
  from begin_task_abs [of rt i t s] show ?case by (elim disjE exE) (simp_all add: dv_begin)
next
  case (wk_acquire i t s s')
  from wk_acquire(2) obtain f c p where "wants (p_dels s) (prog s i) = Some f" "Acquire (c_pool (pt (cl s))) = Some (Some c, p)"
    "s' = goto i (f c) (on_pt (\<lambda>t. t\<lparr>c_pool := p\<rparr>) s)" by (rule acquire_session_Some)
  then have "abs_dv s' = abs_dv s" by (intro abs_dv_cong [where p = p]) simp_all
  then show ?case by simp
next
  case (wk_execute i t s fails s')
  from execute_statement_abs [OF wk_execute(3,2), of R] show ?case by (elim disjE) simp_all
next
  case (wk_route i t s m throws)
  have "abs_dv (route_message db throws i m s) = abs_dv s \<or>
      (\<exists>u. abs_dv (route_message db throws i m s) = begin_delivery m u (abs_dv s))"
    by (auto simp: route_message_def start_delivery_abs intro: abs_dv_same)
  then show ?case by (elim disjE exE) (simp_all add: dv_begin)
next
  case (wk_spawn i t s m us)
  have "abs_dv (spawn_member i m us s) = abs_dv s"
    by (cases us) (auto simp: spawn_task_def split: sum.split intro!: abs_dv_same)
  then show ?case by simp
next
  case (wk_number i t s d throws)
  have d: "d < length (p_dels s)" using prog_at [OF wk_number(4), of i] wk_number(2) by simp
  show ?case
  proof (cases throws)
    case True
    then have "abs_dv (number_member R throws i d s) = abs_dv s" by (intro abs_dv_same) (simp_all add: number_member_def)
    then show ?thesis by simp
  next
    case False
    then have "abs_dv (number_member R throws i d s) = number_delivery R d (abs_dv s)"
      by (simp add: number_member_def number_member_abs)
    then show ?thesis using d wk_number(3) dv_number [of d "abs_dv s" R] by simp
  qed
next
  case (wk_push i t s d f q)
  have "d < length (p_dels s)" using prog_at [OF wk_push(4), of i] wk_push(2) by simp
  then show ?case using wk_push(3) dv_push [of d "abs_dv s" f q R] by (simp add: push_member_abs)
next
  case (wk_finish i t s)
  have "abs_dv (finish_worker i t s) = abs_dv s" by (rule abs_dv_same) (simp_all add: finish_worker_def)
  then show ?case by simp
qed

lemma cass_step_delivery: "cass_step rt R db s s' \<Longrightarrow> prog_ok s \<Longrightarrow> (delivery_step R)\<^sup>=\<^sup>= (abs_dv s) (abs_dv s')"
proof (induction rule: cass_step.induct)
  case (cp_work s s')
  then show ?case using work_step_delivery by blast
next
  case (cp_next s c ok status)
  have "abs_dv (complete_push c ok status s) = abs_dv s" by (rule abs_dv_same) (simp_all add: complete_push_fields)
  then show ?case by simp
qed (simp_all add: abs_dv_eq delete_context_def)

lemma cass_steps_delivery:
  "(cass_step rt R db)\<^sup>*\<^sup>* s s' \<Longrightarrow> prog_ok s \<Longrightarrow> prog_ok s' \<and> (delivery_step R)\<^sup>*\<^sup>* (abs_dv s) (abs_dv s')"
proof (induction rule: rtranclp_induct)
  case (step t u)
  then have "prog_ok u" "(delivery_step R)\<^sup>=\<^sup>= (abs_dv t) (abs_dv u)" using cass_step_ok cass_step_delivery by blast+
  then show ?case using step by (auto intro: rtranclp.rtrancl_into_rtrancl)
qed simp

section \<open>No receiver is forgotten\<close>

text \<open>Who is owed a message: by a polled Kafka message, by a task, and by a worker.\<close>

definition receivers :: "pb_rt \<Rightarrow> ychat_db \<Rightarrow> kmsg \<Rightarrow> (MqMessage \<times> uid) multiset" where
  "receivers rt db m =
     (if k_err m \<noteq> ERR_NO_ERROR then {#}
      else case MqMessage_ParseFromArray rt (k_payload m) of
        None \<Rightarrow> {#}
      | Some mq \<Rightarrow> if k_key m = Some (msgid_of mq) then mset (map (Pair mq) (targets db mq)) else {#})"

fun task_owes :: "pb_rt \<Rightarrow> ychat_db \<Rightarrow> handler_task ktask \<Rightarrow> (MqMessage \<times> uid) multiset" where
  "task_owes rt db (ConsumeTask m) = receivers rt db m"
| "task_owes rt db (HandlerTask (MemberTask m u)) = {#(m, u)#}"
| "task_owes rt db (HandlerTask (CallbackTask c)) = {#}"

fun prog_owes :: "ychat_db \<Rightarrow> delivery list \<Rightarrow> progress \<Rightarrow> (MqMessage \<times> uid) multiset" where
  "prog_owes db ds (PStore m x) = mset (map (Pair m) (targets db m))"
| "prog_owes db ds (PStoring c m x) = mset (map (Pair m) (targets db m))"
| "prog_owes db ds (PRoute m) = mset (map (Pair m) (targets db m))"
| "prog_owes db ds (PSpawn m us) = mset (map (Pair m) us)"
| "prog_owes db ds (PDeliver d) = {#(d_msg (ds ! d), d_to (ds ! d))#}"
| "prog_owes db ds (PWriting c d) = {#(d_msg (ds ! d), d_to (ds ! d))#}"
| "prog_owes db ds p = {#}"

definition worker_owes :: "pb_rt \<Rightarrow> ychat_db \<Rightarrow> 'r cass_proc \<Rightarrow> nat \<Rightarrow> (MqMessage \<times> uid) multiset" where
  "worker_owes rt db s i =
     (case workers (c_threads (kcon s)) ! i of
        Running t \<Rightarrow> if prog s i = PBegin then task_owes rt db t else prog_owes db (p_dels s) (prog s i)
      | _ \<Rightarrow> {#})"

definition owed :: "pb_rt \<Rightarrow> ychat_db \<Rightarrow> 'r cass_proc \<Rightarrow> (MqMessage \<times> uid) multiset" where
  "owed rt db s = (\<Sum>t \<in># mset (ThreadPool.tasks (c_threads (kcon s))). task_owes rt db t) +
     (\<Sum>i < length (workers (c_threads (kcon s))). worker_owes rt db s i)"

definition pushed :: "'r transfer_state \<Rightarrow> (MqMessage \<times> uid) multiset" where
  "pushed t = mset (map (\<lambda>p. (PushReq_message p, PushReq_to_uid p)) (pushes t))"

definition due :: "pb_rt \<Rightarrow> ychat_db \<Rightarrow> 'r cass_proc \<Rightarrow> (MqMessage \<times> uid) multiset" where
  "due rt db s = (\<Sum>m \<in># mset (c_polled (kcon s)). receivers rt db m)"

definition accounted :: "pb_rt \<Rightarrow> ychat_db \<Rightarrow> 'r cass_proc \<Rightarrow> (MqMessage \<times> uid) multiset" where
  "accounted rt db s = pushed (pt (cl s)) + mset (lost s) + owed rt db s"

text \<open>A step of worker \<open>i\<close>: what it and the queue owed is owed, pushed or lost afterwards.\<close>

lemma accounted_step:
  assumes "i < length (workers (c_threads (kcon s)))"
    and "length (workers (c_threads (kcon s'))) = length (workers (c_threads (kcon s)))"
    and "\<And>j. j \<noteq> i \<Longrightarrow> worker_owes rt db s' j = worker_owes rt db s j"
    and "pushed (pt (cl s')) + mset (lost s') + worker_owes rt db s' i +
           (\<Sum>t \<in># mset (ThreadPool.tasks (c_threads (kcon s'))). task_owes rt db t) =
         pushed (pt (cl s)) + mset (lost s) + worker_owes rt db s i +
           (\<Sum>t \<in># mset (ThreadPool.tasks (c_threads (kcon s))). task_owes rt db t)"
  shows "accounted rt db s' = accounted rt db s"
proof -
  let ?n = "length (workers (c_threads (kcon s)))"
  have "sum (worker_owes rt db s') {..<?n} + worker_owes rt db s i = sum (worker_owes rt db s) {..<?n} + worker_owes rt db s' i"
    using assms(1,3) by (intro sum_worker) auto
  from exchange [OF this assms(4)] show ?thesis by (simp add: accounted_def owed_def assms(2))
qed

text \<open>Deliveries are only added and marked.\<close>

definition keeps_dels :: "delivery list \<Rightarrow> delivery list \<Rightarrow> bool" where
  "keeps_dels ds ds' \<longleftrightarrow> (\<forall>d < length ds. d_msg (ds' ! d) = d_msg (ds ! d) \<and> d_to (ds' ! d) = d_to (ds ! d))"

lemma keeps_dels_simps [simp]: "keeps_dels ds ds" "keeps_dels ds (ds @ xs)" "keeps_dels ds (ds[d := (ds ! d)\<lparr>d_pc := pc\<rparr>])"
  by (simp_all add: keeps_dels_def nth_append) (cases "d < length ds"; simp add: nth_list_update)

lemma prog_owes_keeps: "at_point ds p \<Longrightarrow> keeps_dels ds ds' \<Longrightarrow> prog_owes db ds' p = prog_owes db ds p"
  by (cases p) (auto simp: keeps_dels_def)

lemma worker_owes_other:
  assumes "prog_ok s" and "workers (c_threads (kcon s')) ! j = workers (c_threads (kcon s)) ! j" and "prog s' j = prog s j"
    and "keeps_dels (p_dels s) (p_dels s')"
  shows "worker_owes rt db s' j = worker_owes rt db s j"
  using assms prog_owes_keeps [OF prog_at [OF assms(1), of j] assms(4)] by (simp add: worker_owes_def split: worker.split)

lemma worker_owes_busy:
  "busy i t s \<Longrightarrow> worker_owes rt db s i = (if prog s i = PBegin then task_owes rt db t else prog_owes db (p_dels s) (prog s i))"
  by (simp add: worker_owes_def busy_def)

text \<open>The worker stays in its task and the queue does not change; what it no longer owes is pushed or lost.\<close>

lemma accounted_moves:
  assumes "prog_ok s" and "busy i t s" and "c_threads (kcon s') = c_threads (kcon s)" and "prog s' = (prog s)(i := p)"
    and "keeps_dels (p_dels s) (p_dels s')" and "pushes (pt (cl s')) = pushes (pt (cl s)) @ P" and "lost s' = lost s @ L"
    and "p \<noteq> PBegin"
    and "prog_owes db (p_dels s') p + mset (map (\<lambda>p. (PushReq_message p, PushReq_to_uid p)) P) + mset L = worker_owes rt db s i"
  shows "accounted rt db s' = accounted rt db s"
proof (rule accounted_step [where i = i])
  have b: "busy i t s'" using assms(2,3) by (simp add: busy_def)
  show "worker_owes rt db s' j = worker_owes rt db s j" if "j \<noteq> i" for j
    using that assms by (intro worker_owes_other) simp_all
  show "pushed (pt (cl s')) + mset (lost s') + worker_owes rt db s' i +
           (\<Sum>t \<in># mset (ThreadPool.tasks (c_threads (kcon s'))). task_owes rt db t) =
         pushed (pt (cl s)) + mset (lost s) + worker_owes rt db s i +
           (\<Sum>t \<in># mset (ThreadPool.tasks (c_threads (kcon s))). task_owes rt db t)"
    using assms(3-8) worker_owes_busy [OF b, of rt db] by (simp add: pushed_def assms(9) [symmetric] ac_simps)
qed (use assms in \<open>simp_all add: busy_def\<close>)

lemma accounted_goto:
  assumes "prog_ok s" and "busy i t s" and "c_threads (kcon s') = c_threads (kcon s)" and "prog s' = (prog s)(i := p)"
    and "keeps_dels (p_dels s) (p_dels s')" and "pushes (pt (cl s')) = pushes (pt (cl s))" and "lost s' = lost s"
    and "p \<noteq> PBegin" and "prog_owes db (p_dels s') p = worker_owes rt db s i"
  shows "accounted rt db s' = accounted rt db s"
  by (rule accounted_moves [OF assms(1-5), where P = "[]" and L = "[]"]) (use assms(6-9) in simp_all)

lemma start_delivery_accounted:
  assumes "prog_ok s" and "busy i t s" and "worker_owes rt db s i = {#(m, u)#}"
  shows "accounted rt db (start_delivery i m u s) = accounted rt db s"
  by (rule accounted_goto [OF assms(1,2), where p = "PDeliver (length (p_dels s))"])
     (simp_all add: assms(3) start_delivery_def begin_delivery_def)

lemma begin_task_accounted:
  assumes "prog_ok s" and "busy i t s" and "prog s i = PBegin"
  shows "accounted rt db (begin_task rt i t s) = accounted rt db s"
proof (cases "\<exists>m u. t = HandlerTask (MemberTask m u)")
  case True
  then obtain m u where "t = HandlerTask (MemberTask m u)" by blast
  then show ?thesis using assms worker_owes_busy [OF assms(2), of rt db]
    by (simp add: start_delivery_accounted [OF assms(1,2)])
next
  case False
  then have t: "t \<noteq> HandlerTask (MemberTask m u)" for m u by blast
  show ?thesis
  proof (rule accounted_goto [OF assms(1,2)])
    show "prog (begin_task rt i t s) = (prog s)(i := prog (begin_task rt i t s) i)" by (rule begin_task_other(1) [OF t])
    show "prog_owes db (p_dels (begin_task rt i t s)) (prog (begin_task rt i t s) i) = worker_owes rt db s i"
      using t assms(3) by (simp add: worker_owes_busy [OF assms(2)] begin_task_def receivers_def Let_def
          split: ktask.split handler_task.split option.split)
  qed (use t in \<open>simp_all add: begin_task_def Let_def split: ktask.split handler_task.split option.split\<close>)
qed

lemma wants_owes: "wants ds p = Some f \<Longrightarrow> prog_owes db ds (f c) = prog_owes db ds p \<and> f c \<noteq> PBegin \<and> p \<noteq> PBegin"
  by (cases p) (auto split: d_pc.splits)

lemma acquire_session_accounted:
  assumes "prog_ok s" and "busy i t s" and "acquire_session i s = Some s'"
  shows "accounted rt db s' = accounted rt db s"
proof -
  from assms(3) obtain f c p where f: "wants (p_dels s) (prog s i) = Some f" "Acquire (c_pool (pt (cl s))) = Some (Some c, p)"
    "s' = goto i (f c) (on_pt (\<lambda>t. t\<lparr>c_pool := p\<rparr>) s)" by (rule acquire_session_Some)
  show ?thesis
    by (rule accounted_goto [OF assms(1,2), where p = "f c"])
       (use wants_owes [OF f(1)] worker_owes_busy [OF assms(2)] in \<open>simp_all add: f(3)\<close>)
qed

lemma inbox_stmt_fields [simp]: "pushes (inbox_stmt f k u q t) = pushes t" "c_pool (inbox_stmt f k u q t) = c_pool t"
    "c_messages (inbox_stmt f k u q t) = c_messages t"
  by (simp_all add: inbox_stmt_def)

lemma execute_statement_accounted:
  assumes "prog_ok s" and "busy i t s" and "execute_statement fails i s = Some s'"
  shows "accounted rt db s' = accounted rt db s"
  using assms(3)
proof (cases rule: execute_statement_cases)
  case (stored c m x)
  show ?thesis
    by (rule accounted_goto [OF assms(1,2), where p = "PRoute m"])
       (simp_all add: stored worker_owes_busy [OF assms(2)] release_session_def)
next
  case (written c d q)
  have d: "d < length (p_dels s)" using prog_at [OF assms(1), of i] written(1) by simp
  show ?thesis
    by (rule accounted_goto [OF assms(1,2), where p = "PDeliver d"])
       (simp_all add: written d worker_owes_busy [OF assms(2)] release_session_def)
next
  case (deleted c u q)
  show ?thesis
    by (rule accounted_goto [OF assms(1,2), where p = PEnd])
       (simp_all add: deleted worker_owes_busy [OF assms(2)] release_session_def)
qed

lemma route_message_accounted:
  assumes "prog_ok s" and "busy i t s" and "prog s i = PRoute m"
  shows "accounted rt db (route_message db throws i m s) = accounted rt db s"
proof -
  have owes: "worker_owes rt db s i = mset (map (Pair m) (targets db m))" by (simp add: worker_owes_busy [OF assms(2)] assms(3))
  consider "\<not> is_send_to_group m" | "is_send_to_group m" "throws" | "is_send_to_group m" "\<not> throws" by blast
  then show ?thesis
  proof cases
    case 1
    then show ?thesis using owes by (simp add: route_message_def start_delivery_accounted [OF assms(1,2)] targets_def)
  next
    case 2
    then show ?thesis
      by (intro accounted_moves [OF assms(1,2), where p = PEnd and P = "[]" and L = "map (Pair m) (targets db m)"])
         (simp_all add: route_message_def owes)
  next
    case 3
    then show ?thesis
      by (intro accounted_goto [OF assms(1,2), where p = "PSpawn m (targets db m)"]) (simp_all add: route_message_def owes)
  qed
qed

lemma spawn_member_accounted:
  assumes "prog_ok s" and "busy i t s" and "prog s i = PSpawn m us"
  shows "accounted rt db (spawn_member i m us s) = accounted rt db s"
proof (cases us)
  case Nil
  then show ?thesis
    by (intro accounted_goto [OF assms(1,2), where p = PEnd]) (simp_all add: worker_owes_busy [OF assms(2)] assms(3))
next
  case (Cons u vs)
  show ?thesis
  proof (cases "spawn_task (MemberTask m u) s")
    case (Inl e)
    then show ?thesis using Cons
      by (intro accounted_moves [OF assms(1,2), where p = PEnd and P = "[]" and L = "map (Pair m) us"])
         (simp_all add: worker_owes_busy [OF assms(2)] assms(3))
  next
    case (Inr s1)
    obtain p where p: "Enqueue (c_threads (kcon s)) (HandlerTask (MemberTask m u)) = Inr p"
      "s1 = s\<lparr>kcon := (kcon s)\<lparr>c_threads := p\<rparr>\<rparr>" using spawn_task_Inr [OF Inr] .
    have q: "ThreadPool.tasks p = ThreadPool.tasks (c_threads (kcon s)) @ [HandlerTask (MemberTask m u)]"
      using p(1) by (auto simp: Enqueue_def split: if_splits)
    have b: "busy i t (spawn_member i m us s)" using assms(2) Cons Inr p Enqueue_workers [OF p(1)] by (simp add: busy_def)
    show ?thesis
    proof (rule accounted_step [where i = i])
      show "worker_owes rt db (spawn_member i m us s) j = worker_owes rt db s j" if "j \<noteq> i" for j
        using that Cons Inr p Enqueue_workers [OF p(1)] by (intro worker_owes_other [OF assms(1)]) simp_all
    qed (use assms Cons Inr p q Enqueue_workers [OF p(1)] worker_owes_busy [OF b, of rt db] worker_owes_busy [OF assms(2), of rt db]
        in \<open>simp_all add: busy_def\<close>)
  qed
qed

lemma number_delivery_pushes [simp]: "pushes (ts (number_delivery R d x)) = pushes (ts x)"
  by (simp add: number_delivery_def Let_def split: prod.split)

lemma number_member_accounted:
  assumes "prog_ok s" and "busy i t s" and "prog s i = PDeliver d"
  shows "accounted rt db (number_member R throws i d s) = accounted rt db s"
proof (cases throws)
  case True
  then show ?thesis
    by (intro accounted_moves [OF assms(1,2), where p = PEnd and P = "[]" and L = "[(d_msg (p_dels s ! d), d_to (p_dels s ! d))]"])
       (simp_all add: number_member_def worker_owes_busy [OF assms(2)] assms(3))
next
  case False
  have d: "d < length (p_dels s)" using prog_at [OF assms(1), of i] assms(3) by simp
  show ?thesis
    by (rule accounted_goto [OF assms(1,2), where p = "PDeliver d"])
       (use False assms(3) d in \<open>auto simp: number_member_def number_delivery_dels worker_owes_busy [OF assms(2)]\<close>)
qed

lemma push_of_fields [simp]: "PushReq_message (push_of m u q) = m" "PushReq_to_uid (push_of m u q) = u" "PushReq_seq (push_of m u q) = q"
  by (simp_all add: push_of_def PushReq_message_def)

lemma push_member_accounted:
  assumes "prog_ok s" and "busy i t s" and "prog s i = PDeliver d"
  shows "accounted rt db (push_member i d f q s) = accounted rt db s"
  by (rule accounted_moves [OF assms(1,2), where p = PEnd and P = "[push_of (d_msg (p_dels s ! d)) (d_to (p_dels s ! d)) q]"
        and L = "[]"])
     (simp_all add: push_member_def start_push_def AsyncPush_eq worker_owes_busy [OF assms(2)] assms(3) Let_def)

lemma take_task_accounted:
  assumes "prog_ok s" and "i < length (workers (c_threads (kcon s)))" and "workers (c_threads (kcon s)) ! i = Looping"
    and "take_task i s = Some s'"
  shows "accounted rt db s' = accounted rt db s"
proof -
  have no: "worker_owes rt db s i = {#}" using assms(3) by (simp add: worker_owes_def)
  from assms(4) show ?thesis
  proof (cases rule: take_task_Some)
    case exits
    have "worker_owes rt db s' j = worker_owes rt db s j" if "j \<noteq> i" for j
      using that exits(3) by (intro worker_owes_other [OF assms(1)]) simp_all
    moreover have "worker_owes rt db s' i = {#}" using exits assms(2) by (simp add: worker_owes_def)
    ultimately show ?thesis using assms(2) exits no by (intro accounted_step [where i = i]) simp_all
  next
    case (takes t rest)
    have "worker_owes rt db s' j = worker_owes rt db s j" if "j \<noteq> i" for j
      using that takes(2) by (intro worker_owes_other [OF assms(1)]) simp_all
    moreover have "worker_owes rt db s' i = task_owes rt db t" using takes assms(2) by (simp add: worker_owes_def)
    ultimately show ?thesis using assms(2) takes no by (intro accounted_step [where i = i]) simp_all
  qed
qed

lemma finish_worker_accounted:
  assumes "prog_ok s" and "busy i t s" and "prog s i = PEnd"
  shows "accounted rt db (finish_worker i t s) = accounted rt db s"
proof (rule accounted_step [where i = i])
  have "worker_owes rt db (finish_worker i t s) i = {#}"
    using assms(2) by (simp add: worker_owes_def finish_worker_def worker_done_def busy_def)
  then show "pushed (pt (cl (finish_worker i t s))) + mset (lost (finish_worker i t s)) + worker_owes rt db (finish_worker i t s) i +
      (\<Sum>t \<in># mset (ThreadPool.tasks (c_threads (kcon (finish_worker i t s)))). task_owes rt db t) =
    pushed (pt (cl s)) + mset (lost s) + worker_owes rt db s i +
      (\<Sum>t \<in># mset (ThreadPool.tasks (c_threads (kcon s))). task_owes rt db t)"
    using assms(3) by (simp add: worker_owes_busy [OF assms(2)]) (simp add: finish_worker_def worker_done_def)
  show "worker_owes rt db (finish_worker i t s) j = worker_owes rt db s j" if "j \<noteq> i" for j
    using that by (intro worker_owes_other [OF assms(1)]) (simp_all add: finish_worker_def worker_done_def)
qed (use assms(2) in \<open>simp_all add: busy_def finish_worker_def worker_done_def\<close>)

lemma work_step_accounted: "work_step rt R db s s' \<Longrightarrow> prog_ok s \<Longrightarrow> accounted rt db s' = accounted rt db s"
  by (induction rule: work_step.induct)
     (blast intro: take_task_accounted begin_task_accounted acquire_session_accounted execute_statement_accounted
       route_message_accounted spawn_member_accounted number_member_accounted push_member_accounted finish_worker_accounted)+

lemma run_ktask_polled [simp]: "c_polled (run_ktask i t c) = c_polled c"
  by (cases t) simp_all

lemma work_step_polled: "work_step rt R db s s' \<Longrightarrow> c_polled (kcon s') = c_polled (kcon s)"
proof (induction rule: work_step.induct)
  case (wk_spawn i t s m us)
  show ?case by (cases us) (simp_all add: spawn_task_def split: sum.split)
next
  case (wk_acquire i t s s')
  then show ?case by (auto simp: acquire_session_def split: option.splits)
next
  case (wk_execute i t s fails s')
  then show ?case by (auto simp: execute_statement_def release_session_def split: progress.splits d_pc.splits)
qed (auto simp: take_task_def route_message_def start_delivery_def number_member_def push_member_def finish_worker_def)

lemma accounted_cong:
  assumes "c_threads (kcon s') = c_threads (kcon s)" and "prog s' = prog s" and "p_dels s' = p_dels s" and "lost s' = lost s"
    and "pushes (pt (cl s')) = pushes (pt (cl s))"
  shows "accounted rt db s' = accounted rt db s"
proof -
  have "worker_owes rt db s' = worker_owes rt db s" using assms(1-3) by (simp add: worker_owes_def fun_eq_iff split: worker.split)
  then show ?thesis using assms by (simp add: accounted_def owed_def pushed_def)
qed

lemma accounted_enqueue:
  assumes "Enqueue (c_threads (kcon s)) t = Inr (c_threads (kcon s'))" and "prog s' = prog s" and "p_dels s' = p_dels s"
    and "lost s' = lost s" and "pushes (pt (cl s')) = pushes (pt (cl s))"
  shows "accounted rt db s' = accounted rt db s + task_owes rt db t"
proof -
  note q = Enqueue_workers [OF assms(1)] Enqueue_tasks [OF assms(1)]
  have "worker_owes rt db s' = worker_owes rt db s"
    using assms(2,3) q by (simp add: worker_owes_def fun_eq_iff split: worker.split)
  then show ?thesis using assms(4,5) q by (simp add: accounted_def owed_def pushed_def ac_simps)
qed

lemma complete_push_accounted: "accounted rt db (complete_push c ok status s) = accounted rt db s"
proof (cases "c_threads (kcon (complete_push c ok status s)) = c_threads (kcon s)")
  case True
  then show ?thesis by (intro accounted_cong) (simp_all add: complete_push_fields)
next
  case False
  then have "Enqueue (c_threads (kcon s)) (HandlerTask (CallbackTask c)) = Inr (c_threads (kcon (complete_push c ok status s)))"
    by (auto simp: complete_push_def spawn_task_def Let_def split: sum.splits if_splits)
  from accounted_enqueue [OF this] show ?thesis by (simp add: complete_push_fields)
qed

definition dues_met :: "pb_rt \<Rightarrow> ychat_db \<Rightarrow> 'r transfer_state \<Rightarrow> 'r cass_proc \<Rightarrow> bool" where
  "dues_met rt db t s \<longleftrightarrow> accounted rt db s = pushed t + due rt db s"

lemma cass_step_dues: "cass_step rt R db s s' \<Longrightarrow> prog_ok s \<Longrightarrow> dues_met rt db t s \<Longrightarrow> dues_met rt db t s'"
proof (induction rule: cass_step.induct)
  case (cp_poll s m c)
  have "Enqueue (c_threads (kcon s)) (ConsumeTask m) = Inr (c_threads (kcon (s\<lparr>kcon := c\<rparr>)))" "c_polled c = c_polled (kcon s) @ [m]"
    using cp_poll(3) by (auto simp: run_poll_def split: sum.splits)
  then show ?case using cp_poll(5) accounted_enqueue [of s "ConsumeTask m" "s\<lparr>kcon := c\<rparr>" rt db]
    by (simp add: dues_met_def due_def ac_simps)
next
  case (cp_work s s')
  then show ?case using work_step_accounted [OF cp_work(2,3)] work_step_polled [OF cp_work(2)] by (simp add: dues_met_def due_def)
next
  case (cp_next s c ok status)
  have "c_polled (kcon (complete_push c ok status s)) = c_polled (kcon s)"
    by (simp add: complete_push_def spawn_task_def Let_def split: sum.split)
  then show ?case using cp_next by (simp add: dues_met_def due_def complete_push_accounted)
next
  case (cp_test s)
  then show ?case using accounted_cong [of "s\<lparr>kcon := run_test (kcon s)\<rparr>" s rt db] by (simp add: dues_met_def due_def run_test_def)
next
  case (cp_delete s c)
  then show ?case using accounted_cong [of "s\<lparr>cl := delete_context c (cl s)\<rparr>" s rt db]
    by (simp add: dues_met_def due_def delete_context_def)
next
  case (cp_destroy s)
  let ?s = "s\<lparr>kcon := (kcon s)\<lparr>c_threads := destroy (c_threads (kcon s))\<rparr>\<rparr>"
  have "worker_owes rt db ?s = worker_owes rt db s"
    by (simp add: worker_owes_def destroy_def fun_eq_iff split: worker.split)
  then have "accounted rt db ?s = accounted rt db s" by (simp add: accounted_def owed_def) (simp add: destroy_def)
  then show ?case using cp_destroy by (simp add: dues_met_def due_def)
qed

lemma cass_start_dues: "dues_met rt db t (cass_start n t)"
  by (simp add: dues_met_def cass_start_def accounted_def owed_def due_def consumer_new_def ThreadPool_new_def worker_owes_def
      client_start_def)

lemma cass_reach:
  "(cass_step rt R db)\<^sup>*\<^sup>* (cass_start n t) s \<Longrightarrow> prog_ok s \<and> dues_met rt db t s"
proof (induction rule: rtranclp_induct)
  case base
  show ?case using cass_start_ok cass_start_dues by blast
next
  case (step s s')
  then show ?case using cass_step_ok cass_step_dues by blast
qed

end
