(* ===== verification/CassLive.thy ===== *)
theory CassLive
  imports CassProc
begin

text \<open>
  Liveness of the Cassandra transfer process of \<open>CassProc\<close>: no session is lost by a worker, no worker waits for ever for
  one, and the workers run dry after boundedly many steps. \<open>sessions\<close> are the pool's sessions and those the workers hold
  between \<open>Acquire\<close> and \<open>Release\<close>; \<open>load\<close> bounds the steps the workers can still make without a new message.
\<close>

section \<open>Sessions\<close>

fun held :: "progress \<Rightarrow> nat multiset" where
  "held (PStoring c m x) = {#c#}"
| "held (PWriting c d) = {#c#}"
| "held (PDeleting c u q) = {#c#}"
| "held p = {#}"

definition sessions :: "'r cass_proc \<Rightarrow> nat multiset" where
  "sessions s = owned (c_pool (pt (cl s))) + (\<Sum>i < length (workers (c_threads (kcon s))). held (prog s i))"

text \<open>The sessions are those of \<open>S\<close>, and the pool lends.\<close>

definition lends :: "nat multiset \<Rightarrow> 'r cass_proc \<Rightarrow> bool" where
  "lends S s \<longleftrightarrow> sessions s = S \<and> pool_live (c_pool (pt (cl s)))"

lemma lends_step:
  assumes "lends S s" and "i < length (workers (c_threads (kcon s)))"
    and "length (workers (c_threads (kcon s'))) = length (workers (c_threads (kcon s)))" and "prog s' = (prog s)(i := p)"
    and "owned (c_pool (pt (cl s'))) + held p = owned (c_pool (pt (cl s))) + held (prog s i)" and "pool_live (c_pool (pt (cl s')))"
  shows "lends S s'"
proof -
  let ?n = "length (workers (c_threads (kcon s)))"
  have "(\<Sum>j < ?n. held (prog s' j)) + held (prog s i) = (\<Sum>j < ?n. held (prog s j)) + held p"
    using sum_worker [of i ?n "\<lambda>j. held (prog s' j)" "\<lambda>j. held (prog s j)"] assms(2,4) by simp
  from exchange [OF this, of "owned (c_pool (pt (cl s')))" 0 "owned (c_pool (pt (cl s)))" 0] assms
  show ?thesis by (simp add: lends_def sessions_def)
qed

text \<open>The worker holds no session before and after, and the pool is left alone.\<close>

lemma lends_same:
  assumes "lends S s" and "i < length (workers (c_threads (kcon s)))"
    and "length (workers (c_threads (kcon s'))) = length (workers (c_threads (kcon s)))"
    and "prog s' = (prog s)(i := p)" and "c_pool (pt (cl s')) = c_pool (pt (cl s))" and "held p = {#}" and "held (prog s i) = {#}"
  shows "lends S s'"
  by (rule lends_step [OF assms(1-4)]) (use assms in \<open>simp_all add: lends_def\<close>)

lemma lends_cong:
  "lends S s \<Longrightarrow> prog s' = prog s \<Longrightarrow> c_pool (pt (cl s')) = c_pool (pt (cl s)) \<Longrightarrow>
     length (workers (c_threads (kcon s'))) = length (workers (c_threads (kcon s))) \<Longrightarrow> lends S s'"
  by (simp add: lends_def sessions_def)

lemma busy_lt: "busy i t s \<Longrightarrow> i < length (workers (c_threads (kcon s)))"
  by (simp add: busy_def)

lemma start_delivery_lends:
  assumes "lends S s" and "busy i t s" and "held (prog s i) = {#}"
  shows "lends S (start_delivery i m u s)"
  by (rule lends_same [OF assms(1) busy_lt [OF assms(2)], where p = "PDeliver (length (p_dels s))"])
     (simp_all add: assms(3) start_delivery_def begin_delivery_def)

lemma begin_task_lends:
  assumes "lends S s" and "busy i t s" and "prog s i = PBegin"
  shows "lends S (begin_task rt i t s)"
proof (cases "\<exists>m u. t = HandlerTask (MemberTask m u)")
  case True
  then show ?thesis using start_delivery_lends [OF assms(1,2)] assms(3) by auto
next
  case False
  then have t: "t \<noteq> HandlerTask (MemberTask m u)" for m u by blast
  show ?thesis
    by (rule lends_same [OF assms(1) busy_lt [OF assms(2)] _ begin_task_other(1) [OF t]])
       (use t assms(3) in \<open>simp_all add: begin_task_def Let_def split: ktask.split handler_task.split option.split\<close>)
qed

lemma wants_held: "wants ds p = Some f \<Longrightarrow> held p = {#} \<and> held (f c) = {#c#}"
  by (cases p) (auto split: d_pc.splits)

lemma acquire_session_lends:
  assumes "lends S s" and "busy i t s" and "acquire_session i s = Some s'"
  shows "lends S s'"
proof -
  from assms(3) obtain f c p where f: "wants (p_dels s) (prog s i) = Some f" "Acquire (c_pool (pt (cl s))) = Some (Some c, p)"
    "s' = goto i (f c) (on_pt (\<lambda>t. t\<lparr>c_pool := p\<rparr>) s)" by (rule acquire_session_Some)
  have "pool_live (c_pool (pt (cl s)))" using assms(1) by (simp add: lends_def)
  from pool_live_Acquire [OF this] f(2) have "pool_live p" by auto
  then show ?thesis
    by (intro lends_step [OF assms(1) busy_lt [OF assms(2)], where p = "f c"])
       (use wants_held [OF f(1), of c] cp.acq_takes [OF f(2)] in \<open>simp_all add: f(3)\<close>)
qed

lemma execute_statement_lends:
  assumes "lends S s" and "busy i t s" and "execute_statement fails i s = Some s'"
  shows "lends S s'"
proof -
  have live: "pool_live (c_pool (pt (cl s)))" using assms(1) by (simp add: lends_def)
  note step = lends_step [OF assms(1) busy_lt [OF assms(2)]]
  from assms(3) show ?thesis
  proof (cases rule: execute_statement_cases)
    case (stored c m x)
    then show ?thesis using live
      by (intro step [where p = "PRoute m"]) (simp_all add: release_session_def owned_Release pool_live_Release)
  next
    case (written c d q)
    then show ?thesis using live
      by (intro step [where p = "PDeliver d"]) (simp_all add: release_session_def owned_Release pool_live_Release)
  next
    case (deleted c u q)
    then show ?thesis using live
      by (intro step [where p = PEnd]) (simp_all add: release_session_def owned_Release pool_live_Release)
  qed
qed

lemma spawn_member_lends:
  assumes "lends S s" and "busy i t s" and "prog s i = PSpawn m us"
  shows "lends S (spawn_member i m us s)"
proof (cases us)
  case Nil
  then show ?thesis by (intro lends_same [OF assms(1) busy_lt [OF assms(2)], where p = PEnd]) (simp_all add: assms(3))
next
  case (Cons u vs)
  then obtain p where "prog (spawn_member i m us s) = (prog s)(i := p)" "held p = {#}"
    by (cases "spawn_task (MemberTask m u) s") (auto simp: spawn_task_def split: sum.splits)
  then show ?thesis using Cons
    by (intro lends_same [OF assms(1) busy_lt [OF assms(2)], where p = p])
       (auto simp: assms(3) spawn_task_def Enqueue_workers split: sum.split)
qed

lemma number_delivery_pool [simp]: "c_pool (ts (number_delivery R d x)) = c_pool (ts x)"
  by (simp add: number_delivery_def Let_def split: prod.split)

lemma work_step_lends: "work_step rt R db s s' \<Longrightarrow> prog_ok s \<Longrightarrow> lends S s \<Longrightarrow> lends S s'"
proof (induction rule: work_step.induct)
  case (wk_take i s s')
  have p: "prog s i = PEnd" using wk_take(2) by (intro prog_idle [OF wk_take(4)]) (simp add: busy_def)
  from wk_take(3) show ?case
  proof (cases rule: take_task_Some)
    case exits
    then show ?thesis using p by (intro lends_same [OF wk_take(5,1), where p = PEnd]) simp_all
  next
    case (takes t rest)
    then show ?thesis using p by (intro lends_same [OF wk_take(5,1), where p = PBegin]) simp_all
  qed
next
  case (wk_route i t s m throws)
  have h: "held (prog s i) = {#}" using wk_route(2) by simp
  show ?case
  proof (cases "is_send_to_group m")
    case True
    then obtain p where "prog (route_message db throws i m s) = (prog s)(i := p)" "held p = {#}"
      by (cases throws) (auto simp: route_message_def)
    then show ?thesis using True h
      by (intro lends_same [OF wk_route(4) busy_lt [OF wk_route(1)]]) (simp_all add: route_message_def)
  qed (use start_delivery_lends [OF wk_route(4,1) h] in \<open>simp add: route_message_def\<close>)
next
  case (wk_number i t s d throws)
  then have "prog (number_member R throws i d s) = (prog s)(i := if throws then PEnd else PDeliver d)"
    by (auto simp: number_member_def)
  then show ?case
    by (rule lends_same [OF wk_number(5) busy_lt [OF wk_number(1)], rotated]) (simp_all add: number_member_def wk_number(2))
next
  case (wk_push i t s d f q)
  then show ?case
    by (intro lends_same [OF wk_push(5) busy_lt [OF wk_push(1)], where p = PEnd])
       (simp_all add: push_member_def start_push_def AsyncPush_eq Let_def)
next
  case (wk_finish i t s)
  then show ?case
    by (intro lends_same [OF wk_finish(4) busy_lt [OF wk_finish(1)], where p = PEnd])
       (auto simp: finish_worker_def worker_done_def)
qed (blast intro: begin_task_lends acquire_session_lends execute_statement_lends spawn_member_lends)+

lemma cass_step_lends: "cass_step rt R db s s' \<Longrightarrow> prog_ok s \<Longrightarrow> lends S s \<Longrightarrow> lends S s'"
proof (induction rule: cass_step.induct)
  case (cp_poll s m c)
  then have "workers (c_threads c) = workers (c_threads (kcon s))"
    by (auto simp: run_poll_def Enqueue_def split: sum.splits if_splits)
  then show ?case by (intro lends_cong [OF cp_poll(5)]) simp_all
next
  case (cp_work s s')
  then show ?case using work_step_lends by blast
next
  case (cp_test s)
  show ?case by (rule lends_cong [OF cp_test(4)]) (simp_all add: run_test_def)
next
  case (cp_next s c ok status)
  show ?case by (rule lends_cong [OF cp_next(5)]) (simp_all add: complete_push_fields)
next
  case (cp_delete s c)
  show ?case by (rule lends_cong [OF cp_delete(4)]) (simp_all add: delete_context_def)
next
  case (cp_destroy s)
  show ?case by (rule lends_cong [OF cp_destroy(4)]) (simp_all add: destroy_def)
qed

lemma cass_start_lends: "pool_live (c_pool t) \<Longrightarrow> lends (owned (c_pool t)) (cass_start n t)"
  by (simp add: lends_def sessions_def cass_start_def client_start_def)

section \<open>No worker is stuck\<close>

lemma holder_executes:
  assumes "prog_ok s" and "held (prog s j) \<noteq> {#}"
  shows "\<exists>s'. work_step rt R db s s'"
proof -
  have "prog s j \<noteq> PEnd" using assms(2) by auto
  then obtain u where b: "busy j u s" using prog_idle [OF assms(1)] by blast
  have "\<exists>s'. execute_statement False j s = Some s'"
    using assms(2) prog_at [OF assms(1), of j] by (cases "prog s j") (auto simp: execute_statement_def)
  then show ?thesis using wk_execute [OF b] by blast
qed

lemma waiting_moves:
  assumes "prog_ok s" and "lends S s" and "S \<noteq> {#}" and "busy i t s" and "wants (p_dels s) (prog s i) = Some f"
  shows "\<exists>s'. work_step rt R db s s'"
proof -
  have live: "pool_live (c_pool (pt (cl s)))" using assms(2) by (simp add: lends_def)
  from pool_live_Acquire [OF live] show ?thesis
  proof
    assume "pool (c_pool (pt (cl s))) = [] \<and> Acquire (c_pool (pt (cl s))) = None"
    then have "owned (c_pool (pt (cl s))) = {#}" by (simp add: owned_def map_filter_simps)
    then have "(\<Sum>j < length (workers (c_threads (kcon s))). held (prog s j)) \<noteq> {#}"
      using assms(2,3) by (simp add: lends_def sessions_def)
    then obtain j where "held (prog s j) \<noteq> {#}" by (meson sum.neutral)
    then show ?thesis by (rule holder_executes [OF assms(1)])
  next
    assume "\<exists>c cs. pool (c_pool (pt (cl s))) = Some c # cs \<and>
      Acquire (c_pool (pt (cl s))) = Some (Some c, (c_pool (pt (cl s)))\<lparr>pool := cs\<rparr>) \<and> pool_live ((c_pool (pt (cl s)))\<lparr>pool := cs\<rparr>)"
    then obtain s' where "acquire_session i s = Some s'" using assms(5) by (auto simp: acquire_session_def)
    then show ?thesis using wk_acquire [OF assms(4)] by blast
  qed
qed

lemma busy_moves:
  assumes "prog_ok s" and "lends S s" and "S \<noteq> {#}" and b: "busy i t s"
  shows "\<exists>s'. work_step rt R db s s'"
proof (cases "prog s i")
  case PEnd
  then show ?thesis using wk_finish [OF b] by blast
next
  case PBegin
  then show ?thesis using wk_begin [OF b] by blast
next
  case (PStore m x)
  then show ?thesis by (intro waiting_moves [OF assms]) simp
next
  case (PDelete u q)
  then show ?thesis by (intro waiting_moves [OF assms]) simp
next
  case (PRoute m)
  then show ?thesis using wk_route [OF b] by blast
next
  case (PSpawn m us)
  then show ?thesis using wk_spawn [OF b] by blast
next
  case (PDeliver d)
  show ?thesis
  proof (cases "d_pc (p_dels s ! d)")
    case DStart
    then show ?thesis using wk_number [OF b PDeliver] by blast
  next
    case (DNumbered q)
    then show ?thesis using PDeliver by (intro waiting_moves [OF assms]) simp
  next
    case (DWritten f q)
    then show ?thesis using wk_push [OF b PDeliver] by blast
  next
    case (DPushed f q)
    then show ?thesis using prog_at [OF assms(1), of i] PDeliver by auto
  qed
qed (simp_all add: holder_executes [OF assms(1), where j = i])

lemma queued_moves:
  assumes "prog_ok s" and "lends S s" and "S \<noteq> {#}" and "tp_inv (c_threads (kcon s))" and "workers (c_threads (kcon s)) \<noteq> []"
    and "ThreadPool.tasks (c_threads (kcon s)) \<noteq> []"
  shows "\<exists>s'. work_step rt R db s s'"
proof -
  obtain i where i: "i < length (workers (c_threads (kcon s)))" using assms(5) by auto
  have "workers (c_threads (kcon s)) ! i \<noteq> Exited" using assms(4,6) nth_mem [OF i] by (metis tp_inv_def)
  then consider "workers (c_threads (kcon s)) ! i = Looping" | t where "workers (c_threads (kcon s)) ! i = Running t"
    by (cases "workers (c_threads (kcon s)) ! i") auto
  then show ?thesis
  proof cases
    case 1
    have "take_task i s \<noteq> None" using assms(6) by (simp add: take_task_def worker_take_def)
    then show ?thesis using wk_take [OF i 1] by blast
  next
    case (2 t)
    then show ?thesis using i by (intro busy_moves [OF assms(1-3), where i = i and t = t]) (simp add: busy_def)
  qed
qed

section \<open>The workers run dry\<close>

text \<open>A bound on the steps a task, a worker in it and the whole pool can still make.\<close>

fun task_load :: "pb_rt \<Rightarrow> ychat_db \<Rightarrow> handler_task ktask \<Rightarrow> nat" where
  "task_load rt db (ConsumeTask m) = 9 + 8 * size (receivers rt db m)"
| "task_load rt db (HandlerTask (MemberTask m u)) = 6"
| "task_load rt db (HandlerTask (CallbackTask c)) = 4"

fun prog_load :: "ychat_db \<Rightarrow> delivery list \<Rightarrow> progress \<Rightarrow> nat" where
  "prog_load db ds (PStore m x) = 8 + 8 * length (targets db m)"
| "prog_load db ds (PStoring c m x) = 7 + 8 * length (targets db m)"
| "prog_load db ds (PRoute m) = 6 + 8 * length (targets db m)"
| "prog_load db ds (PSpawn m us) = 2 + 8 * length us"
| "prog_load db ds (PDeliver d) = (case d_pc (ds ! d) of DStart \<Rightarrow> 5 | DNumbered q \<Rightarrow> 4 | DWritten f q \<Rightarrow> 2 | DPushed f q \<Rightarrow> 0)"
| "prog_load db ds (PWriting c d) = 3"
| "prog_load db ds (PDelete u q) = 3"
| "prog_load db ds (PDeleting c u q) = 2"
| "prog_load db ds p = 1"

definition worker_load :: "pb_rt \<Rightarrow> ychat_db \<Rightarrow> 'r cass_proc \<Rightarrow> nat \<Rightarrow> nat" where
  "worker_load rt db s i =
     (case workers (c_threads (kcon s)) ! i of
        Running t \<Rightarrow> 1 + (if prog s i = PBegin then task_load rt db t else prog_load db (p_dels s) (prog s i))
      | Looping \<Rightarrow> 1
      | Exited \<Rightarrow> 0)"

definition queue_load :: "pb_rt \<Rightarrow> ychat_db \<Rightarrow> 'r cass_proc \<Rightarrow> nat" where
  "queue_load rt db s = (\<Sum>t \<leftarrow> ThreadPool.tasks (c_threads (kcon s)). Suc (task_load rt db t))"

definition load :: "pb_rt \<Rightarrow> ychat_db \<Rightarrow> 'r cass_proc \<Rightarrow> nat" where
  "load rt db s = queue_load rt db s + (\<Sum>i < length (workers (c_threads (kcon s))). worker_load rt db s i)"

lemma worker_load_busy:
  "busy i t s \<Longrightarrow> worker_load rt db s i = 1 + (if prog s i = PBegin then task_load rt db t else prog_load db (p_dels s) (prog s i))"
  by (simp add: worker_load_def busy_def)

lemma prog_load_cong: "(\<And>d. del_of p = Some d \<Longrightarrow> ds' ! d = ds ! d) \<Longrightarrow> prog_load db ds' p = prog_load db ds p"
  by (cases p) auto

lemma load_step:
  assumes ok: "prog_ok s" and i: "i < length (workers (c_threads (kcon s)))"
    and len: "length (workers (c_threads (kcon s'))) = length (workers (c_threads (kcon s)))" and pr: "prog s' = (prog s)(i := p)"
    and ws: "\<And>j. j \<noteq> i \<Longrightarrow> workers (c_threads (kcon s')) ! j = workers (c_threads (kcon s)) ! j"
    and same: "\<And>d. d < length (p_dels s) \<Longrightarrow> del_of (prog s i) \<noteq> Some d \<Longrightarrow> p_dels s' ! d = p_dels s ! d"
    and less: "queue_load rt db s' + worker_load rt db s' i < queue_load rt db s + worker_load rt db s i"
  shows "load rt db s' < load rt db s"
proof -
  let ?n = "length (workers (c_threads (kcon s)))"
  have "worker_load rt db s' j = worker_load rt db s j" if j: "j \<noteq> i" for j
  proof -
    have "prog_load db (p_dels s') (prog s j) = prog_load db (p_dels s) (prog s j)"
    proof (rule prog_load_cong)
      fix d assume d: "del_of (prog s j) = Some d"
      have "d < length (p_dels s)" using prog_at [OF ok, of j] d by (cases "prog s j") auto
      then show "p_dels s' ! d = p_dels s ! d" using same prog_inj [OF ok d, of i] j by blast
    qed
    then show ?thesis using j ws [OF j] by (simp add: worker_load_def pr split: worker.split)
  qed
  then have "sum (worker_load rt db s') {..<?n} + worker_load rt db s i = sum (worker_load rt db s) {..<?n} + worker_load rt db s' i"
    using i by (intro sum_worker) auto
  then show ?thesis using less by (simp add: load_def len)
qed

text \<open>A worker in its task, with the queue as it was.\<close>

lemma load_moves:
  assumes "prog_ok s" and "busy i t s" and "c_threads (kcon s') = c_threads (kcon s)" and "prog s' = (prog s)(i := p)"
    and "\<And>d. d < length (p_dels s) \<Longrightarrow> del_of (prog s i) \<noteq> Some d \<Longrightarrow> p_dels s' ! d = p_dels s ! d"
    and "p \<noteq> PBegin"
    and "prog_load db (p_dels s') p < (if prog s i = PBegin then task_load rt db t else prog_load db (p_dels s) (prog s i))"
  shows "load rt db s' < load rt db s"
proof (rule load_step [OF assms(1) busy_lt [OF assms(2)] _ assms(4)])
  have "busy i t s'" using assms(2,3) by (simp add: busy_def)
  then show "queue_load rt db s' + worker_load rt db s' i < queue_load rt db s + worker_load rt db s i"
    using assms(3,4,6,7) worker_load_busy [OF assms(2), of rt db] worker_load_busy [of i t s' rt db] by (simp add: queue_load_def)
qed (use assms in simp_all)

lemma start_delivery_load:
  assumes "prog_ok s" and "busy i t s"
    and "5 < (if prog s i = PBegin then task_load rt db t else prog_load db (p_dels s) (prog s i))"
  shows "load rt db (start_delivery i m u s) < load rt db s"
  by (rule load_moves [OF assms(1,2), where p = "PDeliver (length (p_dels s))"])
     (use assms(3) in \<open>simp_all add: start_delivery_def begin_delivery_def nth_append\<close>)

lemma begin_task_load:
  assumes "prog_ok s" and "busy i t s" and "prog s i = PBegin"
  shows "load rt db (begin_task rt i t s) < load rt db s"
proof (cases "\<exists>m u. t = HandlerTask (MemberTask m u)")
  case True
  then show ?thesis using start_delivery_load [OF assms(1,2), of rt db] assms(3) by auto
next
  case False
  then have t: "t \<noteq> HandlerTask (MemberTask m u)" for m u by blast
  show ?thesis
    by (rule load_moves [OF assms(1,2) _ begin_task_other(1) [OF t]])
       (use t assms(3) in \<open>auto simp: begin_task_def receivers_def Let_def split: ktask.split handler_task.split option.split\<close>)
qed

lemma wants_load: "wants ds p = Some f \<Longrightarrow> prog_load db ds (f c) < prog_load db ds p \<and> f c \<noteq> PBegin \<and> p \<noteq> PBegin"
  by (cases p) (auto split: d_pc.splits)

lemma acquire_session_load:
  assumes "prog_ok s" and "busy i t s" and "acquire_session i s = Some s'"
  shows "load rt db s' < load rt db s"
proof -
  from assms(3) obtain f c p where f: "wants (p_dels s) (prog s i) = Some f" "Acquire (c_pool (pt (cl s))) = Some (Some c, p)"
    "s' = goto i (f c) (on_pt (\<lambda>t. t\<lparr>c_pool := p\<rparr>) s)" by (rule acquire_session_Some)
  show ?thesis
    by (rule load_moves [OF assms(1,2), where p = "f c"]) (use wants_load [OF f(1)] in \<open>simp_all add: f(3)\<close>)
qed

lemma execute_statement_load:
  assumes "prog_ok s" and "busy i t s" and "execute_statement fails i s = Some s'"
  shows "load rt db s' < load rt db s"
  using assms(3)
proof (cases rule: execute_statement_cases)
  case (stored c m x)
  then show ?thesis by (intro load_moves [OF assms(1,2), where p = "PRoute m"]) (simp_all add: release_session_def)
next
  case (written c d q)
  then show ?thesis using prog_at [OF assms(1), of i]
    by (intro load_moves [OF assms(1,2), where p = "PDeliver d"]) (auto simp: release_session_def)
next
  case (deleted c u q)
  then show ?thesis by (intro load_moves [OF assms(1,2), where p = PEnd]) (simp_all add: release_session_def)
qed

lemma route_message_load:
  assumes "prog_ok s" and "busy i t s" and "prog s i = PRoute m"
  shows "load rt db (route_message db throws i m s) < load rt db s"
proof (cases "is_send_to_group m")
  case True
  then show ?thesis
    by (intro load_moves [OF assms(1,2), where p = "if throws then PEnd else PSpawn m (targets db m)"])
       (simp_all add: route_message_def assms(3))
qed (use start_delivery_load [OF assms(1,2), of rt db] assms(3) in \<open>simp add: route_message_def\<close>)

lemma spawn_member_load:
  assumes "prog_ok s" and "busy i t s" and "prog s i = PSpawn m us"
  shows "load rt db (spawn_member i m us s) < load rt db s"
proof (cases us)
  case Nil
  then show ?thesis by (intro load_moves [OF assms(1,2), where p = PEnd]) (simp_all add: assms(3))
next
  case (Cons u vs)
  show ?thesis
  proof (cases "spawn_task (MemberTask m u) s")
    case (Inl e)
    then show ?thesis using Cons by (intro load_moves [OF assms(1,2), where p = PEnd]) (simp_all add: assms(3))
  next
    case (Inr s1)
    obtain p where p: "Enqueue (c_threads (kcon s)) (HandlerTask (MemberTask m u)) = Inr p"
      "s1 = s\<lparr>kcon := (kcon s)\<lparr>c_threads := p\<rparr>\<rparr>" using spawn_task_Inr [OF Inr] .
    note q = Enqueue_workers [OF p(1)] Enqueue_tasks [OF p(1)]
    have b: "busy i t (spawn_member i m us s)" using assms(2) Cons Inr p q by (simp add: busy_def)
    show ?thesis
      by (rule load_step [OF assms(1) busy_lt [OF assms(2)], where p = "PSpawn m vs"])
         (use Cons Inr p q assms(3) worker_load_busy [OF b, of rt db] worker_load_busy [OF assms(2), of rt db]
          in \<open>simp_all add: queue_load_def\<close>)
  qed
qed

lemma number_member_load:
  assumes "prog_ok s" and "busy i t s" and "prog s i = PDeliver d" and "d_pc (p_dels s ! d) = DStart"
  shows "load rt db (number_member R throws i d s) < load rt db s"
proof -
  have "d < length (p_dels s)" using prog_at [OF assms(1), of i] assms(3) by simp
  moreover have "prog (number_member R throws i d s) = (prog s)(i := if throws then PEnd else PDeliver d)"
    using assms(3) by (auto simp: number_member_def)
  ultimately show ?thesis using assms(3,4)
    by (intro load_moves [OF assms(1,2)]) (auto simp: number_member_def number_delivery_dels split: if_splits)
qed

lemma push_member_load:
  assumes "prog_ok s" and "busy i t s" and "prog s i = PDeliver d" and "d_pc (p_dels s ! d) = DWritten f q"
  shows "load rt db (push_member i d f q s) < load rt db s"
  by (rule load_moves [OF assms(1,2), where p = PEnd]) (use assms(3,4) in \<open>simp_all add: push_member_def\<close>)

lemma take_task_load:
  assumes "prog_ok s" and "i < length (workers (c_threads (kcon s)))" and "workers (c_threads (kcon s)) ! i = Looping"
    and "take_task i s = Some s'"
  shows "load rt db s' < load rt db s"
  using assms(4)
proof (cases rule: take_task_Some)
  case exits
  then show ?thesis using assms(2,3)
    by (intro load_step [OF assms(1,2), where p = PEnd]) (simp_all add: worker_load_def queue_load_def)
next
  case (takes t rest)
  then show ?thesis using assms(2,3)
    by (intro load_step [OF assms(1,2), where p = PBegin]) (simp_all add: worker_load_def queue_load_def)
qed

lemma finish_worker_load:
  assumes "prog_ok s" and "busy i t s" and "prog s i = PEnd"
  shows "load rt db (finish_worker i t s) < load rt db s"
  by (rule load_step [OF assms(1) busy_lt [OF assms(2)], where p = PEnd])
     (use assms(2,3) in \<open>auto simp: finish_worker_def worker_done_def worker_load_def queue_load_def busy_def\<close>)

lemma work_step_load: "work_step rt R db s s' \<Longrightarrow> prog_ok s \<Longrightarrow> load rt db s' < load rt db s"
  by (induction rule: work_step.induct)
     (blast intro: take_task_load begin_task_load acquire_session_load execute_statement_load route_message_load spawn_member_load
       number_member_load push_member_load finish_worker_load)+

section \<open>Deliveries no worker is at\<close>

text \<open>A delivery that no worker is at has been pushed, or its \<open>HINCRBY\<close> threw.\<close>

definition at_rest :: "delivery \<Rightarrow> bool" where
  "at_rest d \<longleftrightarrow> d_pc d = DStart \<or> (\<exists>f q. d_pc d = DPushed f q)"

definition settled :: "'r cass_proc \<Rightarrow> bool" where
  "settled s \<longleftrightarrow> (\<forall>d < length (p_dels s). (\<exists>i. del_of (prog s i) = Some d) \<or> at_rest (p_dels s ! d))"

lemma settled_step:
  assumes "settled s" and "prog s' = (prog s)(i := p)"
    and "\<And>d. d < length (p_dels s') \<Longrightarrow> del_of p = Some d \<or> at_rest (p_dels s' ! d) \<or>
           d < length (p_dels s) \<and> p_dels s' ! d = p_dels s ! d \<and> del_of (prog s i) \<noteq> Some d"
  shows "settled s'"
  unfolding settled_def
proof (intro allI impI)
  fix d assume "d < length (p_dels s')"
  from assms(3) [OF this] show "(\<exists>j. del_of (prog s' j) = Some d) \<or> at_rest (p_dels s' ! d)"
  proof (elim disjE)
    assume "del_of p = Some d"
    then have "del_of (prog s' i) = Some d" by (simp add: assms(2))
    then show ?thesis by blast
  next
    assume d: "d < length (p_dels s) \<and> p_dels s' ! d = p_dels s ! d \<and> del_of (prog s i) \<noteq> Some d"
    then consider j where "del_of (prog s j) = Some d" | "at_rest (p_dels s ! d)" using assms(1) unfolding settled_def by blast
    then show ?thesis
    proof cases
      case (1 j)
      then have "del_of (prog s' j) = Some d" using d by (auto simp: assms(2))
      then show ?thesis by blast
    qed (use d in simp)
  qed simp
qed

lemma settled_goto:
  "settled s \<Longrightarrow> prog s' = (prog s)(i := p) \<Longrightarrow> p_dels s' = p_dels s \<Longrightarrow>
     del_of (prog s i) = None \<or> del_of p = del_of (prog s i) \<Longrightarrow> settled s'"
  by (erule settled_step) auto

lemma settled_cong: "settled s \<Longrightarrow> prog s' = prog s \<Longrightarrow> p_dels s' = p_dels s \<Longrightarrow> settled s'"
  by (simp add: settled_def)

lemma start_delivery_settled: "settled s \<Longrightarrow> del_of (prog s i) = None \<Longrightarrow> settled (start_delivery i m u s)"
  by (erule settled_step [where i = i and p = "PDeliver (length (p_dels s))"])
     (auto simp: start_delivery_def begin_delivery_def nth_append)

lemma begin_task_settled:
  assumes "settled s" and "prog s i = PBegin"
  shows "settled (begin_task rt i t s)"
proof (cases "\<exists>m u. t = HandlerTask (MemberTask m u)")
  case True
  then show ?thesis using start_delivery_settled [OF assms(1)] assms(2) by auto
next
  case False
  then have t: "t \<noteq> HandlerTask (MemberTask m u)" for m u by blast
  show ?thesis by (rule settled_goto [OF assms(1) begin_task_other(1,2) [OF t]]) (simp add: assms(2))
qed

lemma work_step_settled: "work_step rt R db s s' \<Longrightarrow> prog_ok s \<Longrightarrow> settled s \<Longrightarrow> settled s'"
proof (induction rule: work_step.induct)
  case (wk_take i s s')
  have p: "prog s i = PEnd" using wk_take(2) by (intro prog_idle [OF wk_take(4)]) (simp add: busy_def)
  from wk_take(3) obtain q where "prog s' = (prog s)(i := q)" "p_dels s' = p_dels s" by (auto simp: take_task_def)
  then show ?case by (rule settled_goto [OF wk_take(5)]) (simp add: p)
next
  case (wk_begin i t s)
  then show ?case by (blast intro: begin_task_settled)
next
  case (wk_acquire i t s s')
  from wk_acquire(2) obtain f c p where f: "wants (p_dels s) (prog s i) = Some f" "Acquire (c_pool (pt (cl s))) = Some (Some c, p)"
    "s' = goto i (f c) (on_pt (\<lambda>t. t\<lparr>c_pool := p\<rparr>) s)" by (rule acquire_session_Some)
  show ?case
    by (rule settled_goto [OF wk_acquire(4), where i = i and p = "f c"])
       (use wants_point [OF f(1) prog_at [OF wk_acquire(3)]] in \<open>simp_all add: f(3)\<close>)
next
  case (wk_execute i t s fails s')
  from wk_execute(2) show ?case
  proof (cases rule: execute_statement_cases)
    case (stored c m x)
    then show ?thesis by (intro settled_goto [OF wk_execute(4), where i = i and p = "PRoute m"]) (simp_all add: release_session_def)
  next
    case (written c d q)
    then show ?thesis
      by (intro settled_step [OF wk_execute(4), where i = i and p = "PDeliver d"])
         (auto simp: release_session_def nth_list_update)
  next
    case (deleted c u q)
    then show ?thesis by (intro settled_goto [OF wk_execute(4), where i = i and p = PEnd]) (simp_all add: release_session_def)
  qed
next
  case (wk_route i t s m throws)
  have "settled (start_delivery i m u s)" for u by (rule start_delivery_settled [OF wk_route(4)]) (simp add: wk_route(2))
  moreover have "settled (route_message db throws i m s)" if g: "is_send_to_group m"
    by (rule settled_goto [OF wk_route(4), where i = i and p = "if throws then PEnd else PSpawn m (targets db m)"])
       (simp_all add: route_message_def g wk_route(2))
  ultimately show ?case by (cases "is_send_to_group m") (simp_all add: route_message_def)
next
  case (wk_spawn i t s m us)
  have "\<exists>p. prog (spawn_member i m us s) = (prog s)(i := p)" "p_dels (spawn_member i m us s) = p_dels s"
    by (cases us; auto simp: spawn_task_def split: sum.split)+
  then obtain p where "prog (spawn_member i m us s) = (prog s)(i := p)" "p_dels (spawn_member i m us s) = p_dels s" by blast
  then show ?case by (rule settled_goto [OF wk_spawn(4)]) (simp add: wk_spawn(2))
next
  case (wk_number i t s d throws)
  have d: "d < length (p_dels s)" using prog_at [OF wk_number(4), of i] wk_number(2) by simp
  show ?case
  proof (cases throws)
    case True
    then show ?thesis using wk_number(2,3)
      by (intro settled_step [OF wk_number(5), where i = i and p = PEnd]) (auto simp: number_member_def at_rest_def)
  next
    case False
    then show ?thesis using wk_number(2) d
      by (intro settled_step [OF wk_number(5), where i = i and p = "PDeliver d"])
         (auto simp: number_member_def number_delivery_dels nth_list_update)
  qed
next
  case (wk_push i t s d f q)
  have "d < length (p_dels s)" using prog_at [OF wk_push(4), of i] wk_push(2) by simp
  then show ?case using wk_push(2)
    by (intro settled_step [OF wk_push(5), where i = i and p = PEnd])
       (auto simp: push_member_def at_rest_def nth_list_update)
next
  case (wk_finish i t s)
  show ?case by (rule settled_cong [OF wk_finish(4)]) (simp_all add: finish_worker_def)
qed

lemma cass_step_settled: "cass_step rt R db s s' \<Longrightarrow> prog_ok s \<Longrightarrow> settled s \<Longrightarrow> settled s'"
proof (induction rule: cass_step.induct)
  case (cp_work s s')
  then show ?case using work_step_settled by blast
qed (erule settled_cong; simp add: complete_push_fields)+

section \<open>The call contexts\<close>

lemma client_inv_pt: "client_inv (c\<lparr>pt := t\<rparr>) = client_inv c"
  by (simp add: client_inv_def)

lemma client_inv_taken: "client_inv c \<Longrightarrow> client_inv (c\<lparr>callbacks := remove1 a (callbacks c), wild := w\<rparr>)"
  by (erule client_inv_callbacks) (simp_all add: set_remove1_subset)

lemma client_inv_taken_pt: "client_inv c \<Longrightarrow> client_inv (c\<lparr>callbacks := remove1 a (callbacks c)\<rparr>)"
  by (erule client_inv_callbacks) (simp_all add: set_remove1_subset)

lemma work_step_client: "work_step rt R db s s' \<Longrightarrow> client_inv (cl s) \<Longrightarrow> client_inv (cl s')"
proof (induction rule: work_step.induct)
  case (wk_begin i t s)
  then show ?case
    by (auto simp: begin_task_def start_delivery_def client_inv_pt client_inv_taken client_inv_taken_pt Let_def
        split: ktask.split handler_task.split option.split)
next
  case (wk_acquire i t s s')
  then show ?case by (auto simp: acquire_session_def client_inv_pt split: option.splits)
next
  case (wk_execute i t s fails s')
  then show ?case by (auto simp: execute_statement_def release_session_def client_inv_pt split: progress.splits d_pc.splits)
next
  case (wk_spawn i t s m us)
  then show ?case by (cases us) (auto simp: spawn_task_def split: sum.split)
qed (auto simp: take_task_def route_message_def start_delivery_def number_member_def push_member_def finish_worker_def client_inv_pt
    start_push_inv)

lemma complete_push_client:
  assumes "client_inv (cl s)" and "complete_at (cl s) = InNext" and "c \<in> set (in_flight (cl s))"
  shows "client_inv (cl (complete_push c ok status s))"
  using rpc_complete_inv [OF assms] by (simp add: complete_push_def spawn_task_def Let_def split: sum.split)

lemma cass_step_client: "cass_step rt R db s s' \<Longrightarrow> client_inv (cl s) \<Longrightarrow> client_inv (cl s')"
  by (induction rule: cass_step.induct) (simp_all add: work_step_client complete_push_client delete_context_inv)

definition write_failed :: "delivery \<Rightarrow> bool" where
  "write_failed d = (case d_pc d of DWritten f q \<Rightarrow> f | DPushed f q \<Rightarrow> f | _ \<Rightarrow> False)"

section \<open>Reachable states\<close>

definition cass_inv :: "pb_rt \<Rightarrow> ychat_db \<Rightarrow> 'r transfer_state \<Rightarrow> 'r cass_proc \<Rightarrow> bool" where
  "cass_inv rt db t s \<longleftrightarrow> prog_ok s \<and> dues_met rt db t s \<and> (pool_live (c_pool t) \<longrightarrow> lends (owned (c_pool t)) s) \<and> settled s \<and>
     client_inv (cl s)"

lemma cass_start_inv: "cass_inv rt db t (cass_start n t)"
  using cass_start_ok cass_start_dues cass_start_lends client_inv_start
  by (auto simp: cass_inv_def settled_def) (simp_all add: cass_start_def client_inv_start)

lemma cass_step_inv: "cass_step rt R db s s' \<Longrightarrow> cass_inv rt db t s \<Longrightarrow> cass_inv rt db t s'"
  using cass_step_ok [of rt R db s s'] cass_step_dues [of rt R db s s' t] cass_step_lends [of rt R db s s' "owned (c_pool t)"]
    cass_step_settled [of rt R db s s'] cass_step_client [of rt R db s s'] by (simp add: cass_inv_def)

lemma cass_reach_inv: "(cass_step rt R db)\<^sup>*\<^sup>* (cass_start n t) s \<Longrightarrow> cass_inv rt db t s"
  by (induction rule: rtranclp_induct) (auto intro: cass_start_inv cass_step_inv)

lemma cass_reach_pool:
  assumes "(cass_step rt R db)\<^sup>*\<^sup>* (cass_start n t) s"
  shows "tp_inv (c_threads (kcon s))" and "length (workers (c_threads (kcon s))) = n"
  using kp.reach_inv [OF assms, of n] by (simp_all add: cass_start_def)

definition dry :: "'r cass_proc \<Rightarrow> bool" where
  "dry s \<longleftrightarrow> idle (c_threads (kcon s))"

lemma dry_busy: "dry s \<longleftrightarrow> ThreadPool.tasks (c_threads (kcon s)) = [] \<and> (\<forall>i t. \<not> busy i t s)"
  by (auto simp: dry_def idle_running busy_def)

lemma dry_owed: "dry s \<Longrightarrow> owed rt db s = {#}"
proof -
  assume d: "dry s"
  have "worker_owes rt db s i = {#}" if "i < length (workers (c_threads (kcon s)))" for i
    using d that by (auto simp: dry_busy busy_def worker_owes_def split: worker.split)
  then show ?thesis using d by (simp add: owed_def dry_busy)
qed

lemma dry_at_rest: "dry s \<Longrightarrow> prog_ok s \<Longrightarrow> settled s \<Longrightarrow> d \<in> set (p_dels s) \<Longrightarrow> at_rest d"
proof -
  assume a: "dry s" "prog_ok s" "settled s" "d \<in> set (p_dels s)"
  then obtain k where k: "k < length (p_dels s)" "p_dels s ! k = d" by (auto simp: in_set_conv_nth)
  have "prog s i = PEnd" for i using a(1) by (intro prog_idle [OF a(2)]) (simp add: dry_busy)
  then have "del_of (prog s i) \<noteq> Some k" for i by simp
  then show ?thesis using a(3) k unfolding settled_def by blast
qed

text \<open>Workers only.\<close>

definition work_run :: "pb_rt \<Rightarrow> 'r redis \<Rightarrow> ychat_db \<Rightarrow> 'r cass_proc \<Rightarrow> 'r cass_proc \<Rightarrow> bool" where
  "work_run rt R db s s' \<longleftrightarrow> \<not> halted s \<and> work_step rt R db s s'"

lemma work_run_cass: "work_run rt R db s s' \<Longrightarrow> cass_step rt R db s s'"
  by (simp add: work_run_def cp_work)

lemma work_runs_cass: "(work_run rt R db)\<^sup>*\<^sup>* s s' \<Longrightarrow> (cass_step rt R db)\<^sup>*\<^sup>* s s'"
  by (induction rule: rtranclp_induct) (auto intro: rtranclp.rtrancl_into_rtrancl work_run_cass)

lemma work_run_length: "(work_run rt R db ^^ k) s s' \<Longrightarrow> prog_ok s \<Longrightarrow> k + load rt db s' \<le> load rt db s \<and> prog_ok s'"
proof (induction k arbitrary: s')
  case (Suc k)
  from Suc(2) obtain u where u: "(work_run rt R db ^^ k) s u" "work_run rt R db u s'" by auto
  then show ?case using Suc(1) [OF u(1) Suc(3)] work_step_load [of rt R db u s'] work_step_ok [of rt R db u s']
    by (auto simp: work_run_def)
qed simp

lemma work_run_stops:
  assumes "(cass_step rt R db)\<^sup>*\<^sup>* (cass_start n t) s" and "0 < n" and "pool_live (c_pool t)" and "owned (c_pool t) \<noteq> {#}"
    and "\<nexists>s'. work_run rt R db s s'"
  shows "halted s \<or> dry s"
proof (rule ccontr)
  assume no: "\<not> (halted s \<or> dry s)"
  note inv = cass_reach_inv [OF assms(1), unfolded cass_inv_def] and tp = cass_reach_pool [OF assms(1)]
  have l: "prog_ok s" "lends (owned (c_pool t)) s" using inv assms(3) by simp_all
  have w: "workers (c_threads (kcon s)) \<noteq> []" using tp(2) assms(2) by auto
  have "\<exists>s'. work_step rt R db s s'"
  proof (cases "ThreadPool.tasks (c_threads (kcon s)) = []")
    case True
    then obtain i u where "busy i u s" using no dry_busy by blast
    then show ?thesis by (rule busy_moves [OF l assms(4)])
  qed (rule queued_moves [OF l assms(4) tp(1) w])
  then show False using no assms(5) by (simp add: work_run_def)
qed

section \<open>Running the process\<close>

text \<open>A schedule says which thread moves next and how its call turns out.\<close>

datatype move =
    MTest | MPoll kmsg | MTake nat | MBegin nat | MAcquire nat | MExecute bool nat | MRoute bool nat | MSpawn nat
  | MNumber bool nat | MPush nat | MFinish nat | MNext nat bool bool | MDelete | MDestroy

definition on_busy :: "nat \<Rightarrow> 'r cass_proc \<Rightarrow> (handler_task ktask \<Rightarrow> 'r cass_proc option) \<Rightarrow> 'r cass_proc option" where
  "on_busy i s f =
     (if i < length (workers (c_threads (kcon s)))
      then (case workers (c_threads (kcon s)) ! i of Running t \<Rightarrow> f t | _ \<Rightarrow> None) else None)"

fun move_thread :: "pb_rt \<Rightarrow> 'r redis \<Rightarrow> ychat_db \<Rightarrow> move \<Rightarrow> 'r cass_proc \<Rightarrow> 'r cass_proc option" where
  "move_thread rt R db MTest s = (if c_point (kcon s) = Testing then Some (s\<lparr>kcon := run_test (kcon s)\<rparr>) else None)"
| "move_thread rt R db (MPoll m) s =
     (if c_point (kcon s) = Polling then (case run_poll m (kcon s) of Inr c \<Rightarrow> Some (s\<lparr>kcon := c\<rparr>) | Inl e \<Rightarrow> None) else None)"
| "move_thread rt R db (MTake i) s =
     (if i < length (workers (c_threads (kcon s))) \<and> workers (c_threads (kcon s)) ! i = Looping then take_task i s else None)"
| "move_thread rt R db (MBegin i) s = on_busy i s (\<lambda>t. if prog s i = PBegin then Some (begin_task rt i t s) else None)"
| "move_thread rt R db (MAcquire i) s = on_busy i s (\<lambda>t. acquire_session i s)"
| "move_thread rt R db (MExecute fails i) s = on_busy i s (\<lambda>t. execute_statement fails i s)"
| "move_thread rt R db (MRoute throws i) s =
     on_busy i s (\<lambda>t. case prog s i of PRoute m \<Rightarrow> Some (route_message db throws i m s) | _ \<Rightarrow> None)"
| "move_thread rt R db (MSpawn i) s = on_busy i s (\<lambda>t. case prog s i of PSpawn m us \<Rightarrow> Some (spawn_member i m us s) | _ \<Rightarrow> None)"
| "move_thread rt R db (MNumber throws i) s =
     on_busy i s (\<lambda>t. case prog s i of
       PDeliver d \<Rightarrow> if d_pc (p_dels s ! d) = DStart then Some (number_member R throws i d s) else None | _ \<Rightarrow> None)"
| "move_thread rt R db (MPush i) s =
     on_busy i s (\<lambda>t. case prog s i of
       PDeliver d \<Rightarrow> (case d_pc (p_dels s ! d) of DWritten f q \<Rightarrow> Some (push_member i d f q s) | _ \<Rightarrow> None) | _ \<Rightarrow> None)"
| "move_thread rt R db (MFinish i) s = on_busy i s (\<lambda>t. if prog s i = PEnd then Some (finish_worker i t s) else None)"
| "move_thread rt R db (MNext c ok status) s =
     (if complete_at (cl s) = InNext \<and> c \<in> set (in_flight (cl s)) then Some (complete_push c ok status s) else None)"
| "move_thread rt R db MDelete s =
     (case complete_at (cl s) of BeforeDelete c \<Rightarrow> Some (s\<lparr>cl := delete_context c (cl s)\<rparr>) | _ \<Rightarrow> None)"
| "move_thread rt R db MDestroy s =
     (if c_point (kcon s) = Closed then Some (s\<lparr>kcon := (kcon s)\<lparr>c_threads := destroy (c_threads (kcon s))\<rparr>\<rparr>) else None)"

fun schedule :: "pb_rt \<Rightarrow> 'r redis \<Rightarrow> ychat_db \<Rightarrow> move list \<Rightarrow> 'r cass_proc \<Rightarrow> 'r cass_proc option" where
  "schedule rt R db [] s = Some s"
| "schedule rt R db (v # vs) s =
     (if halted s then None else case move_thread rt R db v s of None \<Rightarrow> None | Some s' \<Rightarrow> schedule rt R db vs s')"

lemma on_busy_Some:
  assumes "on_busy i s f = Some s'"
  obtains t where "busy i t s" "f t = Some s'"
  using assms by (auto simp: on_busy_def busy_def split: if_splits worker.splits)

fun worker_move :: "move \<Rightarrow> bool" where
  "worker_move MTest = False"
| "worker_move (MPoll m) = False"
| "worker_move (MNext c ok status) = False"
| "worker_move MDelete = False"
| "worker_move MDestroy = False"
| "worker_move v = True"

lemma move_thread_work:
  assumes "move_thread rt R db v s = Some s'" and "worker_move v"
  shows "work_step rt R db s s'"
proof (cases v)
  case (MTake i)
  then show ?thesis using assms by (auto split: if_splits intro!: wk_take)
next
  case (MBegin i)
  then show ?thesis using assms by (auto elim!: on_busy_Some split: if_splits intro!: wk_begin)
next
  case (MAcquire i)
  then show ?thesis using assms by (auto elim!: on_busy_Some intro: wk_acquire)
next
  case (MExecute f i)
  then show ?thesis using assms by (auto elim!: on_busy_Some intro: wk_execute)
next
  case (MRoute f i)
  then show ?thesis using assms by (auto elim!: on_busy_Some split: progress.splits intro!: wk_route)
next
  case (MSpawn i)
  then show ?thesis using assms by (auto elim!: on_busy_Some split: progress.splits intro!: wk_spawn)
next
  case (MNumber f i)
  then show ?thesis using assms by (auto elim!: on_busy_Some split: progress.splits if_splits intro!: wk_number)
next
  case (MPush i)
  then show ?thesis using assms by (auto elim!: on_busy_Some split: progress.splits d_pc.splits intro!: wk_push)
next
  case (MFinish i)
  then show ?thesis using assms by (auto elim!: on_busy_Some split: if_splits intro!: wk_finish)
qed (use assms(2) in simp_all)

lemma move_thread_step:
  assumes "move_thread rt R db v s = Some s'" and "\<not> halted s"
  shows "cass_step rt R db s s'"
proof (cases "worker_move v")
  case True
  then show ?thesis using move_thread_work [OF assms(1)] assms(2) by (blast intro: cp_work)
next
  case False
  then show ?thesis using assms
    by (cases v) (auto split: if_splits sum.splits complete_pc.splits intro: cp_test cp_poll cp_next cp_delete cp_destroy)
qed

lemma schedule_append:
  "schedule rt R db (vs @ ws) s = (case schedule rt R db vs s of None \<Rightarrow> None | Some u \<Rightarrow> schedule rt R db ws u)"
  by (induction vs arbitrary: s) (auto split: option.split)

lemma schedule_work:
  "schedule rt R db vs s = Some s' \<Longrightarrow> list_all worker_move vs \<Longrightarrow> (work_run rt R db ^^ length vs) s s'"
proof (induction vs arbitrary: s)
  case (Cons v vs)
  then obtain u where u: "\<not> halted s" "move_thread rt R db v s = Some u" "schedule rt R db vs u = Some s'"
    by (auto split: if_splits option.splits)
  then have "work_run rt R db s u" using move_thread_work [OF u(2)] Cons(3) by (simp add: work_run_def)
  moreover have "(work_run rt R db ^^ length vs) u s'" using Cons(1) [OF u(3)] Cons(3) by simp
  ultimately show ?case using relpowp_Suc_I2 [of "work_run rt R db"] by auto
qed simp

lemma schedule_run: "schedule rt R db vs s = Some s' \<Longrightarrow> (cass_step rt R db)\<^sup>*\<^sup>* s s'"
proof (induction vs arbitrary: s)
  case (Cons v vs)
  then obtain u where "\<not> halted s" "move_thread rt R db v s = Some u" "schedule rt R db vs u = Some s'"
    by (auto split: if_splits option.splits)
  then show ?case using Cons(1) [of u] move_thread_step [of rt R db v s u] by (auto intro: converse_rtranclp_into_rtranclp)
qed simp

section \<open>A worker alone\<close>

text \<open>Without interference the steps of a worker are the handler as one function.\<close>

lemma on_busy_run: "busy i t s \<Longrightarrow> on_busy i s f = f t"
  by (simp add: on_busy_def busy_def)

lemma on_busy_same [simp]:
  "on_busy j (goto i p s) f = on_busy j s f" "on_busy j (on_pt g s) f = on_busy j s f" "on_busy j (mark d pc s) f = on_busy j s f"
  "on_busy j (put_dv x s) f = on_busy j s f"
  by (simp_all add: on_busy_def)

lemma halted_same [simp]:
  "halted (goto i p s) = halted s" "halted (on_pt g s) = halted s" "halted (mark d pc s) = halted s" "halted (put_dv x s) = halted s"
  by (simp_all add: halted_def mark_def)

lemma cass_execute_session:
  assumes "cass_execute stmt t = Some t'"
  obtains c p where "Acquire (c_pool t) = Some (Some c, p)" "t' = (stmt t)\<lparr>c_pool := Release p (Some c)\<rparr>"
  using assms by (auto simp: cass_execute_def split: option.splits)

lemma deliver_alone:
  assumes "\<not> halted s" and b: "busy i t s" and pr: "prog s i = PDeliver d" and d: "d < length (p_dels s)" "d_pc (p_dels s ! d) = DStart"
    and del: "deliver_to R f (d_msg (p_dels s ! d)) (d_to (p_dels s ! d)) (pt (cl s)) = Some t'"
  shows "\<exists>s'. schedule rt R db [MNumber False i, MAcquire i, MExecute f i, MPush i] s = Some s' \<and> pt (cl s') = t' \<and> prog s' i = PEnd"
proof -
  let ?m = "d_msg (p_dels s ! d)" and ?u = "d_to (p_dels s ! d)"
  obtain q r where h: "r_hincrby R (t_store (pt (cl s))) (redis_user_prefix @ fmt_u64 ?u) ''seq'' 1 = (q, r)" by fastforce
  obtain t1 where w: "cass_execute (inbox_stmt f (msgid_of ?m) ?u q) ((pt (cl s))\<lparr>t_store := r\<rparr>) = Some t1"
    "t' = AsyncPush ?m ?u q t1"
    using del by (auto simp: deliver_to_def h AsyncWriteInbox_def msgid_of_def split: option.splits)
  obtain c p where cp: "Acquire (c_pool (pt (cl s))) = Some (Some c, p)"
    "t1 = (inbox_stmt f (msgid_of ?m) ?u q ((pt (cl s))\<lparr>t_store := r\<rparr>))\<lparr>c_pool := Release p (Some c)\<rparr>"
    using w(1) by (rule cass_execute_session) simp
  show ?thesis
    by (simp add: assms(1) on_busy_run [OF b] pr d number_member_def number_delivery_def h acquire_session_def cp
        execute_statement_def release_session_def push_member_def start_push_def w(2) Let_def inbox_stmt_def)
qed

section \<open>An example\<close>

text \<open>Two workers: the first takes a message for user 9 and its number, then the second takes a group message and delivers it
  to users 7 and 9; the first finishes last.\<close>

definition ex_gkmsg :: kmsg where
  "ex_gkmsg = ex_kmsg\<lparr>k_payload := MqMessage_InternalSerialize wire_rt ex_gmq\<rparr>"

definition deliver_member :: "nat \<Rightarrow> move list" where
  "deliver_member i = [MTake i, MBegin i, MNumber False i, MAcquire i, MExecute False i, MPush i, MFinish i]"

definition two_polled_moves :: "move list" where
  "two_polled_moves = [MTest, MPoll ex_kmsg, MTest, MPoll ex_gkmsg]"

definition two_moves :: "move list" where
  "two_moves = [MTake 0, MBegin 0, MAcquire 0, MExecute False 0, MRoute False 0, MNumber False 0,
     MTake 1, MBegin 1, MAcquire 1, MExecute False 1, MRoute False 1, MSpawn 1, MSpawn 1, MSpawn 1, MFinish 1] @
     deliver_member 1 @ deliver_member 1 @ [MAcquire 0, MExecute False 0, MPush 0, MFinish 0]"

definition two_polled :: "mem cass_proc" where
  "two_polled = the (schedule wire_rt mem_redis box_db two_polled_moves (cass_start 2 transfer0))"

definition two_delivered :: "mem cass_proc" where
  "two_delivered = the (schedule wire_rt mem_redis box_db two_moves two_polled)"

lemmas run_simps = cass_start_def consumer_new_def ThreadPool_new_def client_start_def halted_def run_test_def run_poll_def Enqueue_def
  take_task_def worker_take_def goto_def on_busy_def begin_task_def msgid_of_def acquire_session_def Acquire_def on_pt_def
  transfer0_def execute_statement_def release_session_def Release_def messages_stmt_def route_message_def is_send_to_group_def
  start_delivery_def put_dv_def begin_delivery_def dv_def number_member_def number_delivery_def mem_redis_def mem_empty_def Let_def
  inbox_stmt_def mark_def push_member_def start_push_def AsyncPush_eq finish_worker_def worker_done_def Consume_def spawn_task_def
  push_of_def targets_def

lemma ex_gkmsg_fields: "k_err ex_gkmsg = ERR_NO_ERROR" "k_key ex_gkmsg = Some ''1700000000000_7_abcdEFGH''"
    "MqMessage_ParseFromArray wire_rt (k_payload ex_gkmsg) = Some ex_gmq" "k_err ex_kmsg = ERR_NO_ERROR"
    "members_at box_db 5 1700000000000 = [7, 9]"
  by (simp_all add: ex_gkmsg_def ex_kmsg_key ex_gmq_parse) (simp_all add: ex_kmsg_def members_at_def box_db_def)

lemma two_polled_eval:
  "schedule wire_rt mem_redis box_db two_polled_moves (cass_start 2 transfer0) = Some two_polled \<and>
   c_polled (kcon two_polled) = [ex_kmsg, ex_gkmsg]"
  unfolding two_polled_def two_polled_moves_def by (simp add: run_simps)

lemma two_workers: "replicate 2 w = [w, w]"
  by (simp add: numeral_2_eq_2)

lemma two_moves_run:
  "\<exists>s. schedule wire_rt mem_redis box_db (two_polled_moves @ two_moves) (cass_start 2 transfer0) = Some s \<and> dry s \<and>
     \<not> stop (c_threads (kcon s)) \<and> c_polled (kcon s) = [ex_kmsg, ex_gkmsg] \<and> \<not> halted s \<and>
     map push_entry (pushes (pt (cl s))) = [(7, 1, ex_gmq), (9, 2, ex_gmq), (9, 1, ex_mq)] \<and>
     p_dlog s = [(9, 1, ex_mq), (7, 1, ex_gmq), (9, 2, ex_gmq)] \<and> list_all (\<lambda>d. \<not> write_failed d) (p_dels s)"
  unfolding two_moves_def two_polled_moves_def
  by (simp add: run_simps deliver_member_def ex_gkmsg_fields ex_gmq_fields ex_kmsg_parse ex_kmsg_key ex_mq_fields
      dry_def idle_def write_failed_def push_entry_def PushReq_message_def two_workers)

lemma two_delivered_eval:
  "schedule wire_rt mem_redis box_db two_moves two_polled = Some two_delivered" "dry two_delivered"
  "\<not> stop (c_threads (kcon two_delivered))" "c_polled (kcon two_delivered) = [ex_kmsg, ex_gkmsg]" "\<not> halted two_delivered"
  "map push_entry (pushes (pt (cl two_delivered))) = [(7, 1, ex_gmq), (9, 2, ex_gmq), (9, 1, ex_mq)]"
  "p_dlog two_delivered = [(9, 1, ex_mq), (7, 1, ex_gmq), (9, 2, ex_gmq)]"
  "list_all (\<lambda>d. \<not> write_failed d) (p_dels two_delivered)"
  using two_moves_run two_polled_eval by (auto simp: schedule_append two_delivered_def)

lemma two_run:
  "(cass_step wire_rt mem_redis box_db)\<^sup>*\<^sup>* (cass_start 2 transfer0) two_polled"
  "(cass_step wire_rt mem_redis box_db)\<^sup>*\<^sup>* (cass_start 2 transfer0) two_delivered"
  using schedule_run [of wire_rt mem_redis box_db] two_delivered_eval(1) two_polled_eval by (blast intro: rtranclp_trans)+

lemma transfer0_sessions: "pool_live (c_pool transfer0)" "owned (c_pool transfer0) = {#0#}" "pushed transfer0 = {#}"
  by (simp_all add: transfer0_def pool_live_def owned_def map_filter_def pushed_def)

lemma two_receivers:
  "receivers wire_rt box_db ex_kmsg = {#(ex_mq, 9)#}" "receivers wire_rt box_db ex_gkmsg = {#(ex_gmq, 7), (ex_gmq, 9)#}"
  by (simp_all add: receivers_def ex_gkmsg_fields ex_gmq_fields ex_kmsg_parse ex_kmsg_key ex_mq_fields targets_def is_send_to_group_def
      msgid_of_def)

section \<open>Properties\<close>

lemma cass_dv_reach:
  assumes "(cass_step rt R db)\<^sup>*\<^sup>* (cass_start n t) s"
  shows "(delivery_step R)\<^sup>*\<^sup>* (delivering_start (t\<lparr>c_pool := one_session\<rparr>)) (abs_dv s)"
proof -
  have "abs_dv (cass_start n t) = delivering_start (t\<lparr>c_pool := one_session\<rparr>)"
    by (simp add: abs_dv_eq cass_start_def client_start_def delivering_start_def)
  then show ?thesis using cass_steps_delivery [OF assms cass_start_ok] by simp
qed

text \<open>A worker's \<open>Consume\<close> is about a message that was polled, so only a polled message without a key can stop the process.\<close>

lemma cass_running_polled:
  assumes "(cass_step rt R db)\<^sup>*\<^sup>* (cass_start n t) s" and "busy i (ConsumeTask m) s"
  shows "m \<in> set (c_polled (kcon s))"
  using kp.running_polled [OF assms(1), of n i m] assms(2) by (simp add: cass_start_def busy_def)

lemma work_step_null_key:
  "work_step rt R db s s' \<Longrightarrow> null_key s' \<Longrightarrow>
     null_key s \<or> (\<exists>i m. busy i (ConsumeTask m) s \<and> k_key m = None)"
proof (induction rule: work_step.induct)
  case (wk_begin i t s)
  then show ?case
    by (auto simp: begin_task_def start_delivery_def Let_def split: ktask.splits handler_task.splits option.splits if_splits)
next
  case (wk_acquire i t s s')
  then show ?case by (auto simp: acquire_session_def split: option.splits)
next
  case (wk_execute i t s fails s')
  then show ?case by (auto simp: execute_statement_def release_session_def mark_def split: progress.splits d_pc.splits)
next
  case (wk_spawn i t s m us)
  then show ?case by (cases us) (auto simp: spawn_task_def lose_def split: sum.splits)
qed (auto simp: take_task_def route_message_def start_delivery_def number_member_def push_member_def finish_worker_def lose_def mark_def
    split: if_splits)

lemma cass_step_polled: "cass_step rt R db s s' \<Longrightarrow> \<exists>ms. c_polled (kcon s') = c_polled (kcon s) @ ms"
proof (induction rule: cass_step.induct)
  case (cp_poll s m c)
  then show ?case by (auto simp: run_poll_def split: sum.splits)
next
  case (cp_work s s')
  then show ?case by (simp add: work_step_polled)
next
  case (cp_next s c ok status)
  show ?case by (simp add: complete_push_def spawn_task_def Let_def split: sum.split)
qed (simp_all add: run_test_def)

lemma cass_null_key:
  "(cass_step rt R db)\<^sup>*\<^sup>* (cass_start n t) s \<Longrightarrow> null_key s \<Longrightarrow> \<exists>m \<in> set (c_polled (kcon s)). k_key m = None"
proof (induction rule: rtranclp_induct)
  case base
  then show ?case by (simp add: cass_start_def)
next
  case (step s s')
  have "null_key s \<or> (\<exists>i m. busy i (ConsumeTask m) s \<and> k_key m = None)"
    using step(2) step.prems
  proof (cases rule: cass_step.cases)
    case cp_work
    then show ?thesis using work_step_null_key step.prems by blast
  next
    case (cp_next c ok status)
    have "null_key (complete_push c ok status s) = null_key s"
      by (simp add: complete_push_def spawn_task_def Let_def split: sum.split)
    then show ?thesis using step.prems cp_next by simp
  qed simp_all
  then have "\<exists>m \<in> set (c_polled (kcon s)). k_key m = None" using step.IH cass_running_polled [OF step(1)] by blast
  then show ?case using cass_step_polled [OF step(2)] by auto
qed



text \<open>C9. In every reachable state of the process the sessions in the pool and in the hands of workers are those it started
  with, and every receiver of a message polled so far (the user it is for, or the members the group had at its timestamp) is
  accounted for exactly once: pushed, still owed by a queued task or a worker, or lost to an error of MySQL or Redis.\<close>

theorem cass_conserves:
  assumes "(cass_step rt R db)\<^sup>*\<^sup>* (cass_start n t) s" and "pool_live (c_pool t)"
  shows "sessions s = owned (c_pool t) \<and> pushed (pt (cl s)) + mset (lost s) + owed rt db s = pushed t + due rt db s"
  using cass_reach_inv [OF assms(1)] assms(2) by (simp add: cass_inv_def lends_def dues_met_def accounted_def)

theorem cass_conserves_witness:
  "sessions two_polled = {#0#} \<and> pushed (pt (cl two_polled)) + mset (lost two_polled) + owed wire_rt box_db two_polled =
     {#(ex_mq, 9), (ex_gmq, 7), (ex_gmq, 9)#}"
  using cass_conserves [OF two_run(1) transfer0_sessions(1)] two_polled_eval
  by (simp add: transfer0_sessions due_def two_receivers)

text \<open>C8. The workers never wait for each other for ever: with at least one worker and one session, from any reachable state
  every run of the workers alone has at most \<open>load\<close> steps, and when it cannot go on, the process has crashed or the queue
  is empty, no worker is in a task, and every receiver of every polled message has been pushed or lost to an error.\<close>

theorem cass_runs_dry:
  assumes "(cass_step rt R db)\<^sup>*\<^sup>* (cass_start n t) s" and "0 < n" and "pool_live (c_pool t)" and "owned (c_pool t) \<noteq> {#}"
    and "(work_run rt R db ^^ k) s s'"
  shows "k \<le> load rt db s \<and> ((\<nexists>s''. work_run rt R db s' s'') \<longrightarrow> halted s' \<or>
    dry s' \<and> pushed (pt (cl s')) + mset (lost s') = pushed t + due rt db s')"
proof -
  have "(work_run rt R db)\<^sup>*\<^sup>* s s'" using assms(5) by (metis rtranclp_power)
  then have reach: "(cass_step rt R db)\<^sup>*\<^sup>* (cass_start n t) s'" using assms(1) work_runs_cass by (metis rtranclp_trans)
  have "prog_ok s" "dues_met rt db t s'" using cass_reach_inv [OF assms(1)] cass_reach_inv [OF reach] by (simp_all add: cass_inv_def)
  then show ?thesis
    using work_run_length [OF assms(5)] work_run_stops [OF reach assms(2-4)] dry_owed [of s' rt db]
    by (auto simp: dues_met_def accounted_def)
qed

text \<open>A dry pool that is not being destroyed stays as it is.\<close>

lemma dry_still:
  assumes "dry s" and "\<not> stop (c_threads (kcon s))"
  shows "\<not> work_step rt R db s s'"
proof
  assume "work_step rt R db s s'"
  then show False using assms by cases (auto simp: dry_busy take_task_def worker_take_def)
qed

theorem cass_runs_dry_witness:
  "33 \<le> load wire_rt box_db two_polled \<and>
   pushed (pt (cl two_delivered)) + mset (lost two_delivered) = {#(ex_mq, 9), (ex_gmq, 7), (ex_gmq, 9)#}"
proof -
  have len: "length two_moves = 33" by (simp add: two_moves_def deliver_member_def)
  have "(work_run wire_rt mem_redis box_db ^^ length two_moves) two_polled two_delivered"
    using two_delivered_eval(1) by (rule schedule_work) (simp add: two_moves_def deliver_member_def)
  then have run: "(work_run wire_rt mem_redis box_db ^^ 33) two_polled two_delivered" unfolding len .
  have last: "\<nexists>s. work_run wire_rt mem_redis box_db two_delivered s"
    using dry_still [OF two_delivered_eval(2,3)] by (simp add: work_run_def)
  show ?thesis
    using cass_runs_dry [OF two_run(1) _ transfer0_sessions(1) _ run] last two_delivered_eval
    by (simp add: transfer0_sessions due_def two_receivers)
qed



end
