(* ===== verification/MysqlProc.thy ===== *)
theory MysqlProc
  imports Consumer
begin

text \<open>
  The MySQL transfer server as a process (\<open>transfer/mysql/main.cc\<close>, \<open>transfer/kafka_consumer.cc\<close>,
  \<open>include/thread_pool.h\<close>): the polling loop of \<open>Consumer::Run\<close> and the pool workers, which run \<open>MySQLHandle\<close> one SQL
  statement at a time on the shared tables. Each \<open>INSERT\<close> is a transaction of its own, so other workers may run between the
  two statements of a handler. \<open>m_at\<close> says how far each worker is in its task; a statement that throws for another
  reason than the keys of the tables is an argument of its step. \<open>m_ended\<close> is a ghost log: the messages for which the handler
  has made its last statement, each with the number of the statement that threw. After a dereferenced null key
  (\<open>m_null\<close>) the process is dead. The table of users does not change during a run.
\<close>

section \<open>State\<close>

datatype sql_point = SEnd | SBegin | SMessages MqMessage kmsg | SBox MqMessage kmsg

record mysql_process =
  m_con :: "unit consumer"
  m_db :: ychat_db
  m_at :: "nat \<Rightarrow> sql_point"
  m_ended :: "(kmsg \<times> nat option) list"
  m_null :: bool

definition mysql_start :: "nat \<Rightarrow> ychat_db \<Rightarrow> mysql_process" where
  "mysql_start n db = \<lparr>m_con = consumer_new n, m_db = db, m_at = (\<lambda>i. SEnd), m_ended = [], m_null = False\<rparr>"

definition sql_goto :: "nat \<Rightarrow> sql_point \<Rightarrow> mysql_process \<Rightarrow> mysql_process" where
  "sql_goto i p s = s\<lparr>m_at := (m_at s)(i := p)\<rparr>"

definition sql_return :: "nat \<Rightarrow> kmsg \<Rightarrow> nat option \<Rightarrow> mysql_process \<Rightarrow> mysql_process" where
  "sql_return i message threw s = sql_goto i SEnd (s\<lparr>m_ended := m_ended s @ [(message, threw)]\<rparr>)"

section \<open>What a worker does\<close>

text \<open>\<open>Consume\<close> and \<open>MySQLHandle\<close> up to the first statement.\<close>

definition sql_begin :: "pb_rt \<Rightarrow> nat \<Rightarrow> unit ktask \<Rightarrow> mysql_process \<Rightarrow> mysql_process" where
  "sql_begin rt i t s =
     (case t of
        ConsumeTask message \<Rightarrow>
          if k_err message \<noteq> ERR_NO_ERROR then sql_goto i SEnd s
          else (case MqMessage_ParseFromArray rt (k_payload message) of
                  None \<Rightarrow> sql_return i message None s
                | Some mq_message \<Rightarrow>
                    (case k_key message of
                       None \<Rightarrow> s\<lparr>m_null := True\<rparr>
                     | Some key \<Rightarrow>
                         if msgid_of mq_message \<noteq> key then sql_return i message None s
                         else sql_goto i (SMessages mq_message message) s))
      | HandlerTask h \<Rightarrow> sql_goto i SEnd s)"

definition sql_messages :: "(string \<Rightarrow> string) \<Rightarrow> bool \<Rightarrow> nat \<Rightarrow> MqMessage \<Rightarrow> kmsg \<Rightarrow> mysql_process \<Rightarrow> mysql_process" where
  "sql_messages coll throws i mq_message message s =
     (if throws then sql_return i message (Some 0) s
      else case insert_messages coll (msgid_of mq_message) (k_payload message) (m_db s) of
        None \<Rightarrow> sql_return i message None s
      | Some db1 \<Rightarrow> sql_goto i (SBox mq_message message) (s\<lparr>m_db := db1\<rparr>))"

definition sql_box :: "(string \<Rightarrow> string) \<Rightarrow> bool \<Rightarrow> nat \<Rightarrow> MqMessage \<Rightarrow> kmsg \<Rightarrow> mysql_process \<Rightarrow> mysql_process" where
  "sql_box coll throws i mq_message message s =
     (if throws then sql_return i message (Some 1) s
      else case insert_box coll mq_message (m_db s) of
        None \<Rightarrow> sql_return i message None s
      | Some db2 \<Rightarrow> sql_return i message None (s\<lparr>m_db := db2\<rparr>))"

definition sql_finish :: "nat \<Rightarrow> unit ktask \<Rightarrow> mysql_process \<Rightarrow> mysql_process" where
  "sql_finish i t s = s\<lparr>m_con := run_ktask i t (m_con s)\<rparr>"

definition sql_take :: "nat \<Rightarrow> mysql_process \<Rightarrow> mysql_process option" where
  "sql_take i s = map_option (\<lambda>p. sql_goto i (if stop p \<and> ThreadPool.tasks (c_threads (m_con s)) = [] then SEnd else SBegin)
     (s\<lparr>m_con := (m_con s)\<lparr>c_threads := p\<rparr>\<rparr>)) (worker_take (c_threads (m_con s)) i)"

definition sql_busy :: "nat \<Rightarrow> unit ktask \<Rightarrow> mysql_process \<Rightarrow> bool" where
  "sql_busy i t s \<longleftrightarrow> i < length (workers (c_threads (m_con s))) \<and> workers (c_threads (m_con s)) ! i = Running t"

inductive sql_step :: "pb_rt \<Rightarrow> (string \<Rightarrow> string) \<Rightarrow> mysql_process \<Rightarrow> mysql_process \<Rightarrow> bool"
  for rt :: pb_rt and coll :: "string \<Rightarrow> string" where
  sw_take: "\<not> m_null s \<Longrightarrow> i < length (workers (c_threads (m_con s))) \<Longrightarrow> workers (c_threads (m_con s)) ! i = Looping \<Longrightarrow>
     sql_take i s = Some s' \<Longrightarrow> sql_step rt coll s s'"
| sw_begin: "\<not> m_null s \<Longrightarrow> sql_busy i t s \<Longrightarrow> m_at s i = SBegin \<Longrightarrow> sql_step rt coll s (sql_begin rt i t s)"
| sw_messages: "\<not> m_null s \<Longrightarrow> sql_busy i t s \<Longrightarrow> m_at s i = SMessages mq m \<Longrightarrow>
     sql_step rt coll s (sql_messages coll throws i mq m s)"
| sw_box: "\<not> m_null s \<Longrightarrow> sql_busy i t s \<Longrightarrow> m_at s i = SBox mq m \<Longrightarrow> sql_step rt coll s (sql_box coll throws i mq m s)"
| sw_finish: "\<not> m_null s \<Longrightarrow> sql_busy i t s \<Longrightarrow> m_at s i = SEnd \<Longrightarrow> sql_step rt coll s (sql_finish i t s)"

inductive mysql_step :: "pb_rt \<Rightarrow> (string \<Rightarrow> string) \<Rightarrow> mysql_process \<Rightarrow> mysql_process \<Rightarrow> bool"
  for rt :: pb_rt and coll :: "string \<Rightarrow> string" where
  mp_test: "\<not> m_null s \<Longrightarrow> c_point (m_con s) = Testing \<Longrightarrow> mysql_step rt coll s (s\<lparr>m_con := run_test (m_con s)\<rparr>)"
| mp_poll: "\<not> m_null s \<Longrightarrow> c_point (m_con s) = Polling \<Longrightarrow> run_poll m (m_con s) = Inr c \<Longrightarrow>
     mysql_step rt coll s (s\<lparr>m_con := c\<rparr>)"
| mp_work: "sql_step rt coll s s' \<Longrightarrow> mysql_step rt coll s s'"
| mp_destroy: "\<not> m_null s \<Longrightarrow> c_point (m_con s) = Closed \<Longrightarrow>
     mysql_step rt coll s (s\<lparr>m_con := (m_con s)\<lparr>c_threads := destroy (c_threads (m_con s))\<rparr>\<rparr>)"

section \<open>The reference: one handler after the other\<close>

fun serial :: "pb_rt \<Rightarrow> (string \<Rightarrow> string) \<Rightarrow> (kmsg \<times> nat option) list \<Rightarrow> ychat_db \<Rightarrow> ychat_db handled" where
  "serial rt coll [] db = Handled db"
| "serial rt coll ((m, threw) # ms) db =
     (case MySQLHandle rt coll (\<lambda>i. threw = Some i) m db of NullKey \<Rightarrow> NullKey | Handled db1 \<Rightarrow> serial rt coll ms db1)"

lemma serial_append:
  "serial rt coll (ms @ ms') db = (case serial rt coll ms db of NullKey \<Rightarrow> NullKey | Handled db1 \<Rightarrow> serial rt coll ms' db1)"
  by (induction ms arbitrary: db) (auto split: handled.split)

lemma serial_snoc:
  assumes "serial rt coll ms db = Handled db1" and "MySQLHandle rt coll (\<lambda>i. threw = Some i) m db1 = Handled db2"
  shows "serial rt coll (ms @ [(m, threw)]) db = Handled db2"
  using assms by (simp add: serial_append)

section \<open>Fields\<close>

lemma sql_goto_fields [simp]:
  "m_con (sql_goto i p s) = m_con s" "m_db (sql_goto i p s) = m_db s" "m_at (sql_goto i p s) = (m_at s)(i := p)"
  "m_ended (sql_goto i p s) = m_ended s" "m_null (sql_goto i p s) = m_null s"
  by (simp_all add: sql_goto_def)

lemma sql_return_fields [simp]:
  "m_con (sql_return i m f s) = m_con s" "m_db (sql_return i m f s) = m_db s" "m_at (sql_return i m f s) = (m_at s)(i := SEnd)"
  "m_ended (sql_return i m f s) = m_ended s @ [(m, f)]" "m_null (sql_return i m f s) = m_null s"
  by (simp_all add: sql_return_def)

lemma sql_con [simp]:
  "m_con (sql_begin rt i t s) = m_con s" "m_con (sql_messages coll f i mq m s) = m_con s" "m_con (sql_box coll f i mq m s) = m_con s"
  by (auto simp: sql_begin_def sql_messages_def sql_box_def split: ktask.split option.split)

lemma sql_take_Some:
  assumes "sql_take i s = Some s'"
  obtains p where "worker_take (c_threads (m_con s)) i = Some p" "m_con s' = (m_con s)\<lparr>c_threads := p\<rparr>" "m_db s' = m_db s"
    "m_at s' = (m_at s)(i := if stop p \<and> ThreadPool.tasks (c_threads (m_con s)) = [] then SEnd else SBegin)"
    "m_ended s' = m_ended s" "m_null s' = m_null s"
  using assms by (auto simp: sql_take_def)

section \<open>The process runs the consumer\<close>

lemma sql_step_consumer: "sql_step rt coll s s' \<Longrightarrow> consumer_step\<^sup>=\<^sup>= (m_con s) (m_con s')"
proof (induction rule: sql_step.induct)
  case (sw_take s i s')
  then show ?case by (auto elim!: sql_take_Some intro: cs_take)
next
  case (sw_finish s i t)
  then show ?case by (auto simp: sql_finish_def sql_busy_def intro: cs_run)
qed simp_all

lemma mysql_step_consumer: "mysql_step rt coll s s' \<Longrightarrow> consumer_step\<^sup>=\<^sup>= (m_con s) (m_con s')"
  by (induction rule: mysql_step.induct) (auto intro: cs_test cs_poll cs_destroy dest: sql_step_consumer)

interpretation mp: consumer_process "mysql_step rt coll" m_con
  by unfold_locales (rule mysql_step_consumer)

section \<open>Statements and the serial reference\<close>

text \<open>A message with its key, as \<open>MySQLHandle\<close> accepts it.\<close>

definition decodes :: "pb_rt \<Rightarrow> kmsg \<Rightarrow> MqMessage \<Rightarrow> bool" where
  "decodes rt m mq \<longleftrightarrow> MqMessage_ParseFromArray rt (k_payload m) = Some mq \<and> k_key m = Some (msgid_of mq)"

lemma MySQLHandle_decodes:
  assumes "decodes rt m mq"
  shows "MySQLHandle rt coll fl m db =
    (if fl 0 then Handled db
     else case insert_messages coll (msgid_of mq) (k_payload m) db of
       None \<Rightarrow> Handled db
     | Some db1 \<Rightarrow> if fl 1 then Handled db1 else (case insert_box coll mq db1 of None \<Rightarrow> Handled db1 | Some db2 \<Rightarrow> Handled db2))"
  using assms by (simp add: MySQLHandle_def decodes_def)

lemma insert_messages_iff:
  "insert_messages coll k d db =
     (if has_message coll db k then None else Some (db\<lparr>t_messages := t_messages db @ [(k, d)]\<rparr>))"
  by (simp add: insert_messages_def has_message_def)

text \<open>The second statement sees of the table of messages only that the own message is there.\<close>

lemma insert_box_other:
  assumes "has_message coll db (msgid_of mq)" and "has_message coll (db\<lparr>t_messages := ms\<rparr>) (msgid_of mq)"
  shows "insert_box coll mq (db\<lparr>t_messages := ms\<rparr>) = map_option (\<lambda>d. d\<lparr>t_messages := ms\<rparr>) (insert_box coll mq db)"
  using assms by (auto simp: insert_box_def insert_user_box_def insert_group_box_def has_message_def Let_def)

definition already :: "pb_rt \<Rightarrow> (string \<Rightarrow> string) \<Rightarrow> ychat_db \<Rightarrow> kmsg \<Rightarrow> bool" where
  "already rt coll db m \<longleftrightarrow> (\<exists>mq. decodes rt m mq \<and> has_message coll db (msgid_of mq))"

text \<open>The tables \<open>db\<close> after the handlers \<open>ended\<close>, with the rows \<open>P\<close> of handlers that are between their statements: apart from
  these rows, and from the order of the rows of \<open>messages\<close>, they are the tables of a serial run. Handlers whose message was
  already there come last in it.\<close>

definition serialises ::
  "pb_rt \<Rightarrow> (string \<Rightarrow> string) \<Rightarrow> ychat_db \<Rightarrow> ychat_db \<Rightarrow> (kmsg \<times> nat option) list \<Rightarrow> (string \<times> string) multiset \<Rightarrow> bool" where
  "serialises rt coll db0 db ended P \<longleftrightarrow>
     (\<exists>order refused ms. mset order + mset refused = mset ended \<and>
        serial rt coll order db0 = Handled (db\<lparr>t_messages := ms\<rparr>) \<and> mset (t_messages db) = mset ms + P \<and>
        (\<forall>r \<in> set refused. already rt coll db (fst r)))"

lemma serialisesE:
  assumes "serialises rt coll db0 db ended P"
  obtains order refused ms where "mset order + mset refused = mset ended"
    "serial rt coll order db0 = Handled (db\<lparr>t_messages := ms\<rparr>)" "mset (t_messages db) = mset ms + P"
    "\<forall>r \<in> set refused. already rt coll db (fst r)"
  using assms unfolding serialises_def by blast

lemma serialisesI:
  assumes "mset order + mset refused = mset ended"
    and "serial rt coll order db0 = Handled (db\<lparr>t_messages := ms\<rparr>)" and "mset (t_messages db) = mset ms + P"
    and "\<forall>r \<in> set refused. already rt coll db (fst r)"
  shows "serialises rt coll db0 db ended P"
  unfolding serialises_def using assms by blast

lemma serialises_start: "serialises rt coll db db [] {#}"
  unfolding serialises_def by (intro exI [of _ "[]"] exI [of _ "t_messages db"]) simp

lemma serialises_end:
  assumes "serialises rt coll db0 db ended {#}"
  shows "\<exists>order ms. mset order = mset ended \<and> serial rt coll order db0 = Handled (db\<lparr>t_messages := ms\<rparr>) \<and>
    mset ms = mset (t_messages db)"
proof -
  from assms obtain order refused ms where o: "mset order + mset refused = mset ended"
    "serial rt coll order db0 = Handled (db\<lparr>t_messages := ms\<rparr>)" "mset (t_messages db) = mset ms + {#}"
    "\<forall>r \<in> set refused. already rt coll db (fst r)"
    by (rule serialisesE)
  have "set (t_messages db) = set ms" using o(3) by (metis add_0_right set_mset_mset)
  then have same: "has_message coll (db\<lparr>t_messages := ms\<rparr>) k = has_message coll db k" for k
    by (simp add: has_message_def list_ex_iff)
  have "serial rt coll refused (db\<lparr>t_messages := ms\<rparr>) = Handled (db\<lparr>t_messages := ms\<rparr>)"
    using o(4)
  proof (induction refused)
    case (Cons r rs)
    obtain m threw where r: "r = (m, threw)" by (cases r)
    obtain mq where "decodes rt m mq" "has_message coll db (msgid_of mq)" using Cons.prems r by (auto simp: already_def)
    then have "MySQLHandle rt coll fl m (db\<lparr>t_messages := ms\<rparr>) = Handled (db\<lparr>t_messages := ms\<rparr>)" for fl
      by (simp add: MySQLHandle_decodes insert_messages_iff same)
    moreover have "serial rt coll rs (db\<lparr>t_messages := ms\<rparr>) = Handled (db\<lparr>t_messages := ms\<rparr>)"
      using Cons.prems by (intro Cons.IH) (simp add: r)
    ultimately show ?case by (simp add: r)
  qed simp
  then have "serial rt coll (order @ refused) db0 = Handled (db\<lparr>t_messages := ms\<rparr>)" using o(2) by (simp add: serial_append)
  then show ?thesis using o(1,3) by (intro exI [of _ "order @ refused"] exI [of _ ms]) simp
qed

text \<open>A handler that changes nothing, whatever the tables.\<close>

lemma serialises_noop:
  assumes "serialises rt coll db0 db ended P" and "\<And>d. MySQLHandle rt coll (\<lambda>i. threw = Some i) m d = Handled d"
  shows "serialises rt coll db0 db (ended @ [(m, threw)]) P"
proof -
  from assms(1) obtain order refused ms where o: "mset order + mset refused = mset ended"
    "serial rt coll order db0 = Handled (db\<lparr>t_messages := ms\<rparr>)" "mset (t_messages db) = mset ms + P"
    "\<forall>r \<in> set refused. already rt coll db (fst r)"
    by (rule serialisesE)
  show ?thesis
    by (rule serialisesI [of "order @ [(m, threw)]" refused, OF _ serial_snoc [OF o(2) assms(2)] o(3,4)]) (simp add: o(1) [symmetric])
qed

lemma serialises_refused:
  assumes "serialises rt coll db0 db ended P" and "decodes rt m mq" and "has_message coll db (msgid_of mq)"
  shows "serialises rt coll db0 db (ended @ [(m, threw)]) P"
proof -
  from assms(1) obtain order refused ms where o: "mset order + mset refused = mset ended"
    "serial rt coll order db0 = Handled (db\<lparr>t_messages := ms\<rparr>)" "mset (t_messages db) = mset ms + P"
    "\<forall>r \<in> set refused. already rt coll db (fst r)"
    by (rule serialisesE)
  show ?thesis
    by (rule serialisesI [of order "refused @ [(m, threw)]", OF _ o(2,3)]) (use o(4) assms(2,3) in \<open>auto simp: o(1) [symmetric] already_def\<close>)
qed

lemma serialises_insert:
  assumes "serialises rt coll db0 db ended P" and "insert_messages coll k d db = Some db1"
  shows "serialises rt coll db0 db1 ended (P + {#(k, d)#})"
proof -
  from assms(1) obtain order refused ms where o: "mset order + mset refused = mset ended"
    "serial rt coll order db0 = Handled (db\<lparr>t_messages := ms\<rparr>)" "mset (t_messages db) = mset ms + P"
    "\<forall>r \<in> set refused. already rt coll db (fst r)"
    by (rule serialisesE)
  have db1: "db1 = db\<lparr>t_messages := t_messages db @ [(k, d)]\<rparr>" using assms(2) by (simp add: insert_messages_iff split: if_splits)
  show ?thesis
    by (rule serialisesI [OF o(1), where ms = ms]) (use o(2-4) in \<open>auto simp: db1 already_def has_message_append\<close>)
qed

text \<open>The row of a handler between its statements is in the tables and not in those of the serial run.\<close>

lemma between_statements:
  assumes "boxes_inv coll db" and "mset (t_messages db) = mset ms + (P + {#(k, d)#})"
  shows "\<not> has_message coll (db\<lparr>t_messages := ms\<rparr>) k" and "has_message coll db k"
    and "has_message coll (db\<lparr>t_messages := ms @ [(k, d)]\<rparr>) k"
proof -
  let ?c = "\<lambda>(k, d). coll k"
  have "distinct (map ?c (t_messages db))" using assms(1) by (simp add: boxes_inv_def)
  moreover obtain ps where "mset ps = P" using ex_mset by blast
  then have "mset (map ?c (t_messages db)) = mset (map ?c (ms @ ps @ [(k, d)]))" by (simp add: assms(2) ac_simps)
  ultimately have "distinct (map ?c (ms @ ps @ [(k, d)]))" using mset_eq_imp_distinct_iff by blast
  then have "coll k \<notin> set (map ?c ms)" by auto
  then show "\<not> has_message coll (db\<lparr>t_messages := ms\<rparr>) k" by (simp only: has_message_iff) simp
  have "(k, d) \<in># mset (t_messages db)" by (simp add: assms(2))
  then show "has_message coll db k" by (auto simp: has_message_def list_ex_iff)
qed (simp add: has_message_def)

text \<open>The second statement of a handler ends it, also when it fails.\<close>

lemma serialises_box:
  assumes "serialises rt coll db0 db ended (P + {#(msgid_of mq, k_payload m)#})" and "decodes rt m mq" and "boxes_inv coll db"
    and "db2 = (if throws then db else case insert_box coll mq db of None \<Rightarrow> db | Some d \<Rightarrow> d)"
  shows "serialises rt coll db0 db2 (ended @ [(m, if throws then Some 1 else None)]) P"
proof -
  let ?k = "msgid_of mq" and ?d = "k_payload m"
  from assms(1) obtain order refused ms where o: "mset order + mset refused = mset ended"
    "serial rt coll order db0 = Handled (db\<lparr>t_messages := ms\<rparr>)" "mset (t_messages db) = mset ms + (P + {#(?k, ?d)#})"
    "\<forall>r \<in> set refused. already rt coll db (fst r)"
    by (rule serialisesE)
  let ?db1 = "db\<lparr>t_messages := ms @ [(?k, ?d)]\<rparr>"
  note new = between_statements [OF assms(3) o(3)]
  have ins: "insert_messages coll ?k ?d (db\<lparr>t_messages := ms\<rparr>) = Some ?db1" using new(1) by (simp add: insert_messages_iff)
  have box: "insert_box coll mq ?db1 = map_option (\<lambda>d. d\<lparr>t_messages := ms @ [(?k, ?d)]\<rparr>) (insert_box coll mq db)"
    using new(2,3) by (rule insert_box_other)
  have db2: "t_messages db2 = t_messages db" using assms(4) by (auto split: if_splits option.splits dest: insert_box_messages)
  have h: "MySQLHandle rt coll (\<lambda>i. (if throws then Some 1 else None) = Some i) m (db\<lparr>t_messages := ms\<rparr>) =
      Handled (db2\<lparr>t_messages := ms @ [(?k, ?d)]\<rparr>)"
    using assms(4) by (simp add: MySQLHandle_decodes [OF assms(2)] ins box split: option.split)
  show ?thesis
    by (rule serialisesI [of "order @ [(m, if throws then Some 1 else None)]" refused, OF _ serial_snoc [OF o(2) h]])
       (use o(1,3,4) db2 in \<open>auto simp: o(1) [symmetric] already_def has_message_def\<close>)
qed

section \<open>Invariant\<close>

fun point_ok :: "pb_rt \<Rightarrow> unit ktask worker \<Rightarrow> sql_point \<Rightarrow> bool" where
  "point_ok rt w SEnd \<longleftrightarrow> True"
| "point_ok rt w SBegin \<longleftrightarrow> (\<exists>t. w = Running t)"
| "point_ok rt w (SMessages mq m) \<longleftrightarrow> w = Running (ConsumeTask m) \<and> no_error m \<and> decodes rt m mq"
| "point_ok rt w (SBox mq m) \<longleftrightarrow> w = Running (ConsumeTask m) \<and> no_error m \<and> decodes rt m mq"

text \<open>The row of a worker between its statements, and the message whose handler is over and \<open>Consume\<close> is not.\<close>

fun sql_row :: "sql_point \<Rightarrow> (string \<times> string) multiset" where
  "sql_row (SBox mq m) = {#(msgid_of mq, k_payload m)#}"
| "sql_row p = {#}"

fun over :: "unit ktask worker \<Rightarrow> sql_point \<Rightarrow> kmsg multiset" where
  "over (Running (ConsumeTask m)) SEnd = (if no_error m then {#m#} else {#})"
| "over w p = {#}"

abbreviation m_workers :: "mysql_process \<Rightarrow> unit ktask worker list" where
  "m_workers s \<equiv> workers (c_threads (m_con s))"

definition rows_between :: "mysql_process \<Rightarrow> (string \<times> string) multiset" where
  "rows_between s = (\<Sum>i < length (m_workers s). sql_row (m_at s i))"

definition mysql_inv :: "pb_rt \<Rightarrow> (string \<Rightarrow> string) \<Rightarrow> ychat_db \<Rightarrow> mysql_process \<Rightarrow> bool" where
  "mysql_inv rt coll db0 s \<longleftrightarrow> boxes_inv coll (m_db s) \<and>
     serialises rt coll db0 (m_db s) (m_ended s) (rows_between s) \<and>
     mset (map fst (m_ended s)) =
       mset (c_handled (m_con s)) + (\<Sum>i < length (m_workers s). over (m_workers s ! i) (m_at s i)) \<and>
     (\<forall>i < length (m_workers s). point_ok rt (m_workers s ! i) (m_at s i))"

lemma mysql_inv_point: "mysql_inv rt coll db0 s \<Longrightarrow> i < length (m_workers s) \<Longrightarrow> point_ok rt (m_workers s ! i) (m_at s i)"
  by (simp add: mysql_inv_def)

lemma mysql_inv_start: "boxes_inv coll db \<Longrightarrow> mysql_inv rt coll db (mysql_start n db)"
proof -
  assume b: "boxes_inv coll db"
  have "over (replicate n Looping ! i) SEnd = {#}" if "i < n" for i using that by simp
  then show ?thesis using b serialises_start
    by (simp add: mysql_inv_def mysql_start_def rows_between_def consumer_new_def ThreadPool_new_def)
qed

text \<open>A step of worker \<open>i\<close> to the point \<open>p\<close>.\<close>

lemma mysql_inv_step:
  assumes inv: "mysql_inv rt coll db0 s" and i: "i < length (m_workers s)" and ws: "m_workers s' = (m_workers s)[i := w]"
    and pt: "m_at s' = (m_at s)(i := p)" "point_ok rt w p" and box: "boxes_inv coll (m_db s')"
    and ser: "\<And>P. serialises rt coll db0 (m_db s) (m_ended s) (P + sql_row (m_at s i)) \<Longrightarrow>
        serialises rt coll db0 (m_db s') (m_ended s') (P + sql_row p)"
    and ended: "mset (map fst (m_ended s')) + mset (c_handled (m_con s)) + over (m_workers s ! i) (m_at s i) =
        mset (map fst (m_ended s)) + mset (c_handled (m_con s')) + over w p"
  shows "mysql_inv rt coll db0 s'"
proof -
  let ?n = "length (m_workers s)"
  let ?f = "\<lambda>j. over (m_workers s ! j) (m_at s j)" and ?g = "\<lambda>j. over (m_workers s' ! j) (m_at s' j)"
  have n: "length (m_workers s') = ?n" by (simp add: ws)
  have "rows_between s = (\<Sum>j \<in> {..< ?n} - {i}. sql_row (m_at s j)) + sql_row (m_at s i)"
    using i by (simp add: rows_between_def sum.remove [of _ i] ac_simps)
  moreover have "rows_between s' = (\<Sum>j \<in> {..< ?n} - {i}. sql_row (m_at s j)) + sql_row p"
    using i by (simp add: rows_between_def n pt sum.remove [of _ i] ac_simps)
  moreover have "serialises rt coll db0 (m_db s) (m_ended s) (rows_between s)" using inv by (simp add: mysql_inv_def)
  ultimately have "serialises rt coll db0 (m_db s') (m_ended s') (rows_between s')" using ser by simp
  moreover have "sum ?g {..< ?n} + ?f i = sum ?f {..< ?n} + ?g i" using i by (intro sum_worker) (simp_all add: ws pt)
  then have g: "sum ?g {..< ?n} + over (m_workers s ! i) (m_at s i) = sum ?f {..< ?n} + over w p" using i by (simp add: ws pt)
  have "mset (map fst (m_ended s')) = mset (c_handled (m_con s')) + sum ?g {..< ?n}"
    by (rule exchange_log [OF _ ended g]) (use inv in \<open>simp add: mysql_inv_def\<close>)
  moreover have "point_ok rt (m_workers s' ! j) (m_at s' j)" if "j < ?n" for j
    using mysql_inv_point [OF inv that] that pt by (auto simp: ws nth_list_update)
  ultimately show ?thesis using box by (simp add: mysql_inv_def n)
qed

text \<open>A worker moves within its task.\<close>

lemma mysql_inv_moves:
  assumes inv: "mysql_inv rt coll db0 s" and busy: "sql_busy i t s" and con: "m_con s' = m_con s"
    and pt: "m_at s' = (m_at s)(i := p)" "point_ok rt (Running t) p" and box: "boxes_inv coll (m_db s')"
    and ser: "\<And>P. serialises rt coll db0 (m_db s) (m_ended s) (P + sql_row (m_at s i)) \<Longrightarrow>
        serialises rt coll db0 (m_db s') (m_ended s') (P + sql_row p)"
    and ended: "mset (map fst (m_ended s')) + over (Running t) (m_at s i) = mset (map fst (m_ended s)) + over (Running t) p"
  shows "mysql_inv rt coll db0 s'"
proof (rule mysql_inv_step [OF inv _ _ pt box ser])
  show "i < length (m_workers s)" using busy by (simp add: sql_busy_def)
  show "m_workers s' = (m_workers s)[i := Running t]" using busy con by (metis list_update_id sql_busy_def)
  show "mset (map fst (m_ended s')) + mset (c_handled (m_con s)) + over (m_workers s ! i) (m_at s i) =
      mset (map fst (m_ended s)) + mset (c_handled (m_con s')) + over (Running t) p"
    using ended busy con by (simp add: sql_busy_def)
qed

lemma mysql_inv_boxes: "mysql_inv rt coll db0 s \<Longrightarrow> boxes_inv coll (m_db s)"
  by (simp add: mysql_inv_def)

lemma sql_begin_inv:
  assumes "mysql_inv rt coll db0 s" and "sql_busy i t s" and "m_at s i = SBegin"
  shows "mysql_inv rt coll db0 (sql_begin rt i t s)"
proof (cases t)
  case (HandlerTask h)
  then show ?thesis using assms
    by (intro mysql_inv_moves [OF assms(1,2), where p = SEnd]) (auto simp: sql_begin_def mysql_inv_boxes)
next
  case (ConsumeTask m)
  let ?parse = "MqMessage_ParseFromArray rt (k_payload m)"
  note moves = mysql_inv_moves [OF assms(1,2)] and box = mysql_inv_boxes [OF assms(1)]
  consider "\<not> no_error m" | "no_error m" "?parse = None" | mq where "no_error m" "?parse = Some mq" "k_key m = None"
    | mq key where "no_error m" "?parse = Some mq" "k_key m = Some key" "msgid_of mq \<noteq> key"
    | mq where "no_error m" "decodes rt m mq" by (auto simp: decodes_def)
  then show ?thesis
  proof cases
    case 1
    then show ?thesis using ConsumeTask assms(3)
      by (intro moves [where p = SEnd]) (auto simp: sql_begin_def no_error_def box)
  next
    case 2
    have "MySQLHandle rt coll fl m d = Handled d" for fl d using 2 by (simp add: MySQLHandle_def)
    then show ?thesis using ConsumeTask assms(3) 2
      by (intro moves [where p = SEnd]) (auto simp: sql_begin_def no_error_def box intro: serialises_noop)
  next
    case 3
    then show ?thesis using ConsumeTask assms(3)
      by (intro moves [where p = SBegin]) (auto simp: sql_begin_def no_error_def box)
  next
    case 4
    then have "MySQLHandle rt coll fl m d = Handled d" for fl d by (simp add: MySQLHandle_def)
    then show ?thesis using ConsumeTask assms(3) 4
      by (intro moves [where p = SEnd]) (auto simp: sql_begin_def no_error_def box intro: serialises_noop)
  next
    case 5
    then show ?thesis using ConsumeTask assms(3)
      by (intro moves [where p = "SMessages mq m"]) (auto simp: sql_begin_def no_error_def decodes_def box)
  qed
qed

lemma sql_messages_inv:
  assumes "mysql_inv rt coll db0 s" and "sql_busy i t s" and "m_at s i = SMessages mq m"
  shows "mysql_inv rt coll db0 (sql_messages coll throws i mq m s)"
proof -
  have pt: "t = ConsumeTask m" "no_error m" "decodes rt m mq"
    using mysql_inv_point [OF assms(1), of i] assms(2,3) by (auto simp: sql_busy_def)
  note moves = mysql_inv_moves [OF assms(1,2)] and box = mysql_inv_boxes [OF assms(1)]
  consider "throws" | "\<not> throws" "has_message coll (m_db s) (msgid_of mq)" | "\<not> throws" "\<not> has_message coll (m_db s) (msgid_of mq)"
    by blast
  then show ?thesis
  proof cases
    case 1
    have "MySQLHandle rt coll (\<lambda>i. Some 0 = Some i) m d = Handled d" for d by (simp add: MySQLHandle_decodes [OF pt(3)])
    then show ?thesis using 1 pt assms(3)
      by (intro moves [where p = SEnd]) (auto simp: sql_messages_def box intro: serialises_noop)
  next
    case 2
    then show ?thesis using pt assms(3)
      by (intro moves [where p = SEnd]) (auto simp: sql_messages_def box insert_messages_iff intro: serialises_refused)
  next
    case 3
    let ?db1 = "(m_db s)\<lparr>t_messages := t_messages (m_db s) @ [(msgid_of mq, k_payload m)]\<rparr>"
    have ins: "insert_messages coll (msgid_of mq) (k_payload m) (m_db s) = Some ?db1" using 3 by (simp add: insert_messages_iff)
    show ?thesis using 3 pt assms(3) insert_messages_inv [OF ins box] serialises_insert [OF _ ins]
      by (intro moves [where p = "SBox mq m"]) (auto simp: sql_messages_def ins)
  qed
qed

lemma sql_box_inv:
  assumes "mysql_inv rt coll db0 s" and "sql_busy i t s" and "m_at s i = SBox mq m"
  shows "mysql_inv rt coll db0 (sql_box coll throws i mq m s)"
proof -
  let ?db2 = "if throws then m_db s else case insert_box coll mq (m_db s) of None \<Rightarrow> m_db s | Some d \<Rightarrow> d"
  let ?s = "sql_box coll throws i mq m s"
  have pt: "t = ConsumeTask m" "no_error m" "decodes rt m mq"
    using mysql_inv_point [OF assms(1), of i] assms(2,3) by (auto simp: sql_busy_def)
  note box = mysql_inv_boxes [OF assms(1)]
  have s: "m_db ?s = ?db2" "m_ended ?s = m_ended s @ [(m, if throws then Some 1 else None)]" "m_at ?s = (m_at s)(i := SEnd)"
    by (auto simp: sql_box_def split: option.split)
  show ?thesis
  proof (rule mysql_inv_moves [OF assms(1,2) _ s(3)])
    show "boxes_inv coll (m_db ?s)" using box by (auto simp: s(1) split: option.split intro: insert_box_inv)
    show "serialises rt coll db0 (m_db ?s) (m_ended ?s) (P + sql_row SEnd)"
      if "serialises rt coll db0 (m_db s) (m_ended s) (P + sql_row (m_at s i))" for P
      using serialises_box [OF _ pt(3) box s(1)] that assms(3) by (simp add: s(2))
  qed (simp_all add: s(2) pt assms(3))
qed

lemma sql_finish_inv:
  assumes "mysql_inv rt coll db0 s" and "sql_busy i t s" and "m_at s i = SEnd"
  shows "mysql_inv rt coll db0 (sql_finish i t s)"
proof (rule mysql_inv_step [OF assms(1), where w = Looping and p = SEnd])
  show "m_at (sql_finish i t s) = (m_at s)(i := SEnd)" using assms(3) by (auto simp: sql_finish_def)
  show "mset (map fst (m_ended (sql_finish i t s))) + mset (c_handled (m_con s)) + over (m_workers s ! i) (m_at s i) =
      mset (map fst (m_ended s)) + mset (c_handled (m_con (sql_finish i t s))) + over Looping SEnd"
    using assms(2,3) by (cases t) (auto simp: sql_finish_def sql_busy_def Consume_cases)
qed (use assms in \<open>auto simp: sql_finish_def sql_busy_def worker_done_def mysql_inv_boxes\<close>)

lemma sql_take_inv:
  assumes "mysql_inv rt coll db0 s" and "i < length (m_workers s)" and "m_workers s ! i = Looping" and "sql_take i s = Some s'"
  shows "mysql_inv rt coll db0 s'"
proof -
  have at: "m_at s i = SEnd" using mysql_inv_point [OF assms(1,2)] assms(3) by (cases "m_at s i") auto
  from assms(4) obtain p where p: "worker_take (c_threads (m_con s)) i = Some p" "m_con s' = (m_con s)\<lparr>c_threads := p\<rparr>"
    "m_db s' = m_db s" "m_at s' = (m_at s)(i := if stop p \<and> ThreadPool.tasks (c_threads (m_con s)) = [] then SEnd else SBegin)"
    "m_ended s' = m_ended s" "m_null s' = m_null s" by (rule sql_take_Some)
  show ?thesis
  proof (cases "stop p \<and> ThreadPool.tasks (c_threads (m_con s)) = []")
    case True
    then show ?thesis using p assms at
      by (intro mysql_inv_step [OF assms(1,2), where w = Exited and p = SEnd])
         (auto simp: worker_take_def mysql_inv_boxes split: if_splits)
  next
    case False
    then show ?thesis using p assms at
      by (intro mysql_inv_step [OF assms(1,2), where w = "Running (hd (ThreadPool.tasks (c_threads (m_con s))))" and p = SBegin])
         (auto simp: worker_take_def mysql_inv_boxes split: if_splits)
  qed
qed

lemma sql_step_inv: "sql_step rt coll s s' \<Longrightarrow> mysql_inv rt coll db0 s \<Longrightarrow> mysql_inv rt coll db0 s'"
  by (induction rule: sql_step.induct)
     (blast intro: sql_take_inv sql_begin_inv sql_messages_inv sql_box_inv sql_finish_inv)+

lemma mysql_inv_cong:
  assumes "mysql_inv rt coll db0 s" and "m_workers s' = m_workers s" and "c_handled (m_con s') = c_handled (m_con s)"
    and "m_db s' = m_db s" and "m_at s' = m_at s" and "m_ended s' = m_ended s"
  shows "mysql_inv rt coll db0 s'"
  using assms by (simp add: mysql_inv_def rows_between_def)

lemma mysql_step_inv: "mysql_step rt coll s s' \<Longrightarrow> mysql_inv rt coll db0 s \<Longrightarrow> mysql_inv rt coll db0 s'"
proof (induction rule: mysql_step.induct)
  case (mp_test s)
  then show ?case by (auto elim!: mysql_inv_cong simp: run_test_def)
next
  case (mp_poll s m c)
  then show ?case
    by (auto elim!: mysql_inv_cong simp: run_poll_def Enqueue_def split: sum.splits if_splits)
next
  case (mp_work s s')
  then show ?case by (blast intro: sql_step_inv)
next
  case (mp_destroy s)
  then show ?case by (auto elim!: mysql_inv_cong simp: destroy_def)
qed

lemma mysql_reach_inv:
  assumes "boxes_inv coll db" and "(mysql_step rt coll)\<^sup>*\<^sup>* (mysql_start n db) s"
  shows "mysql_inv rt coll db s"
  using assms(2) by (induction rule: rtranclp_induct) (auto intro: mysql_inv_start [OF assms(1)] mysql_step_inv)

section \<open>A dry process\<close>

definition sql_dry :: "mysql_process \<Rightarrow> bool" where
  "sql_dry s \<longleftrightarrow> idle (c_threads (m_con s))"

lemma mysql_dry_inv:
  assumes "mysql_inv rt coll db s" and "sql_dry s"
  shows "rows_between s = {#}" and "mset (map fst (m_ended s)) = mset (c_handled (m_con s))"
proof -
  have nr: "m_workers s ! i \<noteq> Running t" if "i < length (m_workers s)" for i t
    using assms(2) that by (simp add: sql_dry_def idle_running)
  then have "sql_row (m_at s i) = {#}" "over (m_workers s ! i) (m_at s i) = {#}" if "i < length (m_workers s)" for i
    using mysql_inv_point [OF assms(1) that] nr [OF that] by (cases "m_at s i"; cases "m_workers s ! i"; simp)+
  then show "rows_between s = {#}" "mset (map fst (m_ended s)) = mset (c_handled (m_con s))"
    using assms(1) by (simp_all add: rows_between_def mysql_inv_def)
qed

section \<open>Termination and progress of the workers\<close>

fun sql_rank :: "sql_point \<Rightarrow> nat" where
  "sql_rank SEnd = 0"
| "sql_rank (SBox mq m) = 1"
| "sql_rank (SMessages mq m) = 2"
| "sql_rank SBegin = 3"

text \<open>A bound on the steps the workers can still make without a new message.\<close>

definition sql_load :: "mysql_process \<Rightarrow> nat" where
  "sql_load s = 4 * work_left (c_threads (m_con s)) + (\<Sum>i < length (m_workers s). sql_rank (m_at s i)) + (if m_null s then 0 else 1)"

lemma sql_rank_sum:
  fixes i n :: nat
  assumes "i < n" and "at' = at(i := p)"
  shows "(\<Sum>j < n. sql_rank (at' j)) + sql_rank (at i) = (\<Sum>j < n. sql_rank (at j)) + sql_rank p"
  using sum_worker [OF assms(1), of "\<lambda>j. sql_rank (at' j)" "\<lambda>j. sql_rank (at j)"] by (simp add: assms(2))

lemma sql_load_moves:
  assumes "sql_busy i t s" and "m_con s' = m_con s" and "m_at s' = (m_at s)(i := p)" and "sql_rank p < sql_rank (m_at s i)"
    and "m_null s' = m_null s"
  shows "sql_load s' < sql_load s"
  using sql_rank_sum [of i "length (m_workers s)", OF _ assms(3)] assms by (simp add: sql_load_def sql_busy_def)

lemma sql_step_load: "sql_step rt coll s s' \<Longrightarrow> sql_load s' < sql_load s"
proof (induction rule: sql_step.induct)
  case (sw_take s i s')
  from sw_take(4) obtain p where p: "worker_take (c_threads (m_con s)) i = Some p" "m_con s' = (m_con s)\<lparr>c_threads := p\<rparr>"
    "m_db s' = m_db s" "m_at s' = (m_at s)(i := if stop p \<and> ThreadPool.tasks (c_threads (m_con s)) = [] then SEnd else SBegin)"
    "m_ended s' = m_ended s" "m_null s' = m_null s" by (rule sql_take_Some)
  have step: "worker_step (c_threads (m_con s)) p" using sw_take p(1) by (blast intro: ws_take)
  show ?case
    using worker_step_decreases [OF step] worker_step_length [OF step] sql_rank_sum [OF sw_take(2) p(4)] p(2,6)
    by (auto simp: sql_load_def split: if_splits)
next
  case (sw_begin s i t)
  let ?s = "sql_begin rt i t s"
  show ?case
  proof (cases "m_null ?s")
    case True
    then have "?s = s\<lparr>m_null := True\<rparr>" using sw_begin(1) by (auto simp: sql_begin_def split: ktask.splits option.splits if_splits)
    then show ?thesis using sw_begin(1) by (simp add: sql_load_def)
  next
    case False
    then obtain p where "m_at ?s = (m_at s)(i := p)" "sql_rank p < 3"
      by (auto simp: sql_begin_def split: ktask.splits option.splits if_splits intro: that [of SEnd] that [of "SMessages _ _"])
    then show ?thesis using False sw_begin by (intro sql_load_moves [OF sw_begin(2)]) simp_all
  qed
next
  case (sw_messages s i t mq m throws)
  have "\<exists>p. m_at (sql_messages coll throws i mq m s) = (m_at s)(i := p) \<and> sql_rank p < 2 \<and>
      m_null (sql_messages coll throws i mq m s) = m_null s"
    by (auto simp: sql_messages_def split: option.split intro: exI [of _ SEnd] exI [of _ "SBox mq m"])
  then obtain p where "m_at (sql_messages coll throws i mq m s) = (m_at s)(i := p)" "sql_rank p < 2"
    "m_null (sql_messages coll throws i mq m s) = m_null s" by blast
  then show ?case using sw_messages by (intro sql_load_moves [OF sw_messages(2)]) simp_all
next
  case (sw_box s i t mq m throws)
  have "m_at (sql_box coll throws i mq m s) = (m_at s)(i := SEnd)" "m_null (sql_box coll throws i mq m s) = m_null s"
    by (auto simp: sql_box_def split: option.split)
  then show ?case using sw_box by (intro sql_load_moves [OF sw_box(2), where p = SEnd]) simp_all
next
  case (sw_finish s i t)
  then have "worker_step (c_threads (m_con s)) (c_threads (m_con (sql_finish i t s)))"
    by (auto simp: sql_finish_def sql_busy_def intro: ws_done)
  from worker_step_decreases [OF this] worker_step_length [OF this] show ?case by (simp add: sql_load_def sql_finish_def)
qed

lemma sql_run_length: "(sql_step rt coll ^^ k) s s' \<Longrightarrow> k + sql_load s' \<le> sql_load s"
proof (induction k arbitrary: s')
  case (Suc k)
  then obtain u where "(sql_step rt coll ^^ k) s u" "sql_step rt coll u s'" by auto
  then show ?case using Suc.IH [of u] sql_step_load [of rt coll u s'] by simp
qed simp

lemma sql_busy_moves:
  assumes "sql_busy i t s" and "\<not> m_null s"
  shows "\<exists>s'. sql_step rt coll s s'"
proof (cases "m_at s i")
  case SEnd
  from sw_finish [OF assms(2,1) this] show ?thesis ..
next
  case SBegin
  from sw_begin [OF assms(2,1) this] show ?thesis ..
next
  case (SMessages mq m)
  from sw_messages [OF assms(2,1) this] show ?thesis by blast
next
  case (SBox mq m)
  from sw_box [OF assms(2,1) this] show ?thesis by blast
qed

lemma sql_looping_moves:
  assumes "i < length (m_workers s)" and "m_workers s ! i = Looping" and "\<not> m_null s"
    and "stop (c_threads (m_con s)) \<or> ThreadPool.tasks (c_threads (m_con s)) \<noteq> []"
  shows "\<exists>s'. sql_step rt coll s s'"
proof -
  have "sql_take i s \<noteq> None" using assms(4) by (auto simp: sql_take_def worker_take_def)
  then obtain s' where "sql_take i s = Some s'" by blast
  from sw_take [OF assms(3,1,2) this] show ?thesis ..
qed

lemma mysql_stuck:
  assumes "(mysql_step rt coll)\<^sup>*\<^sup>* (mysql_start n db) s" and "0 < n" and "\<nexists>s'. sql_step rt coll s s'" and "\<not> m_null s"
  shows "sql_dry s" and "stop (c_threads (m_con s)) \<Longrightarrow> joined (c_threads (m_con s))"
proof -
  have start: "m_con (mysql_start n db) = consumer_new n" by (simp add: mysql_start_def)
  note inv = mp.reach_inv [OF assms(1) start]
  have nr: "m_workers s ! i \<noteq> Running t" if "i < length (m_workers s)" for i t
    using sql_busy_moves [of i t s rt coll] assms(3,4) that by (auto simp: sql_busy_def)
  have "ThreadPool.tasks (c_threads (m_con s)) = []"
  proof (rule ccontr)
    assume t: "ThreadPool.tasks (c_threads (m_con s)) \<noteq> []"
    have "m_workers s ! 0 \<in> set (m_workers s)" using inv(2) assms(2) by simp
    moreover have "Exited \<notin> set (m_workers s)" using inv(1) t by (simp add: tp_inv_def)
    ultimately have "m_workers s ! 0 \<noteq> Exited" by metis
    then have "m_workers s ! 0 = Looping" using nr [of 0] inv(2) assms(2) by (cases "m_workers s ! 0") auto
    then show False using sql_looping_moves [of 0 s rt coll] t assms(2-4) inv(2) by auto
  qed
  then show "sql_dry s" using nr by (simp add: sql_dry_def idle_running)
  assume st: "stop (c_threads (m_con s))"
  have "m_workers s ! i = Exited" if "i < length (m_workers s)" for i
    using nr [OF that] sql_looping_moves [OF that _ assms(4), of rt coll] st assms(3) by (cases "m_workers s ! i") auto
  then show "joined (c_threads (m_con s))" using st by (simp add: joined_def list_all_length)
qed

section \<open>What becomes of one message\<close>

text \<open>The row of its receiver's or its group's box; a message between users that do not exist has none.\<close>

definition boxed :: "(string \<Rightarrow> string) \<Rightarrow> ychat_db \<Rightarrow> MqMessage \<Rightarrow> bool" where
  "boxed coll db mq \<longleftrightarrow>
     (let from_uid = ProtoReq_from_uid (MqMessage_origin_req mq); to_id = ProtoReq_to_id (MqMessage_origin_req mq);
          sendtime = ProtoResp_timestamp (MqMessage_handle_result mq) in
      if is_send_to_group mq
      then \<exists>r \<in> set (t_group_box db). gb_gid r = to_id \<and> gb_sendtime r = sendtime \<and> coll (gb_msgid r) = coll (msgid_of mq)
      else from_uid \<in> set (t_user db) \<longrightarrow> to_id \<in> set (t_user db) \<longrightarrow>
        (\<exists>r \<in> set (t_user_box db). ub_from_uid r = from_uid \<and> ub_to_uid r = to_id \<and> ub_sendtime r = sendtime))"

text \<open>The rows stored under an id.\<close>

definition rows_of :: "(string \<Rightarrow> string) \<Rightarrow> ychat_db \<Rightarrow> string \<Rightarrow> (string \<times> string) list" where
  "rows_of coll db k = filter (\<lambda>(k', d). coll k' = coll k) (t_messages db)"

lemma rows_of_Nil: "rows_of coll db k = [] \<longleftrightarrow> \<not> has_message coll db k"
  by (auto simp: rows_of_def has_message_def list_ex_iff filter_empty_conv)

lemma insert_box_boxed:
  assumes "has_message coll db (msgid_of mq)"
  shows "boxed coll (case insert_box coll mq db of None \<Rightarrow> db | Some d \<Rightarrow> d) mq"
  using assms by (auto simp: boxed_def insert_box_def insert_user_box_def insert_group_box_def has_message_def Let_def list_ex_iff)

definition boxes_grow :: "ychat_db \<Rightarrow> ychat_db \<Rightarrow> bool" where
  "boxes_grow db db' \<longleftrightarrow> t_user db' = t_user db \<and> set (t_user_box db) \<subseteq> set (t_user_box db') \<and>
     set (t_group_box db) \<subseteq> set (t_group_box db')"

lemma boxed_grows: "boxed coll db mq \<Longrightarrow> boxes_grow db db' \<Longrightarrow> boxed coll db' mq"
  unfolding boxed_def boxes_grow_def Let_def by (auto 4 4)

lemma boxed_messages: "boxed coll (db\<lparr>t_messages := ms\<rparr>) mq = boxed coll db mq"
  by (simp add: boxed_def Let_def)

lemma insert_box_grows: "insert_box coll mq db = Some db' \<Longrightarrow> boxes_grow db db'"
  by (auto simp: insert_box_def insert_user_box_def insert_group_box_def boxes_grow_def Let_def split: if_splits)

text \<open>What a handler does to the table of messages: nothing, or it adds its row under a new id.\<close>

lemma MySQLHandle_rows:
  assumes "MySQLHandle rt coll fl m db = Handled db'"
  shows "boxes_grow db db'"
    and "t_messages db' = t_messages db \<or> (\<exists>mq. decodes rt m mq \<and> \<not> has_message coll db (msgid_of mq) \<and>
      t_messages db' = t_messages db @ [(msgid_of mq, k_payload m)])"
proof -
  consider "db' = db" | mq db1 where "decodes rt m mq" "insert_messages coll (msgid_of mq) (k_payload m) db = Some db1"
      "db' = db1 \<or> insert_box coll mq db1 = Some db'"
    using assms by (auto simp: MySQLHandle_def decodes_def split: option.splits if_splits)
  then have "boxes_grow db db' \<and> (t_messages db' = t_messages db \<or> (\<exists>mq. decodes rt m mq \<and> \<not> has_message coll db (msgid_of mq) \<and>
      t_messages db' = t_messages db @ [(msgid_of mq, k_payload m)]))"
  proof cases
    case 1
    then show ?thesis by (simp add: boxes_grow_def)
  next
    case 2
    then have db1: "db1 = db\<lparr>t_messages := t_messages db @ [(msgid_of mq, k_payload m)]\<rparr>" "\<not> has_message coll db (msgid_of mq)"
      by (simp_all add: insert_messages_iff split: if_splits)
    have "boxes_grow db1 db' \<and> t_messages db' = t_messages db1"
      using 2(3) by (auto simp: boxes_grow_def [of db1 db1] dest: insert_box_grows insert_box_messages)
    then show ?thesis using db1 2(1) by (auto simp: boxes_grow_def)
  qed
  then show "boxes_grow db db'"
    "t_messages db' = t_messages db \<or> (\<exists>mq. decodes rt m mq \<and> \<not> has_message coll db (msgid_of mq) \<and>
      t_messages db' = t_messages db @ [(msgid_of mq, k_payload m)])" by blast+
qed

lemma MySQLHandle_keeps:
  assumes "MySQLHandle rt coll fl m db = Handled db'" and "has_message coll db k"
  shows "rows_of coll db' k = rows_of coll db k"
  using MySQLHandle_rows(2) [OF assms(1)] assms(2) by (auto simp: rows_of_def has_message_def list_ex_iff)

lemma serial_keeps:
  assumes "serial rt coll ms db = Handled db'" and "has_message coll db k"
  shows "rows_of coll db' k = rows_of coll db k" and "boxes_grow db db'"
proof -
  have "rows_of coll db' k = rows_of coll db k \<and> boxes_grow db db'" using assms
  proof (induction ms arbitrary: db)
    case (Cons x ms)
    obtain m threw where x: "x = (m, threw)" by (cases x)
    obtain db1 where h: "MySQLHandle rt coll (\<lambda>i. threw = Some i) m db = Handled db1" "serial rt coll ms db1 = Handled db'"
      using Cons.prems(1) by (auto simp: x split: handled.splits)
    note keep = MySQLHandle_keeps [OF h(1) Cons.prems(2)] MySQLHandle_rows(1) [OF h(1)]
    have "has_message coll db1 k" using keep(1) Cons.prems(2) rows_of_Nil by metis
    then show ?case using Cons.IH [OF h(2)] keep by (auto simp: boxes_grow_def)
  qed (simp add: boxes_grow_def)
  then show "rows_of coll db' k = rows_of coll db k" "boxes_grow db db'" by blast+
qed

text \<open>A message whose id no other message has, and whose statements do not throw, is stored once, in its box too.\<close>

lemma serial_stores:
  assumes "decodes rt m mq" and "serial rt coll ms db = Handled db'" and "m \<in> fst ` set ms"
    and "\<not> has_message coll db (msgid_of mq)" and "\<forall>x \<in> set ms. fst x = m \<longrightarrow> snd x = None"
    and "\<forall>x \<in> set ms. \<forall>mq'. decodes rt (fst x) mq' \<longrightarrow> coll (msgid_of mq') = coll (msgid_of mq) \<longrightarrow> fst x = m"
  shows "rows_of coll db' (msgid_of mq) = [(msgid_of mq, k_payload m)] \<and> boxed coll db' mq"
  using assms(2-)
proof (induction ms arbitrary: db)
  case (Cons x ms)
  let ?k = "msgid_of mq"
  obtain m1 threw where x: "x = (m1, threw)" by (cases x)
  obtain db1 where h: "MySQLHandle rt coll (\<lambda>i. threw = Some i) m1 db = Handled db1" "serial rt coll ms db1 = Handled db'"
    using Cons.prems(1) by (auto simp: x split: handled.splits)
  show ?case
  proof (cases "m1 = m")
    case True
    let ?db = "db\<lparr>t_messages := t_messages db @ [(?k, k_payload m)]\<rparr>"
    have db1: "db1 = (case insert_box coll mq ?db of None \<Rightarrow> ?db | Some d \<Rightarrow> d)"
      using h(1) Cons.prems(3,4) by (simp add: True x MySQLHandle_decodes [OF assms(1)] insert_messages_iff split: option.splits)
    have "t_messages db1 = t_messages ?db" by (auto simp: db1 split: option.split dest: insert_box_messages)
    then have rows: "rows_of coll db1 ?k = [(?k, k_payload m)]"
      using Cons.prems(3) by (simp add: rows_of_def flip: rows_of_Nil)
    moreover have "boxed coll db1 mq" unfolding db1 by (rule insert_box_boxed) (simp add: has_message_def)
    moreover have "has_message coll db1 ?k" using rows rows_of_Nil [of coll db1 ?k] by simp
    from serial_keeps [OF h(2) this] have "rows_of coll db' ?k = rows_of coll db1 ?k" "boxes_grow db1 db'" .
    ultimately show ?thesis using boxed_grows by simp
  next
    case False
    have "\<not> has_message coll db1 ?k"
      using MySQLHandle_rows(2) [OF h(1)] Cons.prems(3,5) False by (auto simp: x has_message_def list_ex_iff)
    then show ?thesis using Cons.IH [OF h(2)] Cons.prems(2,4,5) False by (auto simp: x)
  qed
qed simp

text \<open>The same for the interleaved process.\<close>

lemma mysql_reach_handled:
  assumes "(mysql_step rt coll)\<^sup>*\<^sup>* (mysql_start n db) s" and "sql_dry s"
  shows "mset (c_handled (m_con s)) = mset (filter no_error (c_polled (m_con s)))"
proof -
  have start: "m_con (mysql_start n db) = consumer_new n" by (simp add: mysql_start_def)
  note inv = mp.reach_inv [OF assms(1) start]
  show ?thesis by (rule consumer_dry(1) [OF inv(3,1)]) (use assms(2) in \<open>simp add: sql_dry_def\<close>)
qed

lemma mysql_message_stored:
  assumes "boxes_inv coll db" and "(mysql_step rt coll)\<^sup>*\<^sup>* (mysql_start n db) s" and "sql_dry s"
    and "m \<in> set (c_polled (m_con s))" and "no_error m" and "decodes rt m mq" and "\<not> has_message coll db (msgid_of mq)"
    and "\<forall>threw. (m, threw) \<in> set (m_ended s) \<longrightarrow> threw = None"
    and "\<forall>m' \<in> set (c_polled (m_con s)). \<forall>mq'. decodes rt m' mq' \<longrightarrow> coll (msgid_of mq') = coll (msgid_of mq) \<longrightarrow> m' = m"
  shows "rows_of coll (m_db s) (msgid_of mq) = [(msgid_of mq, k_payload m)] \<and> boxed coll (m_db s) mq"
proof -
  note inv = mysql_reach_inv [OF assms(1,2)]
  have "mset (map fst (m_ended s)) = mset (filter no_error (c_polled (m_con s)))"
    using mysql_dry_inv(2) [OF inv assms(3)] mysql_reach_handled [OF assms(2,3)] by metis
  from mset_eq_setD [OF this] have polled: "fst ` set (m_ended s) = {m \<in> set (c_polled (m_con s)). no_error m}" by auto
  have "serialises rt coll db (m_db s) (m_ended s) {#}" using inv mysql_dry_inv(1) [OF inv assms(3)] by (simp add: mysql_inv_def)
  from serialises_end [OF this] obtain order ms where o: "mset order = mset (m_ended s)"
    "serial rt coll order db = Handled ((m_db s)\<lparr>t_messages := ms\<rparr>)" "mset ms = mset (t_messages (m_db s))" by blast
  have set: "set order = set (m_ended s)" using o(1) by (rule mset_eq_setD)
  have "rows_of coll ((m_db s)\<lparr>t_messages := ms\<rparr>) (msgid_of mq) = [(msgid_of mq, k_payload m)] \<and>
      boxed coll ((m_db s)\<lparr>t_messages := ms\<rparr>) mq"
  proof (rule serial_stores [OF assms(6) o(2) _ assms(7)])
    show "m \<in> fst ` set order" using polled assms(4,5) by (simp add: set)
    show "\<forall>x \<in> set order. fst x = m \<longrightarrow> snd x = None" using assms(8) by (auto simp: set)
    show "\<forall>x \<in> set order. \<forall>mq'. decodes rt (fst x) mq' \<longrightarrow> coll (msgid_of mq') = coll (msgid_of mq) \<longrightarrow> fst x = m"
      using assms(9) polled by (auto simp: set)
  qed
  moreover have "mset (rows_of coll ((m_db s)\<lparr>t_messages := ms\<rparr>) k) = mset (rows_of coll (m_db s) k)" for k
    using o(3) by (simp add: rows_of_def)
  ultimately show ?thesis by (metis boxed_messages mset_single_iff_right)
qed

section \<open>Running the process\<close>

datatype sql_move =
    QTest | QPoll kmsg | QTake nat | QBegin nat | QMessages bool nat | QBox bool nat | QFinish nat | QDestroy

definition sql_running :: "nat \<Rightarrow> mysql_process \<Rightarrow> (unit ktask \<Rightarrow> mysql_process option) \<Rightarrow> mysql_process option" where
  "sql_running i s f = (if i < length (m_workers s) then (case m_workers s ! i of Running t \<Rightarrow> f t | _ \<Rightarrow> None) else None)"

fun sql_move_thread :: "pb_rt \<Rightarrow> (string \<Rightarrow> string) \<Rightarrow> sql_move \<Rightarrow> mysql_process \<Rightarrow> mysql_process option" where
  "sql_move_thread rt coll QTest s = (if c_point (m_con s) = Testing then Some (s\<lparr>m_con := run_test (m_con s)\<rparr>) else None)"
| "sql_move_thread rt coll (QPoll m) s =
     (if c_point (m_con s) = Polling then (case run_poll m (m_con s) of Inr c \<Rightarrow> Some (s\<lparr>m_con := c\<rparr>) | Inl e \<Rightarrow> None) else None)"
| "sql_move_thread rt coll (QTake i) s =
     (if i < length (m_workers s) \<and> m_workers s ! i = Looping then sql_take i s else None)"
| "sql_move_thread rt coll (QBegin i) s = sql_running i s (\<lambda>t. if m_at s i = SBegin then Some (sql_begin rt i t s) else None)"
| "sql_move_thread rt coll (QMessages throws i) s =
     sql_running i s (\<lambda>t. case m_at s i of SMessages mq m \<Rightarrow> Some (sql_messages coll throws i mq m s) | _ \<Rightarrow> None)"
| "sql_move_thread rt coll (QBox throws i) s =
     sql_running i s (\<lambda>t. case m_at s i of SBox mq m \<Rightarrow> Some (sql_box coll throws i mq m s) | _ \<Rightarrow> None)"
| "sql_move_thread rt coll (QFinish i) s = sql_running i s (\<lambda>t. if m_at s i = SEnd then Some (sql_finish i t s) else None)"
| "sql_move_thread rt coll QDestroy s =
     (if c_point (m_con s) = Closed then Some (s\<lparr>m_con := (m_con s)\<lparr>c_threads := destroy (c_threads (m_con s))\<rparr>\<rparr>) else None)"

fun sql_schedule :: "pb_rt \<Rightarrow> (string \<Rightarrow> string) \<Rightarrow> sql_move list \<Rightarrow> mysql_process \<Rightarrow> mysql_process option" where
  "sql_schedule rt coll [] s = Some s"
| "sql_schedule rt coll (v # vs) s =
     (if m_null s then None
      else case sql_move_thread rt coll v s of None \<Rightarrow> None | Some s' \<Rightarrow> sql_schedule rt coll vs s')"

lemma sql_running_Some:
  assumes "sql_running i s f = Some s'"
  obtains t where "sql_busy i t s" "f t = Some s'"
  using assms by (auto simp: sql_running_def sql_busy_def split: if_splits worker.splits)

fun sql_worker_move :: "sql_move \<Rightarrow> bool" where
  "sql_worker_move QTest = False"
| "sql_worker_move (QPoll m) = False"
| "sql_worker_move QDestroy = False"
| "sql_worker_move _ = True"

lemma sql_move_work:
  assumes "sql_move_thread rt coll v s = Some s'" and "\<not> m_null s" and "sql_worker_move v"
  shows "sql_step rt coll s s'"
proof (cases v)
  case (QTake i)
  then show ?thesis using assms by (auto split: if_splits intro!: sw_take)
next
  case (QBegin i)
  then show ?thesis using assms by (auto elim!: sql_running_Some split: if_splits intro!: sw_begin)
next
  case (QMessages f i)
  then show ?thesis using assms by (auto elim!: sql_running_Some split: sql_point.splits intro!: sw_messages)
next
  case (QBox f i)
  then show ?thesis using assms by (auto elim!: sql_running_Some split: sql_point.splits intro!: sw_box)
next
  case (QFinish i)
  then show ?thesis using assms by (auto elim!: sql_running_Some split: if_splits intro!: sw_finish)
qed (use assms(3) in simp_all)

lemma sql_move_step:
  assumes "sql_move_thread rt coll v s = Some s'" and "\<not> m_null s"
  shows "mysql_step rt coll s s'"
proof (cases "sql_worker_move v")
  case True
  then show ?thesis using sql_move_work [OF assms] by (blast intro: mp_work)
next
  case False
  then show ?thesis using assms by (cases v) (auto split: if_splits sum.splits intro: mp_test mp_poll mp_destroy)
qed

lemma joined_stuck:
  assumes "joined (c_threads (m_con s))"
  shows "\<not> sql_step rt coll s s'"
proof
  assume "sql_step rt coll s s'"
  then show False using assms by cases (auto simp: joined_def sql_busy_def list_all_length)
qed

lemma sql_schedule_append:
  "sql_schedule rt coll (vs @ ws) s = (case sql_schedule rt coll vs s of None \<Rightarrow> None | Some u \<Rightarrow> sql_schedule rt coll ws u)"
  by (induction vs arbitrary: s) (auto split: option.split)

lemma sql_schedule_work:
  "sql_schedule rt coll vs s = Some s' \<Longrightarrow> list_all sql_worker_move vs \<Longrightarrow> (sql_step rt coll ^^ length vs) s s'"
proof (induction vs arbitrary: s)
  case (Cons v vs)
  then obtain u where u: "\<not> m_null s" "sql_move_thread rt coll v s = Some u" "sql_schedule rt coll vs u = Some s'"
    by (auto split: if_splits option.splits)
  then have "sql_step rt coll s u" using sql_move_work [OF u(2,1)] Cons(3) by simp
  moreover have "(sql_step rt coll ^^ length vs) u s'" using Cons(1) [OF u(3)] Cons(3) by simp
  ultimately show ?case using relpowp_Suc_I2 [of "sql_step rt coll"] by auto
qed simp

lemma sql_schedule_run: "sql_schedule rt coll vs s = Some s' \<Longrightarrow> (mysql_step rt coll)\<^sup>*\<^sup>* s s'"
proof (induction vs arbitrary: s)
  case (Cons v vs)
  then obtain u where "\<not> m_null s" "sql_move_thread rt coll v s = Some u" "sql_schedule rt coll vs u = Some s'"
    by (auto split: if_splits option.splits)
  then show ?case using Cons(1) [of u] sql_move_step [of rt coll v s u] by (auto intro: converse_rtranclp_into_rtranclp)
qed simp

text \<open>A message polled twice by a process with two workers: the second is refused while the first is between its
  statements. Then Kafka reports a fatal error, and the process ends.\<close>

definition ex_unknown_topic :: kmsg where
  "ex_unknown_topic = \<lparr>k_err = ERR_UNKNOWN_TOPIC, k_key = None, k_payload = []\<rparr>"

definition closing_twice :: "sql_move list" where
  "closing_twice = [QBox False 0, QFinish 0, QTake 0, QTake 1]"

definition twice_moves :: "sql_move list" where
  "twice_moves = [QTest, QPoll ex_kmsg, QTest, QPoll ex_kmsg, QTest, QPoll ex_unknown_topic, QTake 0, QTake 1, QBegin 1, QBegin 0,
     QMessages False 0, QMessages False 1, QFinish 1, QTake 1, QBegin 1, QFinish 1, QTest, QDestroy] @ closing_twice"

definition twice :: mysql_process where
  "twice = the (sql_schedule wire_rt id twice_moves (mysql_start 2 box_db))"

lemmas sql_run_simps = mysql_start_def consumer_new_def ThreadPool_new_def run_test_def run_poll_def Enqueue_def sql_take_def
  worker_take_def sql_goto_def sql_return_def sql_running_def sql_begin_def sql_messages_def sql_box_def sql_finish_def
  worker_done_def Consume_def insert_messages_def insert_box_def insert_user_box_def msgid_of_def is_send_to_group_def Let_def
  destroy_def

lemma twice_run:
  "\<exists>s. sql_schedule wire_rt id twice_moves (mysql_start 2 box_db) = Some s \<and> sql_dry s \<and>
     c_polled (m_con s) = [ex_kmsg, ex_kmsg, ex_unknown_topic] \<and> m_ended s = [(ex_kmsg, None), (ex_kmsg, None)] \<and> \<not> m_null s \<and>
     joined (c_threads (m_con s)) \<and> length (t_user_box (m_db s)) = 1"
proof -
  have two: "replicate 2 w = [w, w]" for w :: "unit ktask worker" by (simp add: numeral_2_eq_2)
  have err: "k_err ex_kmsg = ERR_NO_ERROR" by (simp add: ex_kmsg_def)
  show ?thesis
    unfolding twice_moves_def closing_twice_def
    by (simp add: sql_run_simps two err ex_kmsg_parse ex_kmsg_key ex_mq_fields ex_unknown_topic_def box_db_def sql_dry_def idle_def joined_def)
qed

lemma twice_eval:
  "sql_schedule wire_rt id twice_moves (mysql_start 2 box_db) = Some twice" "sql_dry twice"
  "c_polled (m_con twice) = [ex_kmsg, ex_kmsg, ex_unknown_topic]" "m_ended twice = [(ex_kmsg, None), (ex_kmsg, None)]"
  "\<not> m_null twice" "joined (c_threads (m_con twice))"
  using twice_run by (auto simp: twice_def)

lemma twice_reached: "(mysql_step wire_rt id)\<^sup>*\<^sup>* (mysql_start 2 box_db) twice"
  by (rule sql_schedule_run [OF twice_eval(1)])

lemma box_db_inv: "boxes_inv id box_db"
  by (simp add: boxes_inv_def box_db_def)

lemma ex_kmsg_decodes: "decodes wire_rt ex_kmsg ex_mq"
  by (simp add: decodes_def ex_kmsg_parse ex_kmsg_key msgid_of_def ex_mq_fields)

section \<open>Properties\<close>

text \<open>C5. The statements of different workers may interleave in any way, and any of them may throw: the keys and references of
  the message tables hold in every state; and once the workers have run dry, each message polled without error has been
  handled once, and the tables are those some serial run of \<open>MySQLHandle\<close> over exactly these messages, with the same
  statements throwing, would have left; only the order of the rows of \<open>messages\<close> may differ.\<close>

theorem mysql_serializable:
  assumes "boxes_inv coll db" and "(mysql_step rt coll)\<^sup>*\<^sup>* (mysql_start n db) s"
  shows "boxes_inv coll (m_db s) \<and>
    (sql_dry s \<longrightarrow> (\<exists>order ms. mset order = mset (m_ended s) \<and>
       mset (map fst order) = mset (filter no_error (c_polled (m_con s))) \<and>
       serial rt coll order db = Handled ((m_db s)\<lparr>t_messages := ms\<rparr>) \<and> mset ms = mset (t_messages (m_db s))))"
proof -
  note inv = mysql_reach_inv [OF assms]
  have "\<exists>order ms. mset order = mset (m_ended s) \<and> mset (map fst order) = mset (filter no_error (c_polled (m_con s))) \<and>
      serial rt coll order db = Handled ((m_db s)\<lparr>t_messages := ms\<rparr>) \<and> mset ms = mset (t_messages (m_db s))" if dry: "sql_dry s"
  proof -
    have "serialises rt coll db (m_db s) (m_ended s) {#}" using inv mysql_dry_inv(1) [OF inv dry] by (simp add: mysql_inv_def)
    from serialises_end [OF this] obtain order ms where o: "mset order = mset (m_ended s)"
      "serial rt coll order db = Handled ((m_db s)\<lparr>t_messages := ms\<rparr>)" "mset ms = mset (t_messages (m_db s))" by blast
    moreover have "mset (map fst order) = mset (map fst (m_ended s))" using o(1) by (metis mset_map)
    ultimately show ?thesis using mysql_dry_inv(2) [OF inv dry] mysql_reach_handled [OF assms(2) dry] by metis
  qed
  then show ?thesis using mysql_inv_boxes [OF inv] by blast
qed

theorem mysql_serializable_witness:
  "sql_dry twice \<and> (\<exists>order ms. map fst order = replicate 2 ex_kmsg \<and>
     serial wire_rt id order box_db = Handled ((m_db twice)\<lparr>t_messages := ms\<rparr>))"
proof -
  obtain order ms where o: "mset order = mset [(ex_kmsg, None), (ex_kmsg, None)]"
    "serial wire_rt id order box_db = Handled ((m_db twice)\<lparr>t_messages := ms\<rparr>)"
    using mysql_serializable [OF box_db_inv twice_reached] twice_eval(2,4) by auto
  have "map fst order = replicate 2 ex_kmsg"
    using mset_eq_length [OF o(1)] mset_eq_setD [OF o(1)] by (intro replicate_eqI) auto
  with o(2) show ?thesis using twice_eval(2) by blast
qed



text \<open>C12. Without new messages the workers make at most \<open>sql_load\<close> steps, and where they stop the process has died of a
  null key or every polled message has been dealt with; and when the pool is being destroyed all threads have then left, so
  that its destructor returns.\<close>

theorem mysql_runs_dry:
  assumes "(mysql_step rt coll)\<^sup>*\<^sup>* (mysql_start n db) s" and "0 < n"
  shows "(\<forall>k s'. (sql_step rt coll ^^ k) s s' \<longrightarrow> k \<le> sql_load s) \<and>
    (\<forall>s'. (sql_step rt coll)\<^sup>*\<^sup>* s s' \<and> (\<nexists>s''. sql_step rt coll s' s'') \<longrightarrow>
       m_null s' \<or> sql_dry s' \<and> (stop (c_threads (m_con s')) \<longrightarrow> joined (c_threads (m_con s'))))"
proof (intro conjI allI impI)
  show "k \<le> sql_load s" if "(sql_step rt coll ^^ k) s s'" for k s' using sql_run_length [OF that] by simp
  fix s' assume a: "(sql_step rt coll)\<^sup>*\<^sup>* s s' \<and> (\<nexists>s''. sql_step rt coll s' s'')"
  have "(mysql_step rt coll)\<^sup>*\<^sup>* s s'" using a mono_rtranclp [of "sql_step rt coll" "mysql_step rt coll"] mp_work by blast
  then have "(mysql_step rt coll)\<^sup>*\<^sup>* (mysql_start n db) s'" using assms(1) by simp
  from mysql_stuck [OF this assms(2)] a
  show "m_null s' \<or> sql_dry s' \<and> (stop (c_threads (m_con s')) \<longrightarrow> joined (c_threads (m_con s')))" by blast
qed

theorem mysql_runs_dry_witness:
  "\<exists>s. (sql_step wire_rt id ^^ 4) s twice \<and> 4 \<le> sql_load s \<and> sql_dry twice \<and> joined (c_threads (m_con twice))"
proof -
  obtain vs s where s: "sql_schedule wire_rt id vs (mysql_start 2 box_db) = Some s" "sql_schedule wire_rt id closing_twice s = Some twice"
    using twice_eval(1) unfolding twice_moves_def sql_schedule_append by (auto simp del: sql_schedule.simps split: option.splits)
  have run: "(sql_step wire_rt id ^^ 4) s twice"
    using sql_schedule_work [OF s(2)] by (simp add: closing_twice_def numeral_eq_Suc)
  then have runs: "(sql_step wire_rt id)\<^sup>*\<^sup>* s twice" by (rule relpowp_imp_rtranclp)
  have "\<nexists>s''. sql_step wire_rt id twice s''" using joined_stuck [OF twice_eval(6)] by blast
  then show ?thesis
    using mysql_runs_dry [OF sql_schedule_run [OF s(1)]] run runs twice_eval(5,6) by (auto simp: joined_def)
qed

end
