(* ===== verification/Kafka.thy ===== *)
theory Kafka
  imports Prelude
begin

text \<open>
  The configuration of librdkafka: \<open>Producer::Init\<close> of \<open>msg_logic/kafka_producer.cc\<close>, and \<open>Consumer::Init\<close>, the rebalance
  callback and the event callback of \<open>transfer/kafka_consumer.cc\<close>. librdkafka is not part of the sources: which settings it
  accepts, and whether it can create a handle, fetch metadata, create a topic or subscribe, are fields of an
  environment. A configuration is the list of the settings applied to it, a callback the name of the object.
\<close>

section \<open>Definitions\<close>

record kafka_env =
  accepts :: "string \<Rightarrow> string \<Rightarrow> bool"
  creates :: bool
  metadata_ok :: bool
  topic_ok_env :: bool
  subscribes :: bool

type_synonym kafka_conf = "(string \<times> string) list"

text \<open>A sequence of \<open>conf_->set\<close> with a return at the first that fails.\<close>

fun conf_sets :: "(string \<Rightarrow> string \<Rightarrow> bool) \<Rightarrow> kafka_conf \<Rightarrow> kafka_conf \<Rightarrow> bool \<times> kafka_conf" where
  "conf_sets ok [] c = (True, c)"
| "conf_sets ok ((k, v) # ss) c = (if ok k v then conf_sets ok ss (c @ [(k, v)]) else (False, c))"

record Producer =
  p_conf :: "kafka_conf option"
  p_tconf :: "kafka_conf option"
  p_handle :: "kafka_conf option"
  p_topic :: "string option"

definition producer_settings :: "string \<Rightarrow> kafka_conf" where
  "producer_settings brokers =
     [(''bootstrap.servers'', brokers), (''dr_cb'', ''report_cb_''), (''retries'', ''3''), (''message.timeout.ms'', ''3000'')]"

definition Producer_Init :: "kafka_env \<Rightarrow> string \<Rightarrow> string \<Rightarrow> Producer \<Rightarrow> bool \<times> Producer" where
  "Producer_Init e brokers topic_name p =
     (let (ok, c) = conf_sets (accepts e) (producer_settings brokers) [];
          p1 = p\<lparr>p_conf := Some c, p_tconf := Some []\<rparr>
      in if \<not> ok then (False, p1)
         else if \<not> creates e then (False, p1\<lparr>p_handle := None\<rparr>)
         else let p2 = p1\<lparr>p_handle := Some c\<rparr> in
           if \<not> metadata_ok e then (False, p2)
           else if \<not> topic_ok_env e then (False, p2\<lparr>p_topic := None\<rparr>)
           else (True, p2\<lparr>p_topic := Some topic_name\<rparr>))"

record kconsumer =
  k_conf :: "kafka_conf option"
  k_tconf :: "kafka_conf option"
  k_handle :: "kafka_conf option"
  k_topics :: "string list"

definition consumer_settings :: "string \<Rightarrow> string \<Rightarrow> kafka_conf" where
  "consumer_settings brokers groupid =
     [(''bootstrap.servers'', brokers), (''group.id'', groupid), (''enable.partition.eof'', ''true''),
      (''event_cb'', ''event_cb_''), (''rebalance_cb'', ''rb_cb_'')]"

definition Consumer_Init :: "kafka_env \<Rightarrow> string \<Rightarrow> string \<Rightarrow> string \<Rightarrow> kconsumer \<Rightarrow> bool \<times> kconsumer" where
  "Consumer_Init e brokers groupid topic_name c0 =
     (let (ok, c) = conf_sets (accepts e) (consumer_settings brokers groupid) [];
          c1 = c0\<lparr>k_conf := Some c, k_tconf := Some []\<rparr>
      in if \<not> ok then (False, c1)
         else if \<not> creates e then (False, c1\<lparr>k_handle := None\<rparr>)
         else let c2 = c1\<lparr>k_handle := Some c\<rparr> in
           if \<not> subscribes e then (False, c2)
           else (True, c2\<lparr>k_topics := [topic_name]\<rparr>))"

datatype rebalance_err = ASSIGN_PARTITIONS | REVOKE_PARTITIONS | REBALANCE_OTHER

definition rebalance_cb :: "rebalance_err \<Rightarrow> 'p list \<Rightarrow> 'p list \<Rightarrow> 'p list" where
  "rebalance_cb err partitions assigned =
     (if err = ASSIGN_PARTITIONS then partitions
      else if err = REVOKE_PARTITIONS then []
      else assigned)"

datatype kafka_event = EVENT_ERROR | EVENT_STATS | EVENT_LOG | EVENT_THROTTLE | EVENT_OTHER

datatype log_line = InfoLine | ErrorLine

definition event_cb :: "kafka_event \<Rightarrow> log_line" where
  "event_cb event =
     (case event of
        EVENT_ERROR \<Rightarrow> ErrorLine
      | EVENT_STATS \<Rightarrow> InfoLine
      | EVENT_LOG \<Rightarrow> InfoLine
      | EVENT_THROTTLE \<Rightarrow> ErrorLine
      | EVENT_OTHER \<Rightarrow> ErrorLine)"

section \<open>Settings\<close>

text \<open>The first setting that is refused decides; those before it have been applied.\<close>

lemma conf_sets_spec:
  "conf_sets ok ss c = (list_all (\<lambda>(k, v). ok k v) ss, c @ takeWhile (\<lambda>(k, v). ok k v) ss)"
  by (induction ok ss c rule: conf_sets.induct) auto

lemma Producer_Init_True:
  "Producer_Init e brokers tn p = (True, p') \<longleftrightarrow>
     list_all (\<lambda>(k, v). accepts e k v) (producer_settings brokers) \<and> creates e \<and> metadata_ok e \<and> topic_ok_env e \<and>
     p' = p\<lparr>p_conf := Some (producer_settings brokers), p_tconf := Some [], p_handle := Some (producer_settings brokers),
       p_topic := Some tn\<rparr>"
  by (auto simp: Producer_Init_def conf_sets_spec Let_def list_all_iff cong: takeWhile_cong)

lemma Consumer_Init_True:
  "Consumer_Init e brokers g tn c = (True, c') \<longleftrightarrow>
     list_all (\<lambda>(k, v). accepts e k v) (consumer_settings brokers g) \<and> creates e \<and> subscribes e \<and>
     c' = c\<lparr>k_conf := Some (consumer_settings brokers g), k_tconf := Some [], k_handle := Some (consumer_settings brokers g),
       k_topics := [tn]\<rparr>"
  by (auto simp: Consumer_Init_def conf_sets_spec Let_def list_all_iff cong: takeWhile_cong)

text \<open>A failed \<open>Init\<close> leaves no topic that can be produced to, and a consumer that is not subscribed.\<close>

lemma Init_False:
  "Producer_Init e brokers tn p = (False, p') \<Longrightarrow> p_topic p = None \<Longrightarrow> p_topic p' = None"
  "Consumer_Init e brokers g tn c = (False, c') \<Longrightarrow> k_topics c' = k_topics c"
  by (auto simp: Producer_Init_def Consumer_Init_def Let_def split: prod.splits if_splits)

section \<open>Rebalancing\<close>

definition rebalances :: "(rebalance_err \<times> 'p list) list \<Rightarrow> 'p list \<Rightarrow> 'p list" where
  "rebalances evs = fold (\<lambda>(err, ps). rebalance_cb err ps) evs"

lemma rebalances_append: "rebalances (xs @ ys) a = rebalances ys (rebalances xs a)"
  by (simp add: rebalances_def)

lemma rebalances_other: "list_all (\<lambda>(err, ps). err = REBALANCE_OTHER) xs \<Longrightarrow> rebalances xs a = a"
  by (induction xs arbitrary: a) (auto simp: rebalances_def rebalance_cb_def)

end
