(* ===== verification/Startup.thy ===== *)
theory Startup
  imports Kafka GateOrder Route Varify Logic Push TransferSrv
begin

text \<open>
  How the servers come up: \<open>include/singleton.h\<close>, \<open>include/mysql_pool.h\<close>, \<open>include/redis_pool.h\<close>, \<open>include/spd_gflag.h\<close>
  and the \<open>main\<close> functions. A \<open>main\<close> is a function from what its environment answers (an \<open>env\<close>: the command line, whether
  MySQL, Redis, Kafka, Cassandra and the mail server can be reached, whether the port can be bound) to how it ends: it
  serves, returns a code, exits, leaves with an exception, or crashes on the null server \<open>BuildAndStart\<close> returns. A
  serving process carries the state its handlers run on.
\<close>

section \<open>Singleton\<close>

record 't singleton =
  once_flag :: bool
  instance_ptr :: "'t option"
  constructed :: nat

text \<open>\<open>Instance\<close> under \<open>call_once\<close>: \<open>ctor\<close> is what the constructor would yield, \<open>None\<close> an exception, after which the flag
  stays unset. The result is the pointer returned, or \<open>None\<close> when the exception leaves.\<close>

definition Instance :: "'t option \<Rightarrow> 't singleton \<Rightarrow> 't option \<times> 't singleton" where
  "Instance ctor s =
     (if once_flag s then (instance_ptr s, s)
      else case ctor of
        None \<Rightarrow> (None, s)
      | Some x \<Rightarrow> (Some x, \<lparr>once_flag = True, instance_ptr = Some x, constructed = Suc (constructed s)\<rparr>))"

definition singleton_new :: "'t singleton" where
  "singleton_new = \<lparr>once_flag = False, instance_ptr = None, constructed = 0\<rparr>"

fun Instances :: "'t option list \<Rightarrow> 't singleton \<Rightarrow> 't option list \<times> 't singleton" where
  "Instances [] s = ([], s)"
| "Instances (c # cs) s = (let (r, s1) = Instance c s; (rs, s2) = Instances cs s1 in (r # rs, s2))"

section \<open>MySQL and Redis\<close>

datatype startup_error = PocoData | PocoOther | RedisError | MongoUri

datatype show_tables = Tables nat | DataExc | PocoExc

record mysql_proc =
  poco_mysql_pool :: "(string \<times> int \<times> int \<times> int) option"
  connector :: bool

definition InitMysql :: "startup_error option \<Rightarrow> show_tables \<Rightarrow> string \<Rightarrow> mysql_proc \<Rightarrow> (startup_error + unit) \<times> mysql_proc" where
  "InitMysql new_pool reply conn_str m =
     (case poco_mysql_pool m of
        Some p \<Rightarrow> (Inr (), m)
      | None \<Rightarrow>
          let m1 = m\<lparr>connector := True\<rparr> in
          (case new_pool of
             Some e \<Rightarrow> (Inl e, m1)
           | None \<Rightarrow>
               let m2 = m1\<lparr>poco_mysql_pool := Some (conn_str, 1, 32, 60)\<rparr> in
               (case reply of
                  Tables n \<Rightarrow> (Inr (), m2)
                | DataExc \<Rightarrow> (Inl PocoData, m2)
                | PocoExc \<Rightarrow> (Inl PocoOther, m2))))"

text \<open>The connection a statement runs on; \<open>None\<close> dereferences the null pool.\<close>

definition CreateStatement :: "mysql_proc \<Rightarrow> string option" where
  "CreateStatement m = map_option fst (poco_mysql_pool m)"

definition redis_Init :: "bool \<Rightarrow> bool \<Rightarrow> string \<Rightarrow> (string \<times> int) option \<Rightarrow> (startup_error + unit) \<times> (string \<times> int) option" where
  "redis_Init made ping host p =
     (if \<not> made then (Inl RedisError, p)
      else if \<not> ping then (Inl RedisError, Some (host, 6379))
      else (Inr (), Some (host, 6379)))"

section \<open>Processes\<close>

record env =
  argv :: "(string \<times> string) list"
  log_level_arg :: int
  mysql_new :: "startup_error option"
  mysql_reply :: show_tables
  redis_new :: bool
  redis_ping :: bool
  kafka :: kafka_env
  connects :: "nat \<Rightarrow> bool"
  redis_clients_ok :: "nat \<Rightarrow> bool"
  listens :: bool

record proc =
  flags :: "string \<Rightarrow> string"
  mysql :: mysql_proc
  redis_pool :: "(string \<times> int) option"
  producer :: Producer
  kcons :: kconsumer
  handler_fn :: "string option"
  log_file :: "string option"
  log_level :: int

datatype 'a outcome = Serving 'a | Returned int | Exits int | Uncaught startup_error | NullServer

definition proc_new :: "(string \<times> string) list \<Rightarrow> proc" where
  "proc_new defaults =
     \<lparr>flags = (\<lambda>f. case map_of defaults f of Some v \<Rightarrow> v | None \<Rightarrow> []), mysql = \<lparr>poco_mysql_pool = None, connector = False\<rparr>,
      redis_pool = None, producer = \<lparr>p_conf = None, p_tconf = None, p_handle = None, p_topic = None\<rparr>,
      kcons = \<lparr>k_conf = None, k_tconf = None, k_handle = None, k_topics = []\<rparr>, handler_fn = None, log_file = None,
      log_level = 2\<rparr>"

definition ParseCommandLineFlags :: "(string \<times> string) list \<Rightarrow> proc \<Rightarrow> proc" where
  "ParseCommandLineFlags args st = st\<lparr>flags := (\<lambda>f. case map_of args f of Some v \<Rightarrow> v | None \<Rightarrow> flags st f)\<rparr>"

text \<open>The levels of spdlog are numbered from \<open>trace\<close> = 0; \<open>debug\<close> is 1, and the servers without a log flag log from it on.\<close>

definition set_level_debug :: "proc \<Rightarrow> proc" where
  "set_level_debug st = st\<lparr>log_level := 1\<rparr>"

definition InitSpdGflag :: "env \<Rightarrow> string \<Rightarrow> proc \<Rightarrow> proc" where
  "InitSpdGflag e mod_name st =
     (let st1 = ParseCommandLineFlags (argv e) st;
          st2 = (if log_level_arg e > 1 then st1\<lparr>log_file := Some (''logs/'' @ mod_name @ ''.log'')\<rparr> else st1)
      in st2\<lparr>log_level := log_level_arg e\<rparr>)"

definition start_mysql :: "env \<Rightarrow> proc \<Rightarrow> startup_error + proc" where
  "start_mysql e st =
     (case InitMysql (mysql_new e) (mysql_reply e) (flags st ''mysql_conn'') (mysql st) of
        (Inl x, m) \<Rightarrow> Inl x
      | (Inr u, m) \<Rightarrow> Inr (st\<lparr>mysql := m\<rparr>))"

definition start_redis :: "env \<Rightarrow> proc \<Rightarrow> startup_error + proc" where
  "start_redis e st =
     (case redis_Init (redis_new e) (redis_ping e) (flags st ''redis_host'') (redis_pool st) of
        (Inl x, p) \<Rightarrow> Inl x
      | (Inr u, p) \<Rightarrow> Inr (st\<lparr>redis_pool := p\<rparr>))"

definition start_consumer :: "env \<Rightarrow> string \<Rightarrow> proc \<Rightarrow> proc outcome" where
  "start_consumer e handler_name st =
     (case Consumer_Init (kafka e) (flags st ''kafka_brokers'') (flags st ''groupid'') (flags st ''topic'') (kcons st) of
        (ok, k) \<Rightarrow> if \<not> ok then Returned 1 else Serving (st\<lparr>kcons := k, handler_fn := Some handler_name\<rparr>))"

section \<open>Flags\<close>

text \<open>The \<open>DEFINE_\<close> lines of each file with their defaults. A binary has the flags of the files it is linked from.\<close>

definition default_conn :: string where
  "default_conn = ''host=127.0.0.1;user=root;password=123456;db=ychat''"

definition gate_main_flags :: "(string \<times> string) list" where
  "gate_main_flags = [(''log_level'', ''0''), (''service_address'', ''127.0.0.1:10000''), (''redis_host'', ''127.0.0.1'')]"

definition ws_flags :: "(string \<times> string) list" where
  "ws_flags = [(''ws_host'', ''127.0.0.1''), (''ws_port'', ''10010''), (''redis_user_prefix'', redis_user_prefix),
     (''redis_user_token_prefix'', redis_user_token_prefix)]"

definition logic_client_flags :: "(string \<times> string) list" where
  "logic_client_flags = [(''max_clients'', ''4''), (''logic_service_address'', ''127.0.0.1:10001'')]"

definition logic_main_flags :: "(string \<times> string) list" where
  "logic_main_flags = [(''service_address'', ''127.0.0.1:10001''), (''log_level'', ''0'')]"

definition producer_flags :: "(string \<times> string) list" where
  "producer_flags = [(''kafka_brokers'', ''127.0.0.1:9092''), (''kafka_topic'', ''ychat'')]"

definition logic_server_flags :: "(string \<times> string) list" where
  "logic_server_flags = [(''mysql_conn'', default_conn)]"

definition push_main_flags :: "(string \<times> string) list" where
  "push_main_flags = [(''service_address'', ''127.0.0.1:10002''), (''redis_host'', ''127.0.0.1''), (''log_level'', ''0'')]"

definition push_server_flags :: "(string \<times> string) list" where
  "push_server_flags = [(''user_redis_key_prefix'', ''ychat::user::'')]"

definition route_main_flags :: "(string \<times> string) list" where
  "route_main_flags = [(''service_address'', ''0.0.0.0:10003''), (''redis_host'', ''127.0.0.1''), (''log_level'', ''0'')]"

definition route_service_flags :: "(string \<times> string) list" where
  "route_service_flags = [(''msg_server_token'', ''nieyang2003@qq.com''), (''msg_gate_servers'', ''127.0.0.1:10010''),
     (''redis_user_prefix'', ''ychat::user::''), (''redis_user_token_prefix'', ''ychat::user::token::'')]"

definition varify_main_flags :: "(string \<times> string) list" where
  "varify_main_flags = [(''service_address'', ''0.0.0.0:10004'')]"

definition smtp_flags :: "(string \<times> string) list" where
  "smtp_flags = [(''max_smtp_seesions'', ''4''), (''smtp_server_host'', ''smtp.qq.com''), (''smtp_server_port'', ''587''),
     (''smtp_user'', ''3536448549@qq.com''), (''smtp_password'', ''iwxwlkukubvhchjg'')]"

definition redis_pool_flags :: "(string \<times> string) list" where
  "redis_pool_flags = [(''max_redis_clients'', ''4''), (''redis_url'', ''tcp://127.0.0.1:6379''), (''key_prefix'', key_prefix)]"

definition consumer_flags :: "(string \<times> string) list" where
  "consumer_flags = [(''kafka_brokers'', ''127.0.0.1:9092'')]"

definition mysql_flags :: "(string \<times> string) list" where
  "mysql_flags = [(''mysql_conn'', default_conn), (''groupid'', ''mysql''), (''topic'', ''ychat'')]"

definition mongodb_flags :: "(string \<times> string) list" where
  "mongodb_flags = [(''mongo_location'', ''localhost:27017''), (''mongo_min_conns'', ''4''), (''mongo_max_conns'', ''16''),
     (''groupid'', ''mongodb''), (''topic'', ''ychat'')]"

definition cassandra_flags :: "(string \<times> string) list" where
  "cassandra_flags = [(''cluster_host'', ''127.0.0.1''), (''cluster_port'', ''9042''), (''num_sessions'', ''4''),
     (''groupid'', ''cassandra''), (''topic'', ''ychat''), (''push_server_address'', ''127.0.0.1:10002''),
     (''redis_user_prefix'', ''ychat::user::''), (''redis_host'', ''127.0.0.1''), (''mysql_conn'', default_conn)]"

section \<open>The transfer servers\<close>

definition mysql_main :: "env \<Rightarrow> proc outcome" where
  "mysql_main e =
     (case start_mysql e (proc_new (mysql_flags @ consumer_flags)) of
        Inl x \<Rightarrow> Uncaught x
      | Inr st \<Rightarrow> start_consumer e ''MySQLHandle'' (set_level_debug (ParseCommandLineFlags (argv e) st)))"

definition CassSeessionPool :: "(nat \<Rightarrow> bool) \<Rightarrow> nat \<Rightarrow> nat ConnectionPool option" where
  "CassSeessionPool connect num_sessions = fill_pool connect num_sessions"

definition cassandra_main :: "env \<Rightarrow> nat \<Rightarrow> (proc \<times> nat ConnectionPool) outcome" where
  "cassandra_main e num_sessions =
     (let st = set_level_debug (ParseCommandLineFlags (argv e)
                 (proc_new (cassandra_flags @ consumer_flags))) in
      case start_mysql e st of
        Inl x \<Rightarrow> Uncaught x
      | Inr st1 \<Rightarrow>
          (case start_redis e st1 of
             Inl x \<Rightarrow> Uncaught x
           | Inr st2 \<Rightarrow>
               (case CassSeessionPool (connects e) num_sessions of
                  None \<Rightarrow> Exits 1
                | Some sessions \<Rightarrow>
                    (case start_consumer e ''CassandraHandle'' st2 of
                       Serving st3 \<Rightarrow> Serving (st3, sessions)
                     | Returned c \<Rightarrow> Returned c | Exits c \<Rightarrow> Exits c | Uncaught x \<Rightarrow> Uncaught x | NullServer \<Rightarrow> NullServer))))"

definition mongo_uri :: "string \<Rightarrow> nat \<Rightarrow> nat \<Rightarrow> string" where
  "mongo_uri location mn mx = ''mongodb://'' @ location @ ''/?minPoolSize='' @ dec mn @ ''&maxPoolSize='' @ dec mx"

text \<open>\<open>uri_ok\<close> says whether \<open>mongocxx::uri\<close> accepts a string; otherwise its constructor throws. The pool pointer is never null.\<close>

definition mongodb_main :: "(string \<Rightarrow> bool) \<Rightarrow> env \<Rightarrow> nat \<Rightarrow> nat \<Rightarrow> (proc \<times> string) outcome" where
  "mongodb_main uri_ok e mn mx =
     (let st = set_level_debug (ParseCommandLineFlags (argv e)
                 (proc_new (mongodb_flags @ consumer_flags)));
          uri_str = mongo_uri (flags st ''mongo_location'') mn mx in
      if \<not> uri_ok uri_str then Uncaught MongoUri
      else case start_consumer e ''MongonHandle'' st of
        Serving st1 \<Rightarrow> Serving (st1, uri_str)
      | Returned c \<Rightarrow> Returned c | Exits c \<Rightarrow> Exits c | Uncaught x \<Rightarrow> Uncaught x | NullServer \<Rightarrow> NullServer)"

text \<open>The handler takes a client from the driver's pool, given by its \<open>acquire\<close> and what the destructor of the entry does,
  and lets it go. \<open>None\<close> while \<open>acquire\<close> waits.\<close>

definition MongonHandle :: "('p \<Rightarrow> ('c option \<times> 'p) option) \<Rightarrow> ('p \<Rightarrow> 'c option \<Rightarrow> 'p) \<Rightarrow> kmsg \<Rightarrow> 'p \<Rightarrow> 'p option" where
  "MongonHandle acquire give_back message mongo_pool =
     (case acquire mongo_pool of None \<Rightarrow> None | Some (client, p) \<Rightarrow> Some (give_back p client))"

section \<open>The RPC servers\<close>

text \<open>\<open>main\<close> of the logic server and \<open>LogicServer::Run\<close> up to its loop: the producer first, MySQL only in \<open>Run\<close>.\<close>

definition logic_main :: "env \<Rightarrow> ychat_db \<Rightarrow> (proc \<times> logic_state) outcome" where
  "logic_main e db =
     (let st = InitSpdGflag e ''logic''
                 (proc_new (logic_main_flags @ producer_flags @ logic_server_flags));
          (ok, p) = Producer_Init (kafka e) (flags st ''kafka_brokers'') (flags st ''kafka_topic'') (producer st) in
      if \<not> ok then Returned 1
      else case start_mysql e (st\<lparr>producer := p\<rparr>) of
        Inl x \<Rightarrow> Uncaught x
      | Inr st1 \<Rightarrow> if listens e then Serving (st1, run_start db) else NullServer)"

definition gate_main :: "env \<Rightarrow> nat \<Rightarrow> 'r \<Rightarrow> (proc \<times> 'r gate_proc) outcome" where
  "gate_main e n r =
     (let st = InitSpdGflag e ''gate'' (proc_new (gate_main_flags @ ws_flags @ logic_client_flags)) in
      case LogicStubs (connects e) max_clients of
        None \<Rightarrow> Exits 1
      | Some sp \<Rightarrow>
          (case start_redis e st of
             Inl x \<Rightarrow> Uncaught x
           | Inr st1 \<Rightarrow> if listens e then Serving (st1, gate_start n r sp) else NullServer))"

definition push_main :: "env \<Rightarrow> 'r \<Rightarrow> (proc \<times> 'r push_state) outcome" where
  "push_main e r =
     (let st = InitSpdGflag e ''push'' (proc_new (push_main_flags @ push_server_flags)) in
      case start_redis e st of
        Inl x \<Rightarrow> Uncaught x
      | Inr st1 \<Rightarrow> if listens e then Serving (st1, push_start r) else NullServer)"

definition route_main :: "env \<Rightarrow> 'r \<Rightarrow> (proc \<times> 'r route_state) outcome" where
  "route_main e r =
     (let st = InitSpdGflag e ''route''
                 (proc_new (route_main_flags @ route_service_flags)) in
      case start_redis e st of
        Inl x \<Rightarrow> Uncaught x
      | Inr st1 \<Rightarrow>
          (case RouteServiceImpl (flags st1 ''msg_server_token'') (flags st1 ''msg_gate_servers'') r of
             Inl Exit1 \<Rightarrow> Exits 1
           | Inr rst \<Rightarrow> if listens e then Serving (st1, rst) else NullServer))"

text \<open>In the verification service a mail session that cannot be made exits, a Redis client that cannot be pinged throws.\<close>

definition varify_main :: "env \<Rightarrow> nat \<Rightarrow> nat \<Rightarrow> 'r \<Rightarrow> (proc \<times> 'r varify_state) outcome" where
  "varify_main e max_smtp_seesions max_redis_clients r =
     (let st = set_level_debug (ParseCommandLineFlags (argv e) (proc_new (varify_main_flags @ smtp_flags @ redis_pool_flags))) in
      case SmtpPoll_new (connects e) max_smtp_seesions of
        None \<Rightarrow> Exits 1
      | Some smtp \<Rightarrow>
          (case RedisPool_new (redis_clients_ok e) max_redis_clients of
             None \<Rightarrow> Uncaught RedisError
           | Some rc \<Rightarrow>
               if listens e
               then Serving (st, \<lparr>smtp_pool = smtp, redis_clients = rc, vstore = r, mails = []\<rparr>)
               else NullServer))"

section \<open>Initialised pools\<close>

lemma start_mysql_ok:
  assumes "start_mysql e st = Inr st'" and "poco_mysql_pool (mysql st) = None"
  shows "st' = st\<lparr>mysql := \<lparr>poco_mysql_pool = Some (flags st ''mysql_conn'', 1, 32, 60), connector = True\<rparr>\<rparr>"
  using assms by (auto simp: start_mysql_def InitMysql_def Let_def split: option.splits show_tables.splits)

lemma start_redis_ok:
  assumes "start_redis e st = Inr st'"
  shows "st' = st\<lparr>redis_pool := Some (flags st ''redis_host'', 6379)\<rparr>"
  using assms by (auto simp: start_redis_def redis_Init_def split: if_splits)

lemma start_consumer_ok:
  assumes "start_consumer e h st = Serving st'"
  shows "k_handle (kcons st') = Some (consumer_settings (flags st ''kafka_brokers'') (flags st ''groupid''))"
    "k_topics (kcons st') = [flags st ''topic'']" "handler_fn st' = Some h" "mysql st' = mysql st" "redis_pool st' = redis_pool st"
    "flags st' = flags st"
proof -
  obtain k where "Consumer_Init (kafka e) (flags st ''kafka_brokers'') (flags st ''groupid'') (flags st ''topic'') (kcons st) = (True, k)"
    and st': "st' = st\<lparr>kcons := k, handler_fn := Some h\<rparr>"
    using assms by (auto simp: start_consumer_def split: prod.splits if_splits)
  then have k: "k = (kcons st)\<lparr>k_conf := Some (consumer_settings (flags st ''kafka_brokers'') (flags st ''groupid'')),
      k_tconf := Some [], k_handle := Some (consumer_settings (flags st ''kafka_brokers'') (flags st ''groupid'')),
      k_topics := [flags st ''topic'']\<rparr>" by (simp add: Consumer_Init_True)
  show "k_handle (kcons st') = Some (consumer_settings (flags st ''kafka_brokers'') (flags st ''groupid''))"
    "k_topics (kcons st') = [flags st ''topic'']" "handler_fn st' = Some h" "mysql st' = mysql st" "redis_pool st' = redis_pool st"
    "flags st' = flags st"
    by (simp_all add: st' k)
qed

lemma proc_new_pools [simp]: "poco_mysql_pool (mysql (proc_new d)) = None" "redis_pool (proc_new d) = None"
  by (simp_all add: proc_new_def)

lemma parse_keeps [simp]: "mysql (ParseCommandLineFlags a st) = mysql st" "redis_pool (ParseCommandLineFlags a st) = redis_pool st"
    "producer (ParseCommandLineFlags a st) = producer st"
  by (simp_all add: ParseCommandLineFlags_def)

lemma level_keeps [simp]: "mysql (set_level_debug st) = mysql st" "redis_pool (set_level_debug st) = redis_pool st"
    "flags (set_level_debug st) = flags st"
  by (simp_all add: set_level_debug_def)

lemma init_keeps [simp]: "mysql (InitSpdGflag e m st) = mysql st" "producer (InitSpdGflag e m st) = producer st"
  by (simp_all add: InitSpdGflag_def Let_def)

text \<open>The MongoDB handler leaves the driver's pool with what it had, and it is stuck only on a pool that is empty.\<close>

context lending_pool
begin

lemma MongonHandle_keeps: "MongonHandle acq rel m p = Some p' \<Longrightarrow> own p' = own p"
  by (auto simp: MongonHandle_def take_and_return split: option.splits)

lemma MongonHandle_ready: "live p \<Longrightarrow> own p \<noteq> {#} \<Longrightarrow> \<exists>p'. MongonHandle acq rel m p = Some p'"
  using acq_ready [of p] by (auto simp: MongonHandle_def)

end

section \<open>The defaults fit together\<close>

text \<open>With no command line the servers find each other: no binary defines a flag twice, which gflags would refuse; the gate
  calls the logic server, the transfer server the push server and the route service offers the gate at the addresses these
  serve on; all use one Redis prefix for a user; and every transfer server reads the producer's topic in a group of its own.\<close>

definition gate_flags :: "(string \<times> string) list" where
  "gate_flags = gate_main_flags @ ws_flags @ logic_client_flags"

definition logic_flags :: "(string \<times> string) list" where
  "logic_flags = logic_main_flags @ producer_flags @ logic_server_flags"

definition transfer_flags :: "(string \<times> string) list list" where
  "transfer_flags = [mysql_flags @ consumer_flags, mongodb_flags @ consumer_flags, cassandra_flags @ consumer_flags]"

lemmas flag_defs = gate_main_flags_def ws_flags_def logic_client_flags_def logic_main_flags_def producer_flags_def logic_server_flags_def
  push_main_flags_def push_server_flags_def route_main_flags_def route_service_flags_def varify_main_flags_def smtp_flags_def
  redis_pool_flags_def consumer_flags_def mysql_flags_def mongodb_flags_def cassandra_flags_def gate_flags_def logic_flags_def
  transfer_flags_def

lemma flags_distinct:
  "list_all (\<lambda>fs. distinct (map fst fs))
     ([gate_flags, logic_flags, push_main_flags @ push_server_flags, route_main_flags @ route_service_flags,
       varify_main_flags @ smtp_flags @ redis_pool_flags] @ transfer_flags)"
  by (simp add: flag_defs)

lemma flags_agree:
  "map_of gate_flags ''logic_service_address'' = map_of logic_flags ''service_address''"
  "map_of cassandra_flags ''push_server_address'' = map_of push_main_flags ''service_address''"
  "map_of route_service_flags ''msg_gate_servers'' =
     Some (the (map_of gate_flags ''ws_host'') @ '':'' @ the (map_of gate_flags ''ws_port''))"
  "list_all (\<lambda>v. v = Some redis_user_prefix)
     [map_of gate_flags ''redis_user_prefix'', map_of route_service_flags ''redis_user_prefix'',
      map_of cassandra_flags ''redis_user_prefix'', map_of push_server_flags ''user_redis_key_prefix'']"
  "list_all (\<lambda>fs. map_of fs ''topic'' = map_of logic_flags ''kafka_topic'') transfer_flags"
  "distinct (map (\<lambda>fs. map_of fs ''groupid'') transfer_flags)"
  by (simp_all add: flag_defs redis_user_prefix_def)

section \<open>Singletons\<close>

lemma Instances_set: "once_flag s \<Longrightarrow> Instances cs s = (replicate (length cs) (instance_ptr s), s)"
  by (induction cs) (simp_all add: Instance_def)

lemma Instance_fail: "Instance None singleton_new = (None, singleton_new)"
  by (simp add: Instance_def singleton_new_def)

lemma Instances_new:
  "Instances (replicate k None @ Some x # cs) singleton_new =
     (replicate k None @ replicate (Suc (length cs)) (Some x), \<lparr>once_flag = True, instance_ptr = Some x, constructed = 1\<rparr>)"
proof (induction k)
  case 0
  have "Instance (Some x) singleton_new = (Some x, \<lparr>once_flag = True, instance_ptr = Some x, constructed = 1\<rparr>)"
    by (simp add: Instance_def singleton_new_def)
  then show ?case by (simp add: Instances_set)
qed (simp add: Instance_fail)

section \<open>Properties\<close>


definition ex_env :: env where
  "ex_env = \<lparr>argv = [(''mysql_conn'', ''host=db''), (''redis_host'', ''cache'')], log_level_arg = 0, mysql_new = None,
     mysql_reply = Tables 9, redis_new = True, redis_ping = True,
     kafka = \<lparr>accepts = (\<lambda>k v. True), creates = True, metadata_ok = True, topic_ok_env = True, subscribes = True\<rparr>,
     connects = (\<lambda>i. True), redis_clients_ok = (\<lambda>i. True), listens = True\<rparr>"

lemma ex_env_gate: "\<exists>st p. gate_main ex_env 2 token_store = Serving (st, p)"
  by (simp add: gate_main_def ex_env_def LogicStubs_def fill_pool_eq start_redis_def redis_Init_def Let_def)


text \<open>The MySQL transfer server reads its connection string before it parses the command line: it connects with the
  default, whatever \<open>--mysql_conn\<close> says, while the flag itself has the new value afterwards.\<close>

theorem mysql_conn_flag_ignored:
  assumes "mysql_main e = Serving st" and "map_of (argv e) ''mysql_conn'' = Some v"
  shows "CreateStatement (mysql st) = Some default_conn \<and> flags st ''mysql_conn'' = v"
proof -
  let ?s = "proc_new (mysql_flags @ consumer_flags)"
  obtain s1 where s: "start_mysql e ?s = Inr s1"
    "start_consumer e ''MySQLHandle'' (set_level_debug (ParseCommandLineFlags (argv e) s1)) = Serving st"
    using assms(1) by (auto simp: mysql_main_def split: sum.splits)
  show ?thesis using start_mysql_ok [OF s(1)] start_consumer_ok(4,6) [OF s(2)] assms(2)
    by (simp add: CreateStatement_def ParseCommandLineFlags_def proc_new_def mysql_flags_def)
qed

lemma ex_env_mysql: "\<exists>st. mysql_main ex_env = Serving st"
  by (simp add: mysql_main_def ex_env_def start_mysql_def InitMysql_def proc_new_def start_consumer_def Consumer_Init_def
      conf_sets_spec consumer_settings_def Let_def)

theorem mysql_conn_flag_ignored_witness:
  "\<exists>st. mysql_main ex_env = Serving st \<and> CreateStatement (mysql st) = Some default_conn \<and> flags st ''mysql_conn'' = ''host=db''"
  using ex_env_mysql mysql_conn_flag_ignored [of ex_env] by (auto simp: ex_env_def)

end
