(* ===== verification/Lifetime.thy ===== *)
theory Lifetime
  imports Startup CassLive
begin

text \<open>
  How the parts of the servers end. The RPC clients \<open>LogicClient\<close> (\<open>msg_gate/async_logic_client.cc\<close>), \<open>GateClient\<close>
  (\<open>push/async_gate_client.cc\<close>) and \<open>PushClient\<close> (\<open>transfer/cassandra/main.cc\<close>) each own a completion queue and a thread that
  runs \<open>AsyncRpcComplete\<close> on it, which their destructors join; \<open>completion_client\<close> is what the three share, and it is
  interpreted on the steps of the gate, the push server and the Cassandra transfer process. The destructors of the
  servers and of the pools, \<open>GateClient::Run\<close>, the part of \<open>RunWsApp\<close> around the event loop, and the end of the
  transfer processes are here as well.
\<close>

section \<open>Completion threads\<close>

text \<open>The thread pointer is null before the thread is made and after the join.\<close>

datatype rpc_thread = NullThread | InLoop | LoopLeft

record async_client =
  rpc_thread :: rpc_thread
  cq_down :: bool
  calls :: "nat set"

datatype dtor = Returns | Waits | Crashes

definition LogicClient_new :: async_client where
  "LogicClient_new = \<lparr>rpc_thread = InLoop, cq_down = False, calls = {}\<rparr>"

definition PushClient_new :: async_client where
  "PushClient_new = \<lparr>rpc_thread = InLoop, cq_down = False, calls = {}\<rparr>"

definition GateClient_new :: async_client where
  "GateClient_new = \<lparr>rpc_thread = NullThread, cq_down = False, calls = {}\<rparr>"

definition GateClient_Run :: "async_client \<Rightarrow> async_client" where
  "GateClient_Run c = (if rpc_thread c \<noteq> NullThread then c else c\<lparr>rpc_thread := InLoop\<rparr>)"

text \<open>\<open>while (cq_.Next(&tag, &ok))\<close>: \<open>Next\<close> returns the tag of a finished call, and false once the queue is shut down and
  drained. A call may finish at any time after it was started.\<close>

inductive async_step :: "async_client \<Rightarrow> async_client \<Rightarrow> bool" where
  as_call: "async_step c (c\<lparr>calls := insert a (calls c)\<rparr>)"
| as_next: "rpc_thread c = InLoop \<Longrightarrow> a \<in> calls c \<Longrightarrow> async_step c (c\<lparr>calls := calls c - {a}\<rparr>)"
| as_leave: "rpc_thread c = InLoop \<Longrightarrow> cq_down c \<Longrightarrow> calls c = {} \<Longrightarrow> async_step c (c\<lparr>rpc_thread := LoopLeft\<rparr>)"

text \<open>The three destructors are the same: \<open>joinable\<close> through the pointer, \<open>join\<close>, \<open>reset\<close>.\<close>

definition client_dtor :: "async_client \<Rightarrow> dtor \<times> async_client" where
  "client_dtor c =
     (case rpc_thread c of
        NullThread \<Rightarrow> (Crashes, c)
      | InLoop \<Rightarrow> (Waits, c)
      | LoopLeft \<Rightarrow> (Returns, c\<lparr>rpc_thread := NullThread\<rparr>))"

definition LogicClient_dtor :: "async_client \<Rightarrow> dtor \<times> async_client" where
  "LogicClient_dtor c = client_dtor c"

definition GateClient_dtor :: "async_client \<Rightarrow> dtor \<times> async_client" where
  "GateClient_dtor c = client_dtor c"

definition PushClient_dtor :: "async_client \<Rightarrow> dtor \<times> async_client" where
  "PushClient_dtor c = client_dtor c"

text \<open>Nothing shuts a client's queue down, so the thread never leaves its loop.\<close>

definition open_queue :: "async_client \<Rightarrow> bool" where
  "open_queue c \<longleftrightarrow> rpc_thread c = InLoop \<and> \<not> cq_down c"

lemma open_queue_step: "async_step c c' \<Longrightarrow> open_queue c \<Longrightarrow> open_queue c'"
  by (induction rule: async_step.induct) (simp_all add: open_queue_def)

lemma open_queue_steps: "async_step\<^sup>*\<^sup>* c c' \<Longrightarrow> open_queue c \<Longrightarrow> open_queue c'"
  by (induction rule: rtranclp_induct) (auto dest: open_queue_step)

lemma open_queue_new: "open_queue LogicClient_new" "open_queue PushClient_new" "open_queue (GateClient_Run GateClient_new)"
  by (simp_all add: open_queue_def LogicClient_new_def PushClient_new_def GateClient_new_def GateClient_Run_def)

text \<open>A program that uses such a client, seen through the client.\<close>

locale completion_client =
  fixes step :: "'s \<Rightarrow> 's \<Rightarrow> bool"
    and view :: "'s \<Rightarrow> async_client"
  assumes step_view: "step s s' \<Longrightarrow> async_step\<^sup>*\<^sup>* (view s) (view s')"
begin

lemma steps_view: "step\<^sup>*\<^sup>* s s' \<Longrightarrow> async_step\<^sup>*\<^sup>* (view s) (view s')"
  by (induction rule: rtranclp_induct) (auto dest: step_view)

lemma dtor_waits: "step\<^sup>*\<^sup>* s s' \<Longrightarrow> open_queue (view s) \<Longrightarrow> fst (client_dtor (view s')) = Waits"
  using open_queue_steps [OF steps_view] by (simp add: open_queue_def client_dtor_def)

end

text \<open>The gate's \<open>LogicClient\<close>, the push server's \<open>GateClient\<close> after \<open>Run\<close>, the transfer server's \<open>PushClient\<close>.\<close>

definition logic_client :: "'r gate_proc \<Rightarrow> async_client" where
  "logic_client p = LogicClient_new\<lparr>calls := dom (rpc_ctx p)\<rparr>"

definition gate_client :: "'r push_state \<Rightarrow> async_client" where
  "gate_client st = (GateClient_Run GateClient_new)\<lparr>calls := {a. ppc_of st a = PAtGate}\<rparr>"

definition push_client_view :: "'r cass_proc \<Rightarrow> async_client" where
  "push_client_view s = PushClient_new\<lparr>calls := set (in_flight (cl s))\<rparr>"

lemma same_calls: "c' = c \<Longrightarrow> async_step\<^sup>*\<^sup>* c c'"
  by simp

lemma one_call: "c' = c\<lparr>calls := insert a (calls c)\<rparr> \<Longrightarrow> async_step\<^sup>*\<^sup>* c c'"
  by (simp add: as_call r_into_rtranclp)

lemma one_next: "rpc_thread c = InLoop \<Longrightarrow> a \<in> calls c \<Longrightarrow> c' = c\<lparr>calls := calls c - {a}\<rparr> \<Longrightarrow> async_step\<^sup>*\<^sup>* c c'"
  by (simp add: as_next r_into_rtranclp)

lemma gate_step_logic_client: "gate_step rt R loc single p p' \<Longrightarrow> async_step\<^sup>*\<^sup>* (logic_client p) (logic_client p')"
proof (induction rule: gate_step.induct)
  case (gs_upgrade i p uid token)
  show ?case by (rule same_calls) (simp add: logic_client_def ws_upgrade_def Let_def enqueue_def split: prod.split upgrade.split sum.split)
next
  case (gs_task i p t p')
  have "dom (rpc_ctx p') = dom (rpc_ctx p) \<or> dom (rpc_ctx p') = insert (rpc_next p) (dom (rpc_ctx p))"
    using gs_task(3) by (cases t) (auto simp: run_message_def run_push_def Let_def split: option.splits prod.splits if_splits)
  then show ?case by (auto simp: logic_client_def finish_task_def intro: one_call [where a = "rpc_next p"])
next
  case (gs_arrive p a n q)
  show ?case by (rule same_calls) (simp add: logic_client_def gate_iteration_def enqueue_def split: option.split sum.split)
next
  case (gs_done p a c q n)
  then show ?case by (intro same_calls) (simp add: logic_client_def gate_iteration_def)
next
  case (gs_reply p a u answer)
  then show ?case
    by (intro one_next [where a = a]) (auto simp: logic_client_def LogicClient_new_def logic_complete_def)
qed (simp_all add: logic_client_def enqueue_def ws_close_def split: sum.split)

lemma push_finish_ppc [simp]: "ppc_of (push_finish a s st) = ppc_of st"
  by (simp add: push_finish_def split: option.split)

lemma push_step_gate_client: "push_step R new_stub st st' \<Longrightarrow> async_step\<^sup>*\<^sup>* (gate_client st) (gate_client st')"
proof (induction rule: push_step.induct)
  case (pstep_arrive st a n q)
  then have "{b. ppc_of (push_iteration a q n st) b = PAtGate} = {b. ppc_of st b = PAtGate}"
    by (auto simp: push_iteration_def split: option.split)
  then show ?case by (simp add: gate_client_def)
next
  case (pstep_done st a c q n)
  then show ?case by (simp add: push_iteration_def)
next
  case (pstep_task st a)
  have "{b. ppc_of (push_task R new_stub a st) b = PAtGate} = {b. ppc_of st b = PAtGate} \<or>
      {b. ppc_of (push_task R new_stub a st) b = PAtGate} = insert a {b. ppc_of st b = PAtGate}"
    using pstep_task by (auto simp: push_task_def GateClient_Push_def Let_def split: option.splits if_splits)
  then show ?case by (auto simp: gate_client_def intro: one_call [where a = a])
next
  case (pstep_gate st a s)
  then show ?case
    by (intro one_next [where a = a])
       (auto simp: gate_client_def gate_complete_def GateClient_Run_def GateClient_new_def)
qed (simp add: gate_client_def)

text \<open>A worker either leaves the calls alone or starts one.\<close>

lemma work_step_calls:
  "work_step rt R db s s' \<Longrightarrow>
     in_flight (cl s') = in_flight (cl s) \<and> fresh (cl s') = fresh (cl s) \<and> pushes (pt (cl s')) = pushes (pt (cl s)) \<or>
     (\<exists>m u q. cl s' = start_push m u q (cl s))"
proof (induction rule: work_step.induct)
  case (wk_begin i t s)
  show ?case
    by (simp add: begin_task_def start_delivery_def begin_delivery_def Let_def split: ktask.split handler_task.split option.split)
next
  case (wk_acquire i t s s')
  then show ?case by (auto simp: acquire_session_def split: option.splits)
next
  case (wk_execute i t s fails s')
  then show ?case by (auto simp: execute_statement_def release_session_def split: progress.splits d_pc.splits)
next
  case (wk_spawn i t s m us)
  then show ?case by (cases us) (auto simp: spawn_task_def split: sum.split)
next
  case (wk_push i t s d f q)
  show ?case by (auto simp: push_member_def)
qed (auto simp: take_task_def route_message_def start_delivery_def begin_delivery_def number_member_def finish_worker_def)

lemma start_push_calls:
  "in_flight (start_push m u q c) = in_flight c @ [fresh c]" "fresh (start_push m u q c) = Suc (fresh c)"
  "length (pushes (pt (start_push m u q c))) = Suc (length (pushes (pt c)))"
  by (simp_all add: start_push_def AsyncPush_eq Let_def)

lemma cass_step_push_client: "cass_step rt R db s s' \<Longrightarrow> async_step\<^sup>*\<^sup>* (push_client_view s) (push_client_view s')"
proof (induction rule: cass_step.induct)
  case (cp_work s s')
  from work_step_calls [OF cp_work(2)] show ?case
    by (auto simp: push_client_view_def start_push_calls intro: one_call)
next
  case (cp_next s c ok status)
  then show ?case
    by (intro one_next [where a = c])
       (auto simp: push_client_view_def PushClient_new_def complete_push_def rpc_complete_def spawn_task_def Let_def split: sum.split)
qed (simp_all add: push_client_view_def delete_context_def)

interpretation lc: completion_client "gate_step rt R loc single" logic_client
  by unfold_locales (rule gate_step_logic_client)

interpretation gc: completion_client "push_step R new_stub" gate_client
  by unfold_locales (rule push_step_gate_client)

interpretation pc: completion_client "cass_step rt R db" push_client_view
  by unfold_locales (rule cass_step_push_client)

section \<open>The servers\<close>

text \<open>The pointers \<open>server_\<close> and \<open>cq_\<close>: null in a constructed server, set by \<open>Run\<close>, where \<open>BuildAndStart\<close> yields null when
  the port cannot be bound. The destructors shut both down through the pointers; the members go afterwards.\<close>

record rpc_server =
  server_ptr :: bool
  cq_ptr :: bool

definition server_new :: rpc_server where
  "server_new = \<lparr>server_ptr = False, cq_ptr = False\<rparr>"

definition server_build :: "bool \<Rightarrow> rpc_server \<Rightarrow> rpc_server" where
  "server_build built s = s\<lparr>cq_ptr := True, server_ptr := built\<rparr>"

definition server_shutdown :: "rpc_server \<Rightarrow> dtor" where
  "server_shutdown s = (if server_ptr s \<and> cq_ptr s then Returns else Crashes)"

text \<open>The pool of a server is destroyed once its workers have all left.\<close>

definition LogicServer_dtor :: "'t ThreadPool \<Rightarrow> rpc_server \<Rightarrow> dtor" where
  "LogicServer_dtor thread_pool s =
     (case server_shutdown s of Returns \<Rightarrow> (if joined thread_pool then Returns else Waits) | d \<Rightarrow> d)"

definition GateServer_dtor :: "rpc_server \<Rightarrow> dtor" where
  "GateServer_dtor s = server_shutdown s"

definition PushServer_dtor :: "'t ThreadPool \<Rightarrow> async_client \<Rightarrow> rpc_server \<Rightarrow> dtor" where
  "PushServer_dtor thread_pool client s =
     (case server_shutdown s of
        Returns \<Rightarrow> (case fst (GateClient_dtor client) of Returns \<Rightarrow> (if joined thread_pool then Returns else Waits) | d \<Rightarrow> d)
      | d \<Rightarrow> d)"

text \<open>A server can be taken down only after it was built, and the push server never.\<close>

lemma server_dtors:
  "LogicServer_dtor j (server_build l server_new) = Returns \<longleftrightarrow> l \<and> joined j" "GateServer_dtor server_new = Crashes"
  "(push_step R new_stub)\<^sup>*\<^sup>* (push_start r) st \<Longrightarrow> PushServer_dtor j (gate_client st) s \<noteq> Returns"
proof -
  show "LogicServer_dtor j (server_build l server_new) = Returns \<longleftrightarrow> l \<and> joined j" "GateServer_dtor server_new = Crashes"
    by (simp_all add: LogicServer_dtor_def GateServer_dtor_def server_shutdown_def server_build_def server_new_def)
  assume st: "(push_step R new_stub)\<^sup>*\<^sup>* (push_start r) st"
  have "open_queue (gate_client (push_start r))" using open_queue_new(3) by (simp add: gate_client_def open_queue_def)
  from gc.dtor_waits [OF st this] show "PushServer_dtor j (gate_client st) s \<noteq> Returns"
    by (simp add: PushServer_dtor_def GateClient_dtor_def server_shutdown_def)
qed

text \<open>Nor does the destructor of the gate's client return.\<close>

lemma logic_client_waits:
  assumes "(gate_step rt R loc single)\<^sup>*\<^sup>* (gate_start n r sp) p"
  shows "fst (LogicClient_dtor (logic_client p)) = Waits"
proof -
  have "open_queue (logic_client (gate_start n r sp))" by (simp add: logic_client_def open_queue_def LogicClient_new_def)
  from lc.dtor_waits [OF assms this] show ?thesis by (simp add: LogicClient_dtor_def)
qed

section \<open>The end of the Cassandra transfer process\<close>

text \<open>After \<open>Run\<close> has returned, \<open>main\<close> returns and the singletons are destroyed: the consumer with its pool, and the push client
  if \<open>PushClient::Instance\<close> was ever called, which is when the first push is started.\<close>

definition cass_exited :: "'r cass_proc \<Rightarrow> bool" where
  "cass_exited s \<longleftrightarrow> c_point (kcon s) = Closed \<and> joined (c_threads (kcon s)) \<and>
     (fresh (cl s) = 0 \<or> fst (PushClient_dtor (push_client_view s)) = Returns)"

text \<open>Calls are counted by \<open>fresh\<close> and only added.\<close>

lemma cass_step_fresh:
  "cass_step rt R db s s' \<Longrightarrow> fresh (cl s) \<le> fresh (cl s') \<and>
     fresh (cl s') + length (pushes (pt (cl s))) = fresh (cl s) + length (pushes (pt (cl s')))"
proof (induction rule: cass_step.induct)
  case (cp_work s s')
  from work_step_calls [OF cp_work(2)] show ?case by (auto simp: start_push_calls)
qed (simp_all add: complete_push_def rpc_complete_def spawn_task_def delete_context_def Let_def split: sum.split)

lemma cass_steps_fresh: "(cass_step rt R db)\<^sup>*\<^sup>* s s' \<Longrightarrow> fresh (cl s) \<le> fresh (cl s') \<and>
     fresh (cl s') + length (pushes (pt (cl s))) = fresh (cl s) + length (pushes (pt (cl s')))"
proof (induction rule: rtranclp_induct)
  case (step u v)
  then show ?case using cass_step_fresh [OF step(2)] by simp
qed simp

lemma work_step_pushes: "work_step rt R db s s' \<Longrightarrow> \<exists>P. pushes (pt (cl s')) = pushes (pt (cl s)) @ P"
  using work_step_calls [of rt R db s s'] by (auto simp: start_push_def AsyncPush_eq Let_def)

lemma cass_step_pushes: "cass_step rt R db s s' \<Longrightarrow> \<exists>P. pushes (pt (cl s')) = pushes (pt (cl s)) @ P"
proof (induction rule: cass_step.induct)
  case (cp_work s s')
  then show ?case by (blast intro: work_step_pushes)
qed (simp_all add: complete_push_fields delete_context_def)

lemma cass_pushes: "(cass_step rt R db)\<^sup>*\<^sup>* (cass_start n t) s \<Longrightarrow> \<exists>P. pushes (pt (cl s)) = pushes t @ P"
proof (induction rule: rtranclp_induct)
  case base
  show ?case by (simp add: cass_start_def client_start_def)
next
  case (step u v)
  then show ?case using cass_step_pushes [OF step(2)] by auto
qed

lemma push_client_open: "open_queue (push_client_view s)"
  by (simp add: push_client_view_def open_queue_def PushClient_new_def)

section \<open>The gate without its port\<close>

text \<open>\<open>RunWsApp\<close> around the event loop, in worker \<open>i\<close>: with a listen socket \<open>run\<close> does not return (\<open>None\<close>); without one there
  is nothing to wait for, it returns at once and \<open>RunWsApp\<close> resets its two pointers.\<close>

definition RunWsApp :: "bool \<Rightarrow> nat \<Rightarrow> proc \<times> 'r gate_proc \<Rightarrow> (proc \<times> 'r gate_proc) option" where
  "RunWsApp listen_socket i s =
     (if listen_socket then None
      else Some ((fst s)\<lparr>redis_pool := None\<rparr>, finish_task i RunWsTask (snd s)))"

text \<open>A gate whose WebSocket port is taken: the worker that takes \<open>RunWsApp\<close> returns from it, everything else goes on.\<close>

inductive unbound_step :: "pb_rt \<Rightarrow> 'r redis \<Rightarrow> string \<Rightarrow> proc \<times> 'r gate_proc \<Rightarrow> proc \<times> 'r gate_proc \<Rightarrow> bool"
  for rt :: pb_rt and R :: "'r redis" and loc :: string where
  ub_ws: "i < length (workers (threads p)) \<Longrightarrow> workers (threads p) ! i = Looping \<Longrightarrow> worker_take (threads p) i = Some tp \<Longrightarrow>
     ws_running i (p\<lparr>threads := tp\<rparr>) \<Longrightarrow> RunWsApp False i (st, p\<lparr>threads := tp\<rparr>) = Some s' \<Longrightarrow> unbound_step rt R loc (st, p) s'"
| ub_other: "gate_step rt R loc False p p' \<Longrightarrow> \<nexists>i. ws_running i p' \<Longrightarrow> unbound_step rt R loc (st, p) (st, p')"

text \<open>No event loop, no socket, only pushes among the tasks, and only \<open>NOT_FOUND\<close> among the answers.\<close>

fun quiet_task :: "gate_task \<Rightarrow> bool" where
  "quiet_task RunWsTask = True"
| "quiet_task (PushTask a) = True"
| "quiet_task t = False"

definition deaf :: "'r gate_proc \<Rightarrow> bool" where
  "deaf p \<longleftrightarrow> ginv p \<and> (\<nexists>i. ws_running i p) \<and> sockets (gate p) = (\<lambda>u. None) \<and> sent (gate p) = [] \<and> rpc_ctx p = (\<lambda>a. None) \<and>
     live p = {} \<and> (\<forall>t \<in># pend p. quiet_task t) \<and> list_all (\<lambda>(a, s). s = NOT_FOUND) (g_finishes p)"

lemma deaf_step_with:
  assumes "deaf p" and "ginv p'" and "\<nexists>i. ws_running i p'" and "sockets (gate p') = sockets (gate p)" and "sent (gate p') = sent (gate p)"
    and "rpc_ctx p' = rpc_ctx p" and "live p' = live p" and "\<And>t. t \<in># pend p' \<Longrightarrow> t \<in># pend p \<or> quiet_task t"
    and "g_finishes p' = g_finishes p @ F" and "list_all (\<lambda>(a, s). s = NOT_FOUND) F"
  shows "deaf p'"
proof -
  have "quiet_task t" if "t \<in># pend p'" for t using assms(1) assms(8) [OF that] by (auto simp: deaf_def)
  then show ?thesis using assms by (simp add: deaf_def)
qed

lemma deaf_ws:
  assumes "deaf p" and "i < length (workers (threads p))" and "workers (threads p) ! i = Looping"
    and "worker_take (threads p) i = Some tp" and "ws_running i (p\<lparr>threads := tp\<rparr>)"
  shows "deaf (finish_task i RunWsTask (p\<lparr>threads := tp\<rparr>))"
proof -
  have inv: "ginv p" and st: "\<not> stop (threads p)" using assms(1) ginv_stop by (auto simp: deaf_def)
  note t = ginv_take [OF inv assms(2-4)]
  obtain u us where u: "ThreadPool.tasks (threads p) = u # us"
    "tp = (threads p)\<lparr>workers := (workers (threads p))[i := Running u], ThreadPool.tasks := us, started := started (threads p) @ [u]\<rparr>"
    using take_live [OF assms(4) st] .
  have pd: "add_mset RunWsTask (pend (finish_task i RunWsTask (p\<lparr>threads := tp\<rparr>))) = pend p"
    using pend_done [of i "p\<lparr>threads := tp\<rparr>" RunWsTask] pend_take [OF assms(2-4) st] assms(5) by (simp add: ws_running_def)
  have w: "workers (threads (finish_task i RunWsTask (p\<lparr>threads := tp\<rparr>))) = workers (threads p)"
    using assms(2,3) u by (simp add: finish_task_def worker_done_def list_update_same_conv)
  then have "\<not> ws_running j (finish_task i RunWsTask (p\<lparr>threads := tp\<rparr>))" for j
    using assms(1) unfolding deaf_def ws_running_def w by blast
  moreover have "x \<in># pend (finish_task i RunWsTask (p\<lparr>threads := tp\<rparr>)) \<Longrightarrow> x \<in># pend p" for x
    unfolding pd [symmetric] by simp
  ultimately show ?thesis using ginv_ws_done [OF t assms(5)]
    by (intro deaf_step_with [OF assms(1), where F = "[]"]) (auto simp: finish_task_def)
qed

lemma running_pend: "i < length (workers (threads p)) \<Longrightarrow> workers (threads p) ! i = Running t \<Longrightarrow> t \<in># pend p"
  using pend_done [of i p t] by (metis union_single_eq_member)

lemma deaf_gate:
  assumes "gate_step rt R loc single p p'" and d: "deaf p" and no: "\<nexists>i. ws_running i p'"
  shows "deaf p'"
proof -
  have inv: "ginv p" and st: "\<not> stop (threads p)" and nows: "\<not> ws_running i p" for i
    using d ginv_stop by (auto simp: deaf_def)
  have inv': "ginv p'" by (rule gate_step_ginv [OF assms(1) inv])
  note keep = deaf_step_with [OF d inv' no]
  from assms(1) show ?thesis
  proof cases
    case (gs_take i tp)
    then show ?thesis using pend_take [OF gs_take(2-4) st] by (intro keep [where F = "[]"]) auto
  next
    case (gs_task i t q)
    have t: "t \<in># pend p" using gs_task(2,3) by (rule running_pend)
    moreover have "t \<noteq> RunWsTask" using gs_task(2,3) nows [of i] by (auto simp: ws_running_def)
    ultimately obtain a where a: "t = PushTask a" using d by (cases t) (auto simp: deaf_def)
    obtain c where c: "g_ctx p a = Some c" "\<not> g_done c"
      using ginv_busy [OF inv, of a] ginv_pend [OF inv, of a] t a by (auto simp flip: count_greater_zero_iff split: if_splits)
    have q: "q = p\<lparr>g_ctx := (g_ctx p)(a \<mapsto> c\<lparr>g_done := True\<rparr>), g_pc := (g_pc p)(a := GReturned),
        g_finishes := g_finishes p @ [(a, NOT_FOUND)]\<rparr>"
      using gs_task(4) c d by (simp add: a run_push_def gate_push_def GetWS_def deaf_def)
    have "pend (finish_task i t q) = pend (finish_task i t p)" by (simp add: q finish_task_def pend_def)
    then have "x \<in># pend (finish_task i t q) \<Longrightarrow> x \<in># pend p" for x
      unfolding pend_done [OF gs_task(2,3), symmetric] by simp
    then show ?thesis using gs_task(1) by (intro keep [where F = "[(a, NOT_FOUND)]"]) (auto simp: q finish_task_def)
  next
    case (gs_arrive a n q)
    obtain c where c: "g_ctx p a = Some c" "\<not> g_done c" using ginv_busy [OF inv, of a] gs_arrive(2) by auto
    show ?thesis using st
      by (intro keep [where F = "[]"]) (auto simp: gs_arrive(1) gate_iteration_def c enqueue_live pend_def)
  next
    case (gs_done a c q n)
    then show ?thesis by (intro keep [where F = "[]"]) (auto simp: gate_iteration_def pend_def)
  next
    case (gs_reply a u answer)
    then show ?thesis using d by (simp add: deaf_def)
  next
    case (gs_store r)
    then show ?thesis by (intro keep [where F = "[]"]) (auto simp: pend_def)
  qed (use nows in blast)+
qed

lemma deaf_finished:
  assumes "gate_step rt R loc single p p'" and d: "deaf p" and "RunWsTask \<in> set (finished (threads p'))"
  shows "RunWsTask \<in> set (finished (threads p))"
proof -
  have nows: "\<not> ws_running i p" for i using d by (auto simp: deaf_def)
  from assms(1) show ?thesis
  proof cases
    case (gs_take i tp)
    then show ?thesis using assms(3) by (auto simp: worker_take_def split: if_splits)
  next
    case (gs_task i t q)
    have "t \<noteq> RunWsTask" using gs_task(2,3) nows [of i] by (auto simp: ws_running_def)
    then show ?thesis using assms(3) gs_task(1) run_gate_task_threads [OF gs_task(4)] by (simp add: finish_task_def worker_done_def)
  next
    case (gs_arrive a n q)
    then show ?thesis using assms(3)
      by (auto simp: gate_iteration_def enqueue_def Enqueue_def split: option.splits sum.splits if_splits)
  next
    case (gs_done a c q n)
    then show ?thesis using assms(3) by (simp add: gate_iteration_def)
  next
    case (gs_reply a u answer)
    then show ?thesis using d by (simp add: deaf_def)
  next
    case (gs_store r)
    then show ?thesis using assms(3) by simp
  qed (use nows in blast)+
qed

lemma gate_start_deaf: "deaf (gate_start n r sp)"
  using gate_start_ginv [of n r sp]
  by (auto simp: deaf_def gate_start_live ws_running_def ThreadPool_new_def pend_def concat_running_replicate)

lemma unbound_deaf:
  assumes "(unbound_step rt R loc)\<^sup>*\<^sup>* (st, gate_start n r sp) s"
  shows "deaf (snd s) \<and> (RunWsTask \<in> set (finished (threads (snd s))) \<longrightarrow> redis_pool (fst s) = None)"
  using assms
proof (induction rule: rtranclp_induct)
  case base
  show ?case using gate_start_deaf by (simp add: gate_start_live ThreadPool_new_def)
next
  case (step s s')
  from step(2) show ?case
  proof cases
    case (ub_ws i p tp st)
    then have "s' = (st\<lparr>redis_pool := None\<rparr>, finish_task i RunWsTask (p\<lparr>threads := tp\<rparr>))" by (simp add: RunWsApp_def)
    then show ?thesis using deaf_ws [OF _ ub_ws(2-5)] step(3) ub_ws(1) by simp
  next
    case (ub_other p p' st)
    have "RunWsTask \<in> set (finished (threads p'))  \<Longrightarrow> RunWsTask \<in> set (finished (threads p))"
      using deaf_finished [OF ub_other(3)] step(3) ub_other(1) by simp
    then show ?thesis using deaf_gate [OF ub_other(3) _ ub_other(4)] step(3) ub_other(1,2) by auto
  qed
qed

section \<open>Properties\<close>


text \<open>The run of \<open>two_delivered\<close> goes on: a fatal message, the end of the loop, and the end of both workers.\<close>

definition ex_fatal :: kmsg where
  "ex_fatal = \<lparr>k_err = ERR_OTHER, k_key = None, k_payload = []\<rparr>"

definition closing_moves :: "move list" where
  "closing_moves = [MTest, MPoll ex_fatal, MTake 0, MBegin 0, MFinish 0, MTest, MDestroy, MTake 0, MTake 1]"

lemma closing_run:
  "\<exists>s. schedule wire_rt mem_redis box_db ((two_polled_moves @ two_moves) @ closing_moves) (cass_start 2 transfer0) = Some s \<and>
     c_point (kcon s) = Closed \<and> joined (c_threads (kcon s))"
  unfolding two_moves_def two_polled_moves_def closing_moves_def
  by (simp add: run_simps deliver_member_def ex_gkmsg_fields ex_gmq_fields ex_kmsg_parse ex_kmsg_key ex_mq_fields two_workers
      ex_fatal_def destroy_def joined_def)


text \<open>C25. When the gate cannot bind its WebSocket port it serves all the same: \<open>RunWsApp\<close> only logs, gives up the Redis pool and
  returns. No socket is ever registered, nothing is sent, no push context is lost or answered twice, and every push is
  answered \<open>NOT_FOUND\<close>.\<close>

theorem unbound_gate_deaf:
  assumes "(unbound_step rt R loc)\<^sup>*\<^sup>* (st, gate_start n r sp) (st', p)"
  shows "(\<forall>u. GetWS u (gate p) = None) \<and> sent (gate p) = [] \<and> ginv p \<and> list_all (\<lambda>(a, s). s = NOT_FOUND) (g_finishes p) \<and>
    (RunWsTask \<in> set (finished (threads p)) \<longrightarrow> redis_pool st' = None)"
  using unbound_deaf [OF assms] by (simp add: deaf_def GetWS_def)

definition deaf_start :: "mem gate_proc" where
  "deaf_start = finish_task 0 RunWsTask (the (do_action wire_rt mem_redis ''g:1'' (ATake 0) (gate_start 1 token_store stubs4)))"

definition deaf_end :: "mem gate_proc" where
  "deaf_end = the (do_actions wire_rt mem_redis ''g:1'' [AArrive 0 ex_push 1, ATake 0, ATask 0] deaf_start)"

lemmas deaf_simps = gate_start_live ThreadPool_new_def worker_take_def finish_task_def worker_done_def gate_iteration_def
  gate_context_new_def enqueue_live run_push_def gate_push_def GetWS_def ws_running_def

lemma deaf_run:
  "(unbound_step wire_rt mem_redis ''g:1'')\<^sup>*\<^sup>* (proc_new [], gate_start 1 token_store stubs4) ((proc_new [])\<lparr>redis_pool := None\<rparr>, deaf_end)"
  "g_finishes deaf_end = [(0, NOT_FOUND)]"
proof -
  let ?u = "unbound_step wire_rt mem_redis ''g:1''" and ?st = "(proc_new [])\<lparr>redis_pool := None\<rparr>"
  let ?p0 = "gate_start 1 token_store stubs4"
  define p2 where "p2 = the (do_action wire_rt mem_redis ''g:1'' (AArrive 0 ex_push 1) deaf_start)"
  define p3 where "p3 = the (do_action wire_rt mem_redis ''g:1'' (ATake 0) p2)"
  have act: "do_action wire_rt mem_redis ''g:1'' (AArrive 0 ex_push 1) deaf_start = Some p2"
    "do_action wire_rt mem_redis ''g:1'' (ATake 0) p2 = Some p3" "do_action wire_rt mem_redis ''g:1'' (ATask 0) p3 = Some deaf_end"
    by (simp_all add: p3_def p2_def deaf_start_def deaf_end_def deaf_simps)
  have no: "\<nexists>i. ws_running i p2" "\<nexists>i. ws_running i p3" "\<nexists>i. ws_running i deaf_end"
    by (simp_all add: p3_def p2_def deaf_start_def deaf_end_def deaf_simps)
  have "?u (proc_new [], ?p0) (?st, deaf_start)"
    by (rule ub_ws [where i = 0 and tp = "the (worker_take (threads ?p0) 0)"])
       (simp_all add: deaf_simps deaf_start_def RunWsApp_def)
  moreover have "?u (?st, deaf_start) (?st, p2)" "?u (?st, p2) (?st, p3)" "?u (?st, p3) (?st, deaf_end)"
    using act no by (blast intro: ub_other do_action_step)+
  ultimately show "?u\<^sup>*\<^sup>* (proc_new [], ?p0) (?st, deaf_end)" by (meson converse_rtranclp_into_rtranclp rtranclp.rtrancl_refl)
  show "g_finishes deaf_end = [(0, NOT_FOUND)]" by (simp add: deaf_start_def deaf_end_def deaf_simps)
qed

theorem unbound_gate_deaf_witness: "g_finishes deaf_end = [(0, NOT_FOUND)] \<and> (\<forall>u. GetWS u (gate deaf_end) = None) \<and> ginv deaf_end"
  using unbound_gate_deaf [OF deaf_run(1)] deaf_run(2) by simp

end
