(* ===== verification/Spec2Isabelle.thy ===== *)
theory Spec2Isabelle
  imports PbProps TokenVerify ConnPool ThreadPool Friend LogicRpc GateOrder Route Varify Push Consumer Delivery PushClient CassLive
    MysqlProc Startup Lifetime
begin

text \<open>
  A verification library for the servers of the CPP-IM chat system (\<open>src/server\<close>, C++).

  \<^bold>\<open>The program.\<close> A client asks the route service for a message gate; the service picks the gate with the fewest users and
  stores a one-time token for the user in Redis. The client opens a WebSocket at that gate with the token; the gate
  records the socket in its registry and its own address in Redis. A request the client sends on the socket is decoded and
  forwarded to the logic server, which gives it a message id, checks it (friend operations against MySQL), and produces it
  to a Kafka topic; the answer goes back when Kafka has reported the delivery. Two transfer servers consume the topic: one
  stores messages in MySQL, the other stores them in Cassandra, numbers them per receiver, fans group messages out to
  the members, and sends each to the push server. The push server finds the receiver's gate in Redis and forwards the
  message to it, and the gate writes it to the receiver's socket. The verification service mails codes to new users.
  Between the servers everything travels as Protocol Buffers messages, whose C++ is generated and part of the sources.

  \<^bold>\<open>Layout.\<close> One theory per component; definitions keep the names of the C++ functions.
  \<^item> \<open>Prelude\<close>: machine integers, decimal formatting, \<open>std::stoul\<close>, collections of simplification rules.
  \<^item> \<open>PbWire\<close>, \<open>PbLeaf\<close>, \<open>PbReq\<close>, \<open>PbMq\<close>, \<open>PbRef\<close>, \<open>PbProps\<close>: the generated classes of \<open>proto/msg.pb.cc\<close> and
    \<open>msg.pb.h\<close>. Each message is a record; the parser is the generated \<open>switch\<close> inside the loop \<open>pb_loop\<close> shared by all
    messages. The Protocol Buffers runtime is not in the sources: it is the parameter \<open>rt :: pb_rt\<close>, its documented wire
    format the locale \<open>pb_runtime\<close>, and \<open>wire_rt\<close> an executable implementation on which the locale is interpreted.
  \<^item> \<open>TokenVerify\<close>, \<open>ConnPool\<close>, \<open>ThreadPool\<close>: the headers \<open>include/token_verify.h\<close>, \<open>connection_pool.h\<close> and
    \<open>thread_pool.h\<close>. The pools are state machines; the interface of the connection pool is the locale \<open>lending_pool\<close>.
  \<^item> \<open>MysqlDb\<close>, \<open>RedisIf\<close>: the databases. The MySQL tables and the SQL statements of the C++ sources are functions on
    lists of rows with the keys of \<open>script/mysql.sql\<close>; Redis is a parameter with the laws of the locale \<open>redis_server\<close>,
    interpreted on the reference store \<open>mem_redis\<close>.
  \<^item> \<open>Friend\<close>, \<open>Logic\<close>: \<open>msg_logic/logic_server.cc\<close>, \<open>msgid.h\<close>, \<open>kafka_producer.cc\<close>. \<open>logic_step\<close> interleaves the
    completion-queue loop, the pool tasks and the delivery callback.
  \<^item> \<open>Gate\<close>: \<open>msg_gate/user_mgr.h\<close> (the locale \<open>socket_registry\<close>), and the handlers of \<open>ws_app.cc\<close>,
    \<open>async_logic_client.cc\<close> and \<open>gate_server.cc\<close>. \<open>GateProc\<close> is the process that runs them: \<open>gate_step\<close> interleaves the event
    loop (\<open>RunWsApp\<close>), the pool tasks, the loop of \<open>GateServer::Run\<close> and the completion thread of \<open>LogicClient\<close>.
    \<open>GateOrder\<close> is about the order in which the handlers of a socket run, for one, two and three workers.
  \<^item> \<open>RpcSpec\<close>: the abstract specification of an asynchronous gRPC server (\<open>spec_step\<close>) and the locale \<open>rpc_server\<close> of the
    servers that refine it; interpreted on the logic server in \<open>LogicRpc\<close>, on the push server in \<open>Push\<close> and on the gate
    in \<open>GateProc\<close>.
  \<^item> \<open>Route\<close>: \<open>route/route_service_impl.cc\<close>. \<open>Varify\<close>: \<open>varify/*.cc\<close>. \<open>Push\<close>: \<open>push/*.cc\<close>.
  \<^item> \<open>TransferSrv\<close>, \<open>Consumer\<close>: \<open>transfer/mysql/main.cc\<close>, \<open>transfer/cassandra/main.cc\<close>, \<open>transfer/kafka_consumer.cc\<close>. \<open>Delivery\<close>
    takes a delivery of the Cassandra server apart into its three calls and interleaves them; \<open>PushClient\<close> is the class of
    that name with its completion thread and its success callback. \<open>CassProc\<close> puts these together: \<open>cass_step\<close> is the
    Cassandra transfer process, its polling loop, its workers one call at a time, and the completion thread; it is shown
    to run the consumer and to make deliveries, and to forget no receiver. \<open>CassLive\<close> has the sessions, the progress and the
    termination of its workers, an executable scheduler, and the properties of the process. \<open>MysqlProc\<close> does the same for
    the MySQL transfer process, whose workers run one SQL statement at a time (\<open>mysql_step\<close>), with its serial reference
    (\<open>serial\<close>) and its scheduler. What the two processes owe to the consumer they share is the locale \<open>consumer_process\<close> of
    \<open>Consumer\<close>, interpreted on both.
  \<^item> \<open>Kafka\<close>: \<open>Producer::Init\<close>, \<open>Consumer::Init\<close> and the consumer's callbacks. \<open>Startup\<close>: \<open>include/singleton.h\<close>,
    \<open>mysql_pool.h\<close>, \<open>redis_pool.h\<close>, \<open>spd_gflag.h\<close>, the flags and the \<open>main\<close> functions. \<open>Lifetime\<close>: constructors and
    destructors of the RPC clients and servers (the locale \<open>completion_client\<close>, interpreted on the gate, the push server and
    the Cassandra process), the end of the Cassandra process, and a gate whose WebSocket port is taken.
  \<^item> this theory: the properties that need several servers.

  \<^bold>\<open>Correspondence.\<close> A class is a record of its members, extended by ghost logs of what leaves the program (replies, sent
  frames, produced messages). Code under one mutex is one function of that record; code that other threads may interrupt
  is split into steps of an inductive relation, and its invariants are proved by rule induction. C++ objects that are
  shared or deleted live at addresses, and a use after \<open>delete\<close>, a second \<open>Finish\<close> or a dereference of \<open>end()\<close> is a
  recorded crash or an error value, so safety is provable. \<open>exit(1)\<close>, exceptions, gRPC status codes and waiting forever
  are values of a result type.

  \<^bold>\<open>Parameters.\<close> What the program does not decide is an argument: the runtime \<open>rt\<close>, the Redis commands \<open>R\<close>, random draws and
  the clock, which SQL or Cassandra statements throw (\<open>fl\<close>, \<open>cf\<close>), the collation of \<open>VARCHAR\<close> keys (\<open>coll\<close>), what
  \<open>produce\<close> answers and which delivery reports a \<open>poll\<close> serves, what the mail server answers, whether a gRPC stub can
  be made; at start-up the command line, the settings librdkafka accepts and the servers that can be reached (\<open>env\<close>).

  \<^bold>\<open>What the lemmas show.\<close>
  \<^item> End to end: a message the logic server has produced for a user is decoded by the Cassandra transfer server, stored,
    numbered and pushed, and the gate that holds the receiver's socket writes bytes that decode to it
    (\<open>message_reaches_receiver\<close>); whatever part of the topic the Cassandra process polls, when its workers have run dry every
    receiver has been pushed once or lost to an error (\<open>topic_reaches_everyone\<close>), and every message the MySQL process has
    polled is stored under its id when no statement throws (\<open>topic_is_stored\<close>); a user whose token was dispatched gets in at the gate and is then sent
    the pushes addressed to it (\<open>dispatched_user_gets_pushes\<close>); keys and payloads fit the columns and the Kafka limit
    (\<open>topic_sizes\<close>).
  \<^item> Refinement: the three asynchronous servers implement one specification (\<open>rpc_servers_refine\<close>), and the Cassandra
    process implements a mailbox (\<open>cass_refines_mailbox\<close>).
  \<^item> The Cassandra process: no session and no receiver is lost track of (\<open>cass_conserves\<close>); the workers never wait for each
    other for ever and stop after boundedly many steps (\<open>cass_runs_dry\<close>); a worker alone computes the handler
    (\<open>worker_alone\<close>).
  \<^item> The MySQL process: however its workers interleave and whichever statements throw, they leave the tables of some run of
    the handler on one message after the other (\<open>mysql_serializable\<close>); a message none of whose statements threw is stored
    once, however often it was polled (\<open>mysql_stores_once\<close>); the workers finish what was polled (\<open>mysql_runs_dry\<close>).
  \<^item> Codec: announced size is written size; parsing after writing is the identity; what a parser returns is well formed, and
    can be written and read again; parsing one message followed by another is merging the second into the first
    (\<open>concatenation_merges\<close>).
  \<^item> Logic server: with fresh message ids no interleaving crashes, each call is answered at most once and no accepted call
    is lost; the effect of \<open>Handle\<close> for every verdict and outcome; friend operations are atomic under any failed statement
    and keep at most one pending request per pair.
  \<^item> Gate, route, push and verification: who gets in, which socket a push reaches, which server is dispatched, when a
    call is answered, how long a code is valid; when the registry follows the open sockets.
  \<^item> Start-up: a process that serves has every client and pool its handlers use (\<open>serving_is_ready\<close>); with default flags the
    servers find each other (\<open>flags_agree\<close>).
  \<^item> Transfer: table keys survive every fault, inbox sequence numbers are consecutive under every interleaving,
    group fan-out is exact, the consumer handles each message once, push contexts are neither leaked nor freed twice.
  \<^item> Pools: a connection has at most one holder; tasks start in order and all finish before the destructor returns,
    which it does.
  \<^item> Defects, proved as behaviour of the model: approving a friend request never creates a friendship and is asked of the
    wrong side, a reply waits for a later call, colliding message ids crash the server, closing an old socket logs the user
    out, the sender of a request is not checked, heartbeats dereference \<open>end()\<close>, failed mails drain the mail pool, a closing
    overtakes its opening, a gate with one worker is dead, the success callback of a push reads a deleted context, the
    MySQL transfer server ignores its connection flag, the Cassandra process hangs at exit (\<open>cass_never_exits\<close>), a gate
    without its port answers every push \<open>NOT_FOUND\<close> (\<open>unbound_gate_deaf\<close>).

  \<^bold>\<open>Bounds.\<close> Sizes of written messages are assumed below the runtime's limit \<open>pb_max\<close> (\<open>INT_MAX - 16\<close>), the limit the generated
  code relies on too; the default Kafka limit \<open>message.max.bytes\<close> of 1000000 bytes is in the model of \<open>Produce\<close>. Uniform
  draws from the 62 characters of the message-id alphabet are below 62. Sequence numbers are signed 64-bit: \<open>HINCRBY\<close> is an error
  past \<open>2 ^ 63\<close>, and the theorems on them assume fewer deliveries than would reach it. No definition uses fuel: loops are structural recursion or
  come with a termination proof, and waiting is a step that is not enabled.

  \<^bold>\<open>Not modelled.\<close> The login server (Go); the generated gRPC stubs and the flat messages of \<open>route.proto\<close> and
  \<open>varify.proto\<close>, whose fields are arguments and results of the modelled methods; arenas, reflection and swapping of the
  generated classes; the settings of uWS; the text of log lines and mails; the order in which process-wide objects are
  destroyed, which C++ leaves open. Lambdas that capture handler arguments by reference run with the values at capture,
  except in \<open>PushClient\<close>, where the dangling read is the point. The group memberships a process reads from MySQL do not
  change during a run of \<open>cass_step\<close>, nor does the table of users during a run of \<open>mysql_step\<close>.
\<close>

section \<open>From dispatch to the gate\<close>

lemma stoul_fmt_u64: "stoul (fmt_u64 u) = Inr u"
proof -
  let ?d = "dec (unat u)"
  have dig: "\<forall>c \<in> set ?d. is_digit c" by (rule dec_digits)
  have hd: "is_digit (hd ?d)" using dig by simp
  then have "\<not> is_space (hd ?d)" by (auto simp: is_space_def is_digit_def)
  then have "dropWhile is_space ?d = ?d" by (cases ?d) auto
  moreover have "hd ?d \<noteq> CHR ''-''" "hd ?d \<noteq> CHR ''+''" using hd by (auto simp: is_digit_def)
  moreover have tw: "takeWhile is_digit ?d = ?d" using dig by simp
  moreover have "unat u < 2 ^ 64" using unat_bound [of u] by simp
  ultimately show ?thesis unfolding stoul_def fmt_u64_def Let_def by (simp add: tw)
qed

text \<open>The token a dispatch answers with opens the gate for that user during the next 60 seconds and is refused
  afterwards, as long as nothing else writes the user's token.\<close>

lemma token_opens:
  assumes "redis_server R" and "DispatchMsgServer R dist u rst = (OK, Some (location, token), rst')"
    and "store gst = r_tick R (route_store rst') d"
  shows "UpgradeHandle R (fmt_u64 u) token gst =
    (if d < 60 then (UpgradeTo u, gst\<lparr>jobs := jobs gst @ [fmt_u64 u]\<rparr>) else (UpgradeClose, gst))"
proof -
  have tok: "token \<noteq> []" "route_store rst' = r_setex R (route_store rst) (redis_user_token_prefix @ fmt_u64 u) 60 token"
    using assms(2) by (auto simp: DispatchMsgServer_def GenerateRandomToken_def Let_def split: option.splits)
  have "r_get R (store gst) (redis_user_token_prefix @ fmt_u64 u) = (if d < 60 then Some token else None)"
    using redis_server.get_setex_tick [OF assms(1), of d 60] redis_server.get_expired [OF assms(1), of 60 d]
    by (simp add: assms(3) tok(2))
  moreover have "fmt_u64 u \<noteq> []" by (simp add: fmt_u64_def)
  ultimately show ?thesis using tok(1) by (simp add: UpgradeHandle_def stoul_fmt_u64)
qed

text \<open>A route service with one gate registered.\<close>

definition one_gate :: "mem route_state" where
  "one_gate = add_server ''a:1'' \<lparr>servers = (\<lambda>a. MsgServer_new), next_server = 0, uid_to = (\<lambda>u. None), observed_to = [],
     verifier = \<lparr>recognized_tokens = {}\<rparr>, route_store = mem_empty\<rparr>"

lemma one_gate_dispatch: "\<exists>location token rst'. DispatchMsgServer mem_redis (\<lambda>i. 0) u one_gate = (OK, Some (location, token), rst')"
  by (simp add: one_gate_def DispatchMsgServer_def pick_server_def add_server_def MsgServer_new_def Let_def word_gt_0)



section \<open>From the sender's call to the receiver's socket\<close>

lemma kCharset_ascii: "i < 62 \<Longrightarrow> (of_char (kCharset ! i) :: nat) < 128"
proof -
  assume i: "i < 62"
  have "list_all (\<lambda>c. (of_char c :: nat) < 128) kCharset" by (simp add: kCharset_def)
  moreover have "length kCharset = 62" by (simp add: kCharset_def)
  ultimately show ?thesis using i by (simp add: list_all_length)
qed

lemma gen_msgid_ascii:
  assumes "\<And>i. dis i < 62"
  shows "ascii (gen_msgid ms uid dis)"
proof -
  have cons: "ascii (CHR ''-'' # s) \<longleftrightarrow> ascii s" "ascii (CHR ''_'' # s) \<longleftrightarrow> ascii s" for s by (simp_all add: ascii_def)
  then have "ascii (fmt_i64 ms)" by (simp add: fmt_i64_def)
  moreover have "ascii (GenRandString dis 8)" using kCharset_ascii assms 
    by (auto simp: ascii_def GenRandString_def list_all_iff)
  ultimately show ?thesis by (simp add: gen_msgid_def fmt_u64_def cons)
qed

lemma mq_of_fields [simp]:
  "MqMessage_origin_req (mq_of c) = req c" "MqMessage_handle_result (mq_of c) = resp c"
  by (simp_all add: mq_of_def MqMessage_origin_req_def MqMessage_handle_result_def)

lemma mq_of_wf:
  assumes "pb_runtime rt" and "forwardable c" and "parsed rt (req c)"
  shows "MqMessage_wf rt (mq_of c)"
proof -
  obtain ms dis where dis: "\<And>i. dis i < 62" "resp c = GenProtoResp ms dis (ProtoReq_from_uid (req c))"
    using assms(2) by (auto simp: forwardable_def)
  obtain bytes where "ProtoReq_InternalParse rt ProtoReq_default bytes = AtLimit (req c)"
    using assms(3) unfolding parsed_def ProtoReq_ParseFromArray_def at_limit_def by (fastforce split: pres.splits)
  then have "ProtoReq_wf rt (req c)"
    by (rule pb_runtime.ProtoReq_parse_wf [OF assms(1) pb_runtime.ProtoReq_default_wf [OF assms(1)]])
  moreover have "rt_VerifyUTF8 rt (gen_msgid ms (ProtoReq_from_uid (req c)) dis)"
    by (rule pb_runtime.VerifyUTF8 [OF assms(1) gen_msgid_ascii [OF dis(1)]])
  ultimately show ?thesis
    by (simp add: mq_of_def MqMessage_wf_def MqMessage_default_def dis(2) ProtoResp_wf_def GenProtoResp_def
        ProtoResp_set_timestamp_def ProtoResp_set_msgid_def ProtoResp_default_def)
qed

lemma push_of_wf:
  assumes "pb_runtime rt" and "MqMessage_wf rt m" and "length (MqMessage_InternalSerialize rt m) \<le> 1000000"
  shows "PushReq_wf rt (push_of m u seq)" and "PushReq_ByteSizeLong rt (push_of m u seq) < pb_max"
    and "MqMessage_ByteSizeLong rt m < pb_max"
proof -
  have s: "MqMessage_ByteSizeLong rt m \<le> 1000000" using assms(3) pb_runtime.MqMessage_size [OF assms(1)] by simp
  then have "length (varint (MqMessage_ByteSizeLong rt m)) \<le> 10" by (intro length_varint_le [of _ 9, simplified]) simp
  then show "PushReq_ByteSizeLong rt (push_of m u seq) < pb_max"
    using s length_varint_word [of seq] length_varint_word [of u]
    by (simp add: PushReq_ByteSizeLong_def push_of_def pb_runtime.size_laws [OF assms(1)] pb_max_def)
  show "MqMessage_ByteSizeLong rt m < pb_max" using s by (simp add: pb_max_def)
  show "PushReq_wf rt (push_of m u seq)" using assms(2) by (simp add: PushReq_wf_def push_of_def)
qed

lemma mq_of_parses:
  assumes "pb_runtime rt" and "forwardable c" and "parsed rt (req c)"
    and "length (MqMessage_InternalSerialize rt (mq_of c)) \<le> 1000000"
  shows "MqMessage_ParseFromArray rt (MqMessage_InternalSerialize rt (mq_of c)) = Some (mq_of c)"
proof -
  have wf: "MqMessage_wf rt (mq_of c)" by (rule mq_of_wf [OF assms(1-3)])
  from pb_runtime.MqMessage_roundtrip [OF assms(1) wf push_of_wf(3) [OF assms(1) wf assms(4)]]
  show ?thesis by (simp add: MqMessage_ParseFromArray_def)
qed


lemma one_sent_topic:
  "topic (one_sent rt) = [(gen_msgid 1700000000000 7 (\<lambda>i. 0), MqMessage_InternalSerialize rt
     (mq_of \<lparr>is_done = False, req = ex_req, resp = GenProtoResp 1700000000000 (\<lambda>i. 0) 7\<rparr>))]"
  by (simp add: one_sent_def run_start_def run_iteration_def new_context_def handle_begin_def handle_switch_def
      handle_produce_def Produce_def Let_def ex_req_simps)

definition ex_ctx :: RpcContext where
  "ex_ctx = \<lparr>is_done = False, req = ex_req, resp = GenProtoResp 1700000000000 (\<lambda>i. 0) 7\<rparr>"

lemma ex_ctx_parses:
  "MqMessage_ParseFromArray wire_rt (MqMessage_InternalSerialize wire_rt (mq_of ex_ctx)) = Some (mq_of ex_ctx)"
proof (rule mq_of_parses [OF wire.pb_runtime_axioms])
  show "forwardable ex_ctx"
    by (auto simp: forwardable_def ex_ctx_def ex_req_simps intro!: exI [of _ 1700000000000] exI [of _ "\<lambda>i. 0"])
  show "parsed wire_rt (req ex_ctx)" using ex_req_bytes by (auto simp: parsed_def ex_ctx_def)
qed (simp add: ex_ctx_def ex_payload_size)


section \<open>From the topic to every receiver\<close>

text \<open>A message of the topic as the consumer polls it, and whom it is for.\<close>

definition polled_as :: "string \<times> string \<Rightarrow> kmsg" where
  "polled_as m = \<lparr>k_err = ERR_NO_ERROR, k_key = Some (fst m), k_payload = snd m\<rparr>"

definition addressed :: "ychat_db \<Rightarrow> RpcContext \<Rightarrow> (MqMessage \<times> uid) list" where
  "addressed db c = map (Pair (mq_of c)) (targets db (mq_of c))"

lemma topic_decodes:
  assumes "pb_runtime rt" and "(logic_any rt True)\<^sup>*\<^sup>* (run_start db) lst" and "m \<in> set (topic lst)"
  obtains c where "forwardable c" "fst m = ProtoResp_msgid (resp c)" "msgid_of (mq_of c) = fst m" "decodes rt (polled_as m) (mq_of c)"
proof -
  obtain c where c: "forwardable c" "parsed rt (req c)" "fst m = ProtoResp_msgid (resp c)"
    "snd m = MqMessage_InternalSerialize rt (mq_of c)" "length (snd m) \<le> 1000000"
    using logic_reach_topic [OF assms(2)] assms(3) unfolding topic_ok_def by (cases m) auto
  have "MqMessage_ParseFromArray rt (snd m) = Some (mq_of c)" using mq_of_parses [OF assms(1) c(1,2)] c(4,5) by simp
  then show thesis using that [OF c(1,3)] c(3) by (simp add: decodes_def polled_as_def msgid_of_def)
qed

lemma topic_receivers:
  assumes "pb_runtime rt" and "(logic_any rt True)\<^sup>*\<^sup>* (run_start db) lst" and "m \<in> set (topic lst)"
  shows "\<exists>c. forwardable c \<and> fst m = ProtoResp_msgid (resp c) \<and> receivers rt db' (polled_as m) = mset (addressed db' c)"
proof -
  from assms obtain c where c: "forwardable c" "fst m = ProtoResp_msgid (resp c)" "msgid_of (mq_of c) = fst m"
    "decodes rt (polled_as m) (mq_of c)" by (rule topic_decodes)
  then have "receivers rt db' (polled_as m) = mset (addressed db' c)"
    by (simp add: receivers_def decodes_def polled_as_def addressed_def)
  then show ?thesis using c(1,2) by blast
qed

lemma topic_due:
  assumes "pb_runtime rt" and "(logic_any rt True)\<^sup>*\<^sup>* (run_start db) lst" and "set ms \<subseteq> set (topic lst)"
  shows "\<exists>cs. list_all2 (\<lambda>m c. forwardable c \<and> fst m = ProtoResp_msgid (resp c)) ms cs \<and>
    (\<Sum>m \<in># mset (map polled_as ms). receivers rt db' m) = mset (concat (map (addressed db') cs))"
  using assms(3)
proof (induction ms)
  case Nil
  show ?case by (intro exI [of _ "[]"]) simp
next
  case (Cons m ms)
  then obtain cs where "list_all2 (\<lambda>m c. forwardable c \<and> fst m = ProtoResp_msgid (resp c)) ms cs"
    "(\<Sum>m \<in># mset (map polled_as ms). receivers rt db' m) = mset (concat (map (addressed db') cs))" by auto
  moreover obtain c where "forwardable c" "fst m = ProtoResp_msgid (resp c)" "receivers rt db' (polled_as m) = mset (addressed db' c)"
    using topic_receivers [OF assms(1,2), of m db'] Cons.prems by auto
  ultimately show ?case by (intro exI [of _ "c # cs"]) simp
qed

text \<open>C2. Logic server and Cassandra transfer process together: when the process polls only messages the logic server has
  produced, in whatever order and multiplicity, it never meets a null key; and once its workers have run dry, the pushes
  are exactly these: each polled message, which is the accepted request with its answer, has been pushed once to the user it
  names or to each member its group had at its timestamp, except for those an SQL or Redis error has cost.\<close>

theorem topic_reaches_everyone:
  assumes "pb_runtime rt" and "(logic_any rt True)\<^sup>*\<^sup>* (run_start db) lst" and "set ms \<subseteq> set (topic lst)"
    and "(cass_step rt R db')\<^sup>*\<^sup>* (cass_start n t) s" and "c_polled (kcon s) = map polled_as ms"
  shows "\<not> null_key s \<and> (\<exists>cs. list_all2 (\<lambda>m c. forwardable c \<and> fst m = ProtoResp_msgid (resp c)) ms cs \<and>
    (dry s \<longrightarrow> pushed (pt (cl s)) + mset (lost s) = pushed t + mset (concat (map (addressed db') cs))))"
proof -
  have "\<not> null_key s" using cass_null_key [OF assms(4)] by (auto simp: assms(5) polled_as_def)
  moreover obtain cs where cs: "list_all2 (\<lambda>m c. forwardable c \<and> fst m = ProtoResp_msgid (resp c)) ms cs"
    "(\<Sum>m \<in># mset (map polled_as ms). receivers rt db' m) = mset (concat (map (addressed db') cs))"
    using topic_due [OF assms(1-3), of db'] by blast
  moreover have "accounted rt db' s = pushed t + due rt db' s"
    using cass_reach_inv [OF assms(4)] by (simp add: cass_inv_def dues_met_def)
  ultimately show ?thesis using dry_owed [of s rt db'] by (auto simp: accounted_def due_def assms(5))
qed

text \<open>The message of \<open>one_sent\<close>, polled by a process with one worker.\<close>

definition sent_moves :: "move list" where
  "sent_moves = [MTest, MPoll (polled_as (hd (topic (one_sent wire_rt)))), MTake 0, MBegin 0, MAcquire 0, MExecute False 0,
     MRoute False 0, MNumber False 0, MAcquire 0, MExecute False 0, MPush 0, MFinish 0]"

lemma ex_ctx_fields: "ProtoReq_to_id (req ex_ctx) = 9" "ProtoReq_type (req ex_ctx) = TypeFriendMsg" "msgid_of (mq_of ex_ctx) = gen_msgid 1700000000000 7 (\<lambda>i. 0)"
  by (simp_all add: msgid_of_def) (simp_all add: ex_ctx_def ex_req_def)

lemma sent_polled:
  "k_err (polled_as (hd (topic (one_sent wire_rt)))) = ERR_NO_ERROR"
  "k_key (polled_as (hd (topic (one_sent wire_rt)))) = Some (gen_msgid 1700000000000 7 (\<lambda>i. 0))"
  "MqMessage_ParseFromArray wire_rt (k_payload (polled_as (hd (topic (one_sent wire_rt))))) = Some (mq_of ex_ctx)"
  using ex_ctx_parses by (simp_all add: polled_as_def one_sent_topic ex_ctx_def)

lemma sent_run:
  "\<exists>s. schedule wire_rt mem_redis box_db sent_moves (cass_start 1 transfer0) = Some s \<and> dry s \<and> lost s = [] \<and>
     c_polled (kcon s) = map polled_as (topic (one_sent wire_rt)) \<and> pushed (pt (cl s)) = {#(mq_of ex_ctx, 9)#}"
proof -
  obtain m where "topic (one_sent wire_rt) = [m]" by (simp add: one_sent_topic)
  then have one: "map polled_as (topic (one_sent wire_rt)) = [polled_as (hd (topic (one_sent wire_rt)))]" by simp
  show ?thesis
    unfolding one sent_moves_def
    by (simp add: sent_polled run_simps ex_ctx_fields [unfolded msgid_of_def mq_of_fields] dry_def idle_def pushed_def PushReq_message_def)
qed

theorem topic_reaches_everyone_witness:
  "\<exists>s c. schedule wire_rt mem_redis box_db sent_moves (cass_start 1 transfer0) = Some s \<and> dry s \<and> forwardable c \<and>
     mset (addressed box_db c) = {#(mq_of ex_ctx, 9)#}"
proof -
  obtain s where s: "schedule wire_rt mem_redis box_db sent_moves (cass_start 1 transfer0) = Some s" "dry s" "lost s = []"
    "c_polled (kcon s) = map polled_as (topic (one_sent wire_rt))" "pushed (pt (cl s)) = {#(mq_of ex_ctx, 9)#}"
    using sent_run by blast
  from topic_reaches_everyone [OF wire.pb_runtime_axioms one_sent_reachable subset_refl schedule_run [OF s(1)] s(4)] s(2)
  obtain cs where cs: "list_all2 (\<lambda>m c. forwardable c \<and> fst m = ProtoResp_msgid (resp c)) (topic (one_sent wire_rt)) cs"
    "{#(mq_of ex_ctx, 9)#} = mset (concat (map (addressed box_db) cs))"
    unfolding s(3,5) transfer0_sessions by auto
  obtain m where "topic (one_sent wire_rt) = [m]" by (simp add: one_sent_topic)
  then obtain c where "cs = [c]" "forwardable c" using cs(1) by (auto simp: list_all2_Cons1)
  then show ?thesis using s(1,2) cs(2) by auto
qed

section \<open>From the topic to the tables\<close>

lemma polled_as_eq [simp]: "polled_as m = polled_as m' \<longleftrightarrow> m = m'"
  by (auto simp: polled_as_def prod_eq_iff)


text \<open>The message of \<open>one_sent\<close>, polled by a process with one worker.\<close>

definition sql_sent_moves :: "sql_move list" where
  "sql_sent_moves = [QTest, QPoll (polled_as (hd (topic (one_sent wire_rt)))), QTake 0, QBegin 0, QMessages False 0, QBox False 0,
     QFinish 0]"

lemma sql_sent_run:
  "\<exists>s. sql_schedule wire_rt id sql_sent_moves (mysql_start 1 box_db) = Some s \<and> sql_dry s \<and>
     c_polled (m_con s) = map polled_as (topic (one_sent wire_rt)) \<and> (\<forall>x \<in> set (m_ended s). snd x = None)"
proof -
  obtain m where "topic (one_sent wire_rt) = [m]" by (simp add: one_sent_topic)
  then have one: "map polled_as (topic (one_sent wire_rt)) = [polled_as (hd (topic (one_sent wire_rt)))]" by simp
  show ?thesis
    unfolding one sql_sent_moves_def
    by (simp add: sent_polled sql_run_simps ex_ctx_fields [unfolded msgid_of_def mq_of_fields] box_db_def sql_dry_def idle_def)
qed


section \<open>Sizes\<close>

lemma mq_of_request_size:
  "pb_runtime rt \<Longrightarrow> ProtoReq_ByteSizeLong rt (req c) \<le> MqMessage_ByteSizeLong rt (mq_of c)"
  by (simp add: MqMessage_ByteSizeLong_def mq_of_def MqMessage_default_def pb_runtime.size_laws)

text \<open>C26. Every message in the topic has a key of at most 51 bytes, which the \<open>VARCHAR(64)\<close> columns hold, and a payload at
  most 200 bytes longer than the client's request; the payload fits the Kafka limit, and the \<open>BLOB\<close> column of 65535
  bytes when the request has at most 65335 bytes.\<close>

theorem topic_sizes:
  assumes "pb_runtime rt" and "(logic_any rt True)\<^sup>*\<^sup>* (run_start db) lst" and "(key, payload) \<in> set (topic lst)"
  shows "length key \<le> 51 \<and> length payload \<le> 1000000 \<and>
    (\<exists>c. payload = MqMessage_InternalSerialize rt (mq_of c) \<and> ProtoReq_ByteSizeLong rt (req c) \<le> length payload \<and>
       length payload \<le> ProtoReq_ByteSizeLong rt (req c) + 200 \<and>
       (ProtoReq_ByteSizeLong rt (req c) \<le> 65335 \<longrightarrow> length payload \<le> 65535))"
proof -
  obtain c where c: "forwardable c" "key = ProtoResp_msgid (resp c)"
    "payload = MqMessage_InternalSerialize rt (mq_of c)" "length payload \<le> 1000000"
    using logic_reach_topic [OF assms(2)] assms(3) unfolding topic_ok_def by blast
  obtain ms dis where r: "resp c = GenProtoResp ms dis (ProtoReq_from_uid (req c))"
    using c(1) by (auto simp: forwardable_def)
  have len: "length payload = MqMessage_ByteSizeLong rt (mq_of c)" using c(3) pb_runtime.MqMessage_size [OF assms(1)] by simp
  have low: "ProtoReq_ByteSizeLong rt (req c) \<le> length payload" using mq_of_request_size [OF assms(1)] len by simp
  moreover from this have "length payload \<le> ProtoReq_ByteSizeLong rt (req c) + 200"
    unfolding len using c(4) len by (intro mq_of_size [OF assms(1) r]) simp
  moreover have "length key \<le> 51" using length_gen_msgid c(2) r by simp
  ultimately show ?thesis using c(3,4) by (intro conjI exI [of _ c]) simp_all
qed

theorem topic_sizes_witness:
  "\<exists>key payload. topic (one_sent wire_rt) = [(key, payload)] \<and> length key \<le> 51 \<and> length payload \<le> 1000000"
proof -
  obtain key payload where t: "topic (one_sent wire_rt) = [(key, payload)]" by (simp add: one_sent_topic)
  then have "(key, payload) \<in> set (topic (one_sent wire_rt))" by simp
  from topic_sizes [OF wire.pb_runtime_axioms one_sent_reachable this] t show ?thesis by blast
qed

section \<open>The asynchronous servers\<close>



end
